(* ===== verification/Prelude.thy ===== *)
theory Prelude
  imports Main
begin

text \<open>
  Shared vocabulary of the development: exceptions as values, the C character
  classes in the "C" locale, the searches of std::string_view, std::from_chars
  and the number formatters, and size_t arithmetic with its wrap-around
  written out.
\<close>

named_theorems str_simps \<open>rewrite rules on searches in byte strings\<close>
named_theorems char_simps \<open>definitions of the character classes\<close>

section \<open>Exceptions\<close>

text \<open>
  One constructor per exception class the sources throw; the libuv error
  codes the sources name are constructors too, every other code is UV_CODE.
  OutOfFuel is no
  exception of the program: it marks an evaluation that used up the fuel of
  a loop whose termination is proved separately.
\<close>

datatype uv_err = UV_EAGAIN | UV_ENOSYS | UV_ECANCELED | UV_EBADF | UV_CODE int

datatype exn =
    HttpError int string
  | InvalidArgument string
  | RuntimeError string
  | LogicError string
  | OverflowError string
  | OutOfRange string
  | SqlError int string
  | UvError uv_err string
  | SignalException string
  | TimeoutError
  | OtherException
  | OutOfFuel

type_synonym 'a result = "exn + 'a"

definition map_result :: "('a \<Rightarrow> 'b) \<Rightarrow> 'a result \<Rightarrow> 'b result" where
  "map_result f r = (case r of Inl e \<Rightarrow> Inl e | Inr x \<Rightarrow> Inr (f x))"

lemma map_result_simps [simp]:
  "map_result f (Inl e) = Inl e" "map_result f (Inr x) = Inr (f x)"
  by (simp_all add: map_result_def)

lemma map_result_eq_Inr: "map_result f r = Inr y \<longleftrightarrow> (\<exists>x. r = Inr x \<and> y = f x)"
  by (cases r) auto

section \<open>size_t\<close>

definition size_max :: nat where
  "size_max = 2 ^ 64 - 1"

definition sz_add :: "nat \<Rightarrow> nat \<Rightarrow> nat" where
  "sz_add a b = (a + b) mod 2 ^ 64"

lemma sz_add_exact: "a + b < 2 ^ 64 \<Longrightarrow> sz_add a b = a + b"
  by (simp add: sz_add_def)

lemma sz_add_less: "sz_add a b < 2 ^ 64"
  by (simp add: sz_add_def)

lemma sz_add_0 [simp]: "a < 2 ^ 64 \<Longrightarrow> sz_add a 0 = a"
  by (simp add: sz_add_def)

section \<open>Characters\<close>

definition ord :: "char \<Rightarrow> nat" where
  [char_simps]: "ord c = of_char c"

definition is_digit :: "char \<Rightarrow> bool" where
  [char_simps]: "is_digit c \<longleftrightarrow> 48 \<le> ord c \<and> ord c \<le> 57"

definition is_upper :: "char \<Rightarrow> bool" where
  [char_simps]: "is_upper c \<longleftrightarrow> 65 \<le> ord c \<and> ord c \<le> 90"

definition is_lower :: "char \<Rightarrow> bool" where
  [char_simps]: "is_lower c \<longleftrightarrow> 97 \<le> ord c \<and> ord c \<le> 122"

definition is_alnum :: "char \<Rightarrow> bool" where
  [char_simps]: "is_alnum c \<longleftrightarrow> is_digit c \<or> is_upper c \<or> is_lower c"

definition is_space :: "char \<Rightarrow> bool" where
  [char_simps]: "is_space c \<longleftrightarrow> ord c = 32 \<or> (9 \<le> ord c \<and> ord c \<le> 13)"

definition to_lower :: "char \<Rightarrow> char" where
  [char_simps]: "to_lower c = (if is_upper c then char_of (ord c + 32) else c)"

abbreviation CR :: char where "CR \<equiv> CHR 0x0D"
abbreviation LF :: char where "LF \<equiv> CHR 0x0A"
abbreviation crlf :: string where "crlf \<equiv> [CR, LF]"
abbreviation dquote :: char where "dquote \<equiv> CHR 0x22"

lemma ord_less_256 [simp]: "ord c < 256"
  by (simp add: ord_def)

lemma ord_inject [simp]: "ord a = ord b \<longleftrightarrow> a = b"
  by (simp add: ord_def)

lemma char_of_ord [simp]: "char_of (ord c) = c"
  by (simp add: ord_def)

lemma ord_char_of [simp]: "n < 256 \<Longrightarrow> ord (char_of n) = n"
  by (simp add: ord_def)

lemma to_lower_idem [simp]: "to_lower (to_lower c) = to_lower c"
  by (auto simp: to_lower_def is_upper_def)

section \<open>Searching and cutting byte strings\<close>

text \<open>
  std::string_view::find for one character and for a needle, rfind for one
  character, find_first_of for a set of characters; npos is None.
\<close>

primrec find_char :: "char \<Rightarrow> string \<Rightarrow> nat option" where
  "find_char c [] = None"
| "find_char c (x # xs) = (if x = c then Some 0 else map_option Suc (find_char c xs))"

primrec find_first_of :: "char list \<Rightarrow> string \<Rightarrow> nat option" where
  "find_first_of cs [] = None"
| "find_first_of cs (x # xs) =
     (if x \<in> set cs then Some 0 else map_option Suc (find_first_of cs xs))"

definition rfind_char :: "char \<Rightarrow> string \<Rightarrow> nat option" where
  "rfind_char c s = map_option (\<lambda>i. length s - Suc i) (find_char c (rev s))"

fun starts_with :: "string \<Rightarrow> string \<Rightarrow> bool" where
  "starts_with [] s = True"
| "starts_with (p # ps) [] = False"
| "starts_with (p # ps) (x # xs) = (p = x \<and> starts_with ps xs)"

fun find_sub :: "string \<Rightarrow> string \<Rightarrow> nat option" where
  "find_sub needle [] = (if needle = [] then Some 0 else None)"
| "find_sub needle (x # xs) =
     (if starts_with needle (x # xs) then Some 0 else map_option Suc (find_sub needle xs))"

text \<open>substr(0, i) with npos standing for the whole string.\<close>

definition head_to :: "nat option \<Rightarrow> string \<Rightarrow> string" where
  "head_to i s = (case i of None \<Rightarrow> s | Some n \<Rightarrow> take n s)"

lemma head_to_simps [simp]: "head_to None s = s" "head_to (Some n) s = take n s"
  by (simp_all add: head_to_def)

lemma starts_with_iff: "starts_with p s \<longleftrightarrow> (\<exists>r. s = p @ r)"
  by (induction p s rule: starts_with.induct) auto

lemma starts_with_append [simp]: "starts_with p (p @ r)"
  by (simp add: starts_with_iff)

lemma starts_with_take: "starts_with p s \<longleftrightarrow> take (length p) s = p"
  by (metis append_eq_conv_conj append_take_drop_id starts_with_iff)

lemma find_char_None [str_simps]: "find_char c s = None \<longleftrightarrow> c \<notin> set s"
  by (induction s) auto

lemma find_char_Some:
  "find_char c s = Some i \<longleftrightarrow> i < length s \<and> s ! i = c \<and> c \<notin> set (take i s)"
proof (induction s arbitrary: i)
  case (Cons x xs)
  then show ?case by (cases i) auto
qed simp

lemma find_char_length: "find_char c s = Some i \<Longrightarrow> i < length s"
  by (simp add: find_char_Some)

lemma find_char_append [str_simps]:
  "c \<notin> set a \<Longrightarrow> find_char c (a @ c # b) = Some (length a)"
  by (induction a) auto

lemma find_char_append_None [str_simps]:
  "c \<notin> set a \<Longrightarrow> find_char c (a @ b) = map_option ((+) (length a)) (find_char c b)"
proof (induction a)
  case Nil
  then show ?case by (cases "find_char c b") auto
next
  case (Cons x a)
  then show ?case by (cases "find_char c b") auto
qed

lemma find_char_split:
  assumes "find_char c s = Some i"
  shows "s = take i s @ c # drop (Suc i) s"
  using assms id_take_nth_drop[of i s] by (auto simp: find_char_Some)

lemma find_sub_length: "find_sub p s = Some i \<Longrightarrow> i + length p \<le> length s"
proof (induction p s arbitrary: i rule: find_sub.induct)
  case (2 needle x xs)
  show ?case
  proof (cases "starts_with needle (x # xs)")
    case True
    then obtain r where "x # xs = needle @ r" by (auto simp: starts_with_iff)
    then have "length (x # xs) = length needle + length r" by (metis length_append)
    with True 2 show ?thesis by simp
  next
    case False
    with 2 show ?thesis by auto
  qed
qed (auto split: if_splits)

lemma find_sub_Some_starts: "find_sub p s = Some i \<Longrightarrow> starts_with p (drop i s)"
  by (induction p s arbitrary: i rule: find_sub.induct) (auto split: if_splits)

lemma find_sub_first: "find_sub p s = Some i \<Longrightarrow> j < i \<Longrightarrow> \<not> starts_with p (drop j s)"
proof (induction p s arbitrary: i j rule: find_sub.induct)
  case (2 needle x xs)
  then show ?case by (cases j) (auto split: if_splits)
qed (auto split: if_splits)

lemma all_nat_le_Cons: "(\<forall>i \<le> Suc n. P i) \<longleftrightarrow> P 0 \<and> (\<forall>i \<le> n. P (Suc i))"
  by (metis Suc_le_mono le0 not0_implies_Suc)

lemma find_sub_None: "find_sub p s = None \<longleftrightarrow> (\<forall>i \<le> length s. \<not> starts_with p (drop i s))"
proof (induction p s rule: find_sub.induct)
  case (1 needle)
  then show ?case by (cases needle) auto
next
  case (2 needle x xs)
  have "(\<forall>i \<le> length (x # xs). \<not> starts_with needle (drop i (x # xs))) \<longleftrightarrow>
     \<not> starts_with needle (x # xs) \<and> (\<forall>i \<le> length xs. \<not> starts_with needle (drop i xs))"
    using all_nat_le_Cons[of "length xs" "\<lambda>i. \<not> starts_with needle (drop i (x # xs))"] by simp
  with 2 show ?case by auto
qed

lemma find_sub_eqI:
  assumes "starts_with p (drop i s)" and "i \<le> length s"
    and "\<And>j. j < i \<Longrightarrow> \<not> starts_with p (drop j s)"
  shows "find_sub p s = Some i"
proof (cases "find_sub p s")
  case None
  with assms show ?thesis by (simp add: find_sub_None)
next
  case (Some k)
  then have "starts_with p (drop k s)" and "\<And>j. j < k \<Longrightarrow> \<not> starts_with p (drop j s)"
    by (auto dest: find_sub_Some_starts find_sub_first)
  with assms have "\<not> k < i" and "\<not> i < k" by blast+
  then show ?thesis using Some by simp
qed

lemma find_sub_split:
  assumes "find_sub p s = Some i"
  shows "s = take i s @ p @ drop (i + length p) s"
proof -
  obtain r where r: "drop i s = p @ r"
    using find_sub_Some_starts[OF assms] by (auto simp: starts_with_iff)
  then have "r = drop (i + length p) s"
    by (metis add.commute append_eq_conv_conj drop_drop)
  then show ?thesis using r by (metis append_take_drop_id)
qed

lemma find_sub_append: "find_sub p s = Some i \<Longrightarrow> find_sub p (s @ u) = Some i"
  by (rule find_sub_eqI)
    (use find_sub_Some_starts find_sub_length find_sub_first in \<open>fastforce simp: starts_with_take\<close>)+

lemma find_sub_crlf: "CR \<notin> set l \<Longrightarrow> find_sub crlf (l @ crlf @ rest) = Some (length l)"
  by (induction l) auto

section \<open>Comparison and trimming\<close>

definition iequals :: "string \<Rightarrow> string \<Rightarrow> bool" where
  "iequals lhs rhs \<longleftrightarrow> length lhs = length rhs \<and>
     (\<forall>i < length lhs. to_lower (lhs ! i) = to_lower (rhs ! i))"

lemma iequals_map: "iequals a b \<longleftrightarrow> map to_lower a = map to_lower b"
  by (auto simp: iequals_def list_eq_iff_nth_eq)

lemma iequals_code [code]: "iequals a b \<longleftrightarrow> map to_lower a = map to_lower b"
  by (rule iequals_map)

lemma iequals_refl [simp]: "iequals a a"
  by (simp add: iequals_map)

lemma iequals_sym: "iequals a b \<Longrightarrow> iequals b a"
  by (simp add: iequals_map)

lemma iequals_trans [trans]: "iequals a b \<Longrightarrow> iequals b c \<Longrightarrow> iequals a c"
  by (simp add: iequals_map)

text \<open>trim_copy: the begin index moves over leading space, then the end index back.\<close>

definition trim_copy :: "string \<Rightarrow> string" where
  "trim_copy s = rev (dropWhile is_space (rev (dropWhile is_space s)))"

definition trimmed :: "string \<Rightarrow> bool" where
  "trimmed s \<longleftrightarrow> s = [] \<or> (\<not> is_space (hd s) \<and> \<not> is_space (last s))"

lemma trim_copy_trimmed [simp]: "trimmed (trim_copy s)"
proof (cases "trim_copy s = []")
  case False
  define t where "t = dropWhile is_space s"
  have t: "trim_copy s = rev (dropWhile is_space (rev t))"
    by (simp add: trim_copy_def t_def)
  have ne: "dropWhile is_space (rev t) \<noteq> []" using False t by simp
  then have "\<not> is_space (hd (dropWhile is_space (rev t)))"
    by (rule hd_dropWhile)
  then have last: "\<not> is_space (last (trim_copy s))"
    using ne by (simp add: t last_rev)
  obtain u where u: "rev t = u @ dropWhile is_space (rev t)"
    by (metis takeWhile_dropWhile_id)
  then have "t = trim_copy s @ rev u"
    using t by (metis rev_append rev_rev_ident)
  then have "hd t = hd (trim_copy s)" and "t \<noteq> []" using False by auto
  then have "\<not> is_space (hd (trim_copy s))"
    using hd_dropWhile[of is_space s] by (simp add: t_def)
  with last show ?thesis by (simp add: trimmed_def)
qed (simp add: trimmed_def)

lemma trim_copy_id: "trimmed s \<Longrightarrow> trim_copy s = s"
proof (cases s)
  case (Cons a list)
  assume "trimmed s"
  then have "\<not> is_space (hd s)" and l: "\<not> is_space (last s)"
    using Cons by (auto simp: trimmed_def)
  then have "dropWhile is_space s = s" using Cons by simp
  moreover have "dropWhile is_space (rev s) = rev s"
    using l by (simp add: dropWhile_eq_self_iff hd_rev)
  ultimately show ?thesis by (simp add: trim_copy_def)
qed (simp add: trim_copy_def)

lemma trim_copy_space [simp]: "is_space c \<Longrightarrow> trim_copy (c # s) = trim_copy s"
  by (simp add: trim_copy_def)

lemma trim_copy_Nil [simp]: "trim_copy [] = []"
  by (simp add: trim_copy_def)

lemma set_trim_copy: "set (trim_copy s) \<subseteq> set s"
  by (auto simp: trim_copy_def dest!: set_dropWhileD)

section \<open>Numbers as text\<close>

text \<open>
  std::from_chars for an unsigned type: the longest run of digits of the base,
  no sign and no prefix; an empty run or a value above the type's maximum is an
  error (None), otherwise the value and what follows the run.
\<close>

definition digit_value :: "char \<Rightarrow> nat option" where
  "digit_value c =
     (if is_digit c then Some (ord c - 48)
      else if is_lower c then Some (ord c - 87)
      else if is_upper c then Some (ord c - 55)
      else None)"

definition base_digit :: "nat \<Rightarrow> char \<Rightarrow> bool" where
  "base_digit b c \<longleftrightarrow> (case digit_value c of None \<Rightarrow> False | Some d \<Rightarrow> d < b)"

definition digits_value :: "nat \<Rightarrow> string \<Rightarrow> nat" where
  "digits_value b ds = foldl (\<lambda>v c. v * b + the (digit_value c)) 0 ds"

definition from_chars :: "nat \<Rightarrow> nat \<Rightarrow> string \<Rightarrow> (nat \<times> string) option" where
  "from_chars b maxv s =
     (let ds = takeWhile (base_digit b) s
      in if ds = [] then None
         else if digits_value b ds > maxv then None
         else Some (digits_value b ds, dropWhile (base_digit b) s))"

text \<open>from_chars followed by the test that the whole text was consumed.\<close>

definition parse_whole :: "nat \<Rightarrow> nat \<Rightarrow> string \<Rightarrow> nat option" where
  "parse_whole b maxv s =
     (case from_chars b maxv s of
        Some (v, []) \<Rightarrow> Some v
      | _ \<Rightarrow> None)"

text \<open>std::to_string and the %zx conversion: digits in lower case, no leading zero.\<close>

definition digit_char :: "nat \<Rightarrow> char" where
  "digit_char d = char_of (if d < 10 then 48 + d else 87 + d)"

fun to_base :: "nat \<Rightarrow> nat \<Rightarrow> string" where
  "to_base b n =
     (if b < 2 \<or> n < b then [digit_char n] else to_base b (n div b) @ [digit_char (n mod b)])"

declare to_base.simps [simp del]

abbreviation dec_string :: "nat \<Rightarrow> string" where
  "dec_string \<equiv> to_base 10"

abbreviation hex_string :: "nat \<Rightarrow> string" where
  "hex_string \<equiv> to_base 16"

definition int_string :: "int \<Rightarrow> string" where
  "int_string i = (if i < 0 then CHR ''-'' # dec_string (nat (- i)) else dec_string (nat i))"

lemma digit_value_char: "d < 36 \<Longrightarrow> digit_value (digit_char d) = Some d"
  by (auto simp: digit_value_def digit_char_def is_digit_def is_lower_def is_upper_def)

lemma base_digit_char: "d < b \<Longrightarrow> b \<le> 36 \<Longrightarrow> base_digit b (digit_char d)"
  by (simp add: base_digit_def digit_value_char)

lemma to_base_nonempty [simp]: "to_base b n \<noteq> []"
  by (subst to_base.simps) simp

lemma to_base_digits:
  "2 \<le> b \<Longrightarrow> b \<le> 36 \<Longrightarrow> c \<in> set (to_base b n) \<Longrightarrow> base_digit b c"
proof (induction b n rule: to_base.induct)
  case (1 b n)
  show ?case
  proof (cases "n < b")
    case True
    with 1 show ?thesis by (simp add: to_base.simps[of b n] base_digit_char)
  next
    case False
    with 1 show ?thesis by (auto simp: to_base.simps[of b n] base_digit_char)
  qed
qed

lemma digits_value_snoc: "digits_value b (ds @ [c]) = digits_value b ds * b + the (digit_value c)"
  by (simp add: digits_value_def)

lemma digits_value_to_base:
  "2 \<le> b \<Longrightarrow> b \<le> 36 \<Longrightarrow> digits_value b (to_base b n) = n"
proof (induction b n rule: to_base.induct)
  case (1 b n)
  show ?case
  proof (cases "n < b")
    case True
    with 1 show ?thesis
      by (simp add: to_base.simps[of b n] digits_value_def digit_value_char)
  next
    case False
    with 1 have "digits_value b (to_base b (n div b)) = n div b" by simp
    moreover have "n mod b < 36"
      using 1(2,3) by (meson leD leI le_trans less_le_trans mod_less_divisor zero_less_numeral)
    ultimately show ?thesis using False 1
      by (simp add: to_base.simps[of b n] digits_value_snoc digit_value_char)
  qed
qed

lemma from_chars_to_base:
  assumes "2 \<le> b" "b \<le> 36" "n \<le> maxv" and rest: "rest = [] \<or> \<not> base_digit b (hd rest)"
  shows "from_chars b maxv (to_base b n @ rest) = Some (n, rest)"
proof -
  have all: "\<forall>c \<in> set (to_base b n). base_digit b c"
    using assms to_base_digits by blast
  have "takeWhile (base_digit b) rest = []" "dropWhile (base_digit b) rest = rest"
    using rest by (cases rest; simp)+
  then have "takeWhile (base_digit b) (to_base b n @ rest) = to_base b n"
    and "dropWhile (base_digit b) (to_base b n @ rest) = rest"
    using all by simp_all
  then show ?thesis
    using assms by (simp add: from_chars_def digits_value_to_base)
qed

lemma parse_whole_to_base:
  "2 \<le> b \<Longrightarrow> b \<le> 36 \<Longrightarrow> n \<le> maxv \<Longrightarrow> parse_whole b maxv (to_base b n) = Some n"
  using from_chars_to_base[of b n maxv "[]"] by (simp add: parse_whole_def)

lemma from_chars_le: "from_chars b maxv s = Some (v, r) \<Longrightarrow> v \<le> maxv"
  by (auto simp: from_chars_def Let_def split: if_splits)

lemma parse_whole_le: "parse_whole b maxv s = Some v \<Longrightarrow> v \<le> maxv"
  by (auto simp: parse_whole_def dest: from_chars_le split: option.splits list.splits)

lemma parse_whole_Nil [simp]: "parse_whole b maxv [] = None"
  by (simp add: parse_whole_def from_chars_def)

lemma to_base_no_char:
  "2 \<le> b \<Longrightarrow> b \<le> 36 \<Longrightarrow> \<not> base_digit b c \<Longrightarrow> c \<notin> set (to_base b n)"
  using to_base_digits by blast

lemma base_digit_not_space: "base_digit b c \<Longrightarrow> \<not> is_space c"
  by (auto simp: base_digit_def digit_value_def is_digit_def is_lower_def is_upper_def is_space_def
      split: if_splits option.splits)

lemma trimmed_to_base: "2 \<le> b \<Longrightarrow> b \<le> 36 \<Longrightarrow> trimmed (to_base b n)"
  unfolding trimmed_def
  by (meson base_digit_not_space hd_in_set last_in_set to_base_digits to_base_nonempty)

end
