(* ===== verification/Http_Headers.thy ===== *)
theory Http_Headers
  imports Prelude
begin

text \<open>
  The header list of src/http.cpp: lookup, update and removal by
  case-insensitive name, the comma-separated token lists, the framing headers
  (Content-Length, Transfer-Encoding), Connection, Expect, the header block
  written on the wire and the reason phrases.

  The locale header_map states what the rest of the HTTP code relies on: a
  header list behaves as a map from case-insensitive names to values for
  set_header, erase_header and find_header.
\<close>

section \<open>Header lists\<close>

record header =
  hname :: string
  hvalue :: string

type_synonym headers = "header list"

definition Header :: "string \<Rightarrow> string \<Rightarrow> header" where
  "Header n v = \<lparr>hname = n, hvalue = v\<rparr>"

lemma Header_sel [simp]: "hname (Header n v) = n" "hvalue (Header n v) = v"
  by (simp_all add: Header_def)

primrec find_header :: "headers \<Rightarrow> string \<Rightarrow> string option" where
  "find_header [] name = None"
| "find_header (h # hs) name =
     (if iequals (hname h) name then Some (hvalue h) else find_header hs name)"

definition append_header :: "headers \<Rightarrow> string \<Rightarrow> string \<Rightarrow> headers" where
  "append_header hs name v = hs @ [Header name v]"

definition erase_header :: "headers \<Rightarrow> string \<Rightarrow> headers" where
  "erase_header hs name = filter (\<lambda>h. \<not> iequals (hname h) name) hs"

definition set_header :: "headers \<Rightarrow> string \<Rightarrow> string \<Rightarrow> headers" where
  "set_header hs name v = erase_header hs name @ [Header name v]"

text \<open>
  The loop that walks a header value: the pieces between commas, in order;
  it stops when nothing remains, so a trailing comma adds no piece.
\<close>

function comma_parts :: "string \<Rightarrow> string list" where
  "comma_parts remaining =
     (if remaining = [] then []
      else case find_char (CHR '','') remaining of
             None \<Rightarrow> [remaining]
           | Some comma \<Rightarrow> take comma remaining # comma_parts (drop (Suc comma) remaining))"
  by pat_completeness auto
termination
  by (relation "measure length") (auto dest: find_char_length)

declare comma_parts.simps [simp del]

definition header_contains_token :: "headers \<Rightarrow> string \<Rightarrow> string \<Rightarrow> bool" where
  "header_contains_token hs name token =
     list_ex (\<lambda>h. iequals (hname h) name \<and>
                list_ex (\<lambda>part. iequals (trim_copy part) token) (comma_parts (hvalue h))) hs"

section \<open>Framing headers\<close>

fun content_length_loop :: "headers \<Rightarrow> nat option \<Rightarrow> nat option result" where
  "content_length_loop [] parsed = Inr parsed"
| "content_length_loop (h # hs) parsed =
     (if \<not> iequals (hname h) ''Content-Length'' then content_length_loop hs parsed
      else case parse_whole 10 size_max (trim_copy (hvalue h)) of
             None \<Rightarrow> Inl (HttpError 400 ''invalid Content-Length'')
           | Some current \<Rightarrow>
               if parsed \<noteq> None \<and> parsed \<noteq> Some current
               then Inl (HttpError 400 ''conflicting Content-Length headers'')
               else content_length_loop hs (Some current))"

definition parse_content_length :: "headers \<Rightarrow> nat option result" where
  "parse_content_length hs = content_length_loop hs None"

datatype ParsedTransferEncoding = TE_None | TE_Chunked

fun te_tokens :: "string list \<Rightarrow> bool \<Rightarrow> bool \<Rightarrow> (bool \<times> bool) result" where
  "te_tokens [] saw_te saw_chunked = Inr (saw_te, saw_chunked)"
| "te_tokens (part # parts) saw_te saw_chunked =
     (let token = trim_copy part
      in if token = [] then te_tokens parts saw_te saw_chunked
         else if iequals token ''chunked'' then
           (if saw_chunked
            then Inl (InvalidArgument ''invalid HTTP message: duplicate chunked Transfer-Encoding'')
            else te_tokens parts True True)
         else Inl (InvalidArgument ''unsupported Transfer-Encoding''))"

fun te_headers :: "headers \<Rightarrow> bool \<Rightarrow> bool \<Rightarrow> (bool \<times> bool) result" where
  "te_headers [] saw_te saw_chunked = Inr (saw_te, saw_chunked)"
| "te_headers (h # hs) saw_te saw_chunked =
     (if \<not> iequals (hname h) ''Transfer-Encoding'' then te_headers hs saw_te saw_chunked
      else case te_tokens (comma_parts (hvalue h)) saw_te saw_chunked of
             Inl e \<Rightarrow> Inl e
           | Inr (te, ch) \<Rightarrow> te_headers hs te ch)"

definition parse_transfer_encoding :: "headers \<Rightarrow> ParsedTransferEncoding result" where
  "parse_transfer_encoding hs =
     (case te_headers hs False False of
        Inl e \<Rightarrow> Inl e
      | Inr (saw_te, saw_chunked) \<Rightarrow>
          if \<not> saw_te then Inr TE_None
          else if \<not> saw_chunked then Inl (InvalidArgument ''unsupported Transfer-Encoding'')
          else Inr TE_Chunked)"

definition should_keep_alive :: "headers \<Rightarrow> int \<Rightarrow> bool" where
  "should_keep_alive hs version_minor =
     (if header_contains_token hs ''Connection'' ''close'' then False
      else if header_contains_token hs ''Connection'' ''keep-alive'' then True
      else version_minor \<ge> 1)"

datatype ParsedExpect = Expect_None | Expect_Continue100 | Expect_Unsupported

definition expect_tokens :: "headers \<Rightarrow> string list" where
  "expect_tokens hs =
     filter (\<lambda>t. t \<noteq> [])
       (map trim_copy (concat (map (\<lambda>h. if iequals (hname h) ''Expect''
                                         then comma_parts (hvalue h) else []) hs)))"

definition parse_expect :: "headers \<Rightarrow> ParsedExpect" where
  "parse_expect hs =
     (let saw_continue = list_ex (\<lambda>t. iequals t ''100-continue'') (expect_tokens hs);
          saw_other = list_ex (\<lambda>t. \<not> iequals t ''100-continue'') (expect_tokens hs)
      in if saw_other then Expect_Unsupported
         else if saw_continue then Expect_Continue100
         else Expect_None)"

definition expects_continue :: "headers \<Rightarrow> bool" where
  "expects_continue hs \<longleftrightarrow> parse_expect hs = Expect_Continue100"

definition response_has_body :: "int \<Rightarrow> string \<Rightarrow> bool" where
  "response_has_body status request_method =
     (if iequals request_method ''HEAD'' then False
      else if status \<ge> 100 \<and> status < 200 then False
      else status \<noteq> 204 \<and> status \<noteq> 304)"

text \<open>
  A header as picohttpparser returns it: no name marks a continuation line,
  which copy_headers folds into the header before it.
\<close>

record phr_header =
  phr_name :: "string option"
  phr_value :: string

fun copy_headers_step :: "headers \<Rightarrow> phr_header \<Rightarrow> headers" where
  "copy_headers_step hs raw =
     (case phr_name raw of
        None \<Rightarrow>
          if hs = [] then hs
          else butlast hs @ [Header (hname (last hs)) (hvalue (last hs) @ '' '' @ phr_value raw)]
      | Some n \<Rightarrow> hs @ [Header n (phr_value raw)])"

definition copy_headers :: "phr_header list \<Rightarrow> headers" where
  "copy_headers raw = foldl copy_headers_step [] raw"

section \<open>Outgoing headers\<close>

definition prepare_outgoing_headers :: "headers \<Rightarrow> bool \<Rightarrow> bool \<Rightarrow> nat \<Rightarrow> headers" where
  "prepare_outgoing_headers hs keep_alive chunked body_size =
     (let hs1 = erase_header hs ''Connection'';
          hs2 = erase_header hs1 ''Content-Length'';
          hs3 = erase_header hs2 ''Transfer-Encoding'';
          hs4 = set_header hs3 ''Connection'' (if keep_alive then ''keep-alive'' else ''close'')
      in if chunked then set_header hs4 ''Transfer-Encoding'' ''chunked''
         else set_header hs4 ''Content-Length'' (dec_string body_size))"

definition serialize_header :: "header \<Rightarrow> string" where
  "serialize_header h = hname h @ '': '' @ hvalue h @ crlf"

definition serialize_headers :: "headers \<Rightarrow> string" where
  "serialize_headers hs = concat (map serialize_header hs)"

definition reason_table :: "(int \<times> string) list" where
  "reason_table =
     [(100, ''Continue''), (101, ''Switching Protocols''), (103, ''Early Hints''),
      (200, ''OK''), (201, ''Created''), (202, ''Accepted''), (204, ''No Content''),
      (301, ''Moved Permanently''), (302, ''Found''), (304, ''Not Modified''),
      (400, ''Bad Request''), (401, ''Unauthorized''), (403, ''Forbidden''),
      (404, ''Not Found''), (405, ''Method Not Allowed''), (408, ''Request Timeout''),
      (409, ''Conflict''), (411, ''Length Required''), (413, ''Payload Too Large''),
      (414, ''URI Too Long''), (415, ''Unsupported Media Type''),
      (417, ''Expectation Failed''), (418, ''I'' @ [CHR 0x27] @ ''m a teapot''),
      (422, ''Unprocessable Content''), (426, ''Upgrade Required''),
      (429, ''Too Many Requests''), (431, ''Request Header Fields Too Large''),
      (500, ''Internal Server Error''), (501, ''Not Implemented''), (502, ''Bad Gateway''),
      (503, ''Service Unavailable''), (504, ''Gateway Timeout'')]"

definition reason_phrase :: "int \<Rightarrow> string" where
  "reason_phrase status = (case map_of reason_table status of None \<Rightarrow> ''Unknown'' | Some r \<Rightarrow> r)"

section \<open>The map interface\<close>

locale header_map =
  fixes lookup :: "'h \<Rightarrow> string \<Rightarrow> 'v option"
    and update :: "'h \<Rightarrow> string \<Rightarrow> 'v \<Rightarrow> 'h"
    and delete :: "'h \<Rightarrow> string \<Rightarrow> 'h"
  assumes lookup_update: "lookup (update hs n v) m = (if iequals n m then Some v else lookup hs m)"
    and lookup_delete: "lookup (delete hs n) m = (if iequals n m then None else lookup hs m)"
begin

lemma lookup_update_same: "iequals n m \<Longrightarrow> lookup (update hs n v) m = Some v"
  by (simp add: lookup_update)

lemma lookup_update_last: "lookup (update (update hs n v) n w) m = lookup (update hs n w) m"
  by (simp add: lookup_update)

lemma lookup_delete_update: "lookup (delete (update hs n v) n) m = lookup (delete hs n) m"
  by (simp add: lookup_update lookup_delete)

lemma lookup_update_commute:
  "\<not> iequals n k \<Longrightarrow>
   lookup (update (update hs n v) k w) m = lookup (update (update hs k w) n v) m"
  by (auto simp: lookup_update iequals_map)

end

lemma find_header_append:
  "find_header (hs @ ks) n = (case find_header hs n of None \<Rightarrow> find_header ks n | Some v \<Rightarrow> Some v)"
  by (induction hs) auto

lemma find_header_erase:
  "find_header (erase_header hs n) m = (if iequals n m then None else find_header hs m)"
  by (induction hs) (auto simp: erase_header_def iequals_map)

interpretation hdr: header_map find_header set_header erase_header
proof unfold_locales
  fix hs n v m
  show "find_header (set_header hs n v) m = (if iequals n m then Some v else find_header hs m)"
    by (cases "find_header hs m") (simp_all add: set_header_def find_header_append find_header_erase)
next
  fix hs n m
  show "find_header (erase_header hs n) m = (if iequals n m then None else find_header hs m)"
    by (rule find_header_erase)
qed

section \<open>Headers of one name\<close>

text \<open>Every parser above looks only at the headers of one name.\<close>

definition headers_named :: "headers \<Rightarrow> string \<Rightarrow> headers" where
  "headers_named hs n = filter (\<lambda>h. iequals (hname h) n) hs"

lemma headers_named_simps [simp]:
  "headers_named [] n = []"
  "headers_named (h # hs) n = (if iequals (hname h) n then h # headers_named hs n else headers_named hs n)"
  "headers_named (hs @ ks) n = headers_named hs n @ headers_named ks n"
  by (simp_all add: headers_named_def)

lemma headers_named_erase [simp]:
  "headers_named (erase_header hs n) m = (if iequals n m then [] else headers_named hs m)"
  by (induction hs) (auto simp: erase_header_def iequals_map)

lemma headers_named_set [simp]:
  "headers_named (set_header hs n v) m = (if iequals n m then [Header n v] else headers_named hs m)"
  by (simp add: set_header_def)

lemma content_length_loop_named:
  "content_length_loop hs p = content_length_loop (headers_named hs ''Content-Length'') p"
  by (induction hs p rule: content_length_loop.induct) (auto split: option.splits)

lemma te_headers_named:
  "te_headers hs a b = te_headers (headers_named hs ''Transfer-Encoding'') a b"
  by (induction hs a b rule: te_headers.induct) (auto split: sum.splits prod.splits)

lemma header_contains_token_named:
  "header_contains_token hs n t =
     list_ex (\<lambda>h. list_ex (\<lambda>part. iequals (trim_copy part) t) (comma_parts (hvalue h)))
       (headers_named hs n)"
  by (induction hs) (auto simp: header_contains_token_def)

lemma framing_names_distinct [simp]:
  "\<not> iequals ''Connection'' ''Content-Length''" "\<not> iequals ''Content-Length'' ''Connection''"
  "\<not> iequals ''Connection'' ''Transfer-Encoding''" "\<not> iequals ''Transfer-Encoding'' ''Connection''"
  "\<not> iequals ''Content-Length'' ''Transfer-Encoding''" "\<not> iequals ''Transfer-Encoding'' ''Content-Length''"
  "\<not> iequals ''close'' ''keep-alive''" "\<not> iequals ''keep-alive'' ''close''"
  "\<not> iequals ''Connection'' ''Expect''" "\<not> iequals ''Content-Length'' ''Expect''"
  "\<not> iequals ''Transfer-Encoding'' ''Expect''"
  by (simp_all add: iequals_def)

lemma prepare_named:
  "headers_named (prepare_outgoing_headers hs ka ch n) ''Content-Length'' =
     (if ch then [] else [Header ''Content-Length'' (dec_string n)])"
  "headers_named (prepare_outgoing_headers hs ka ch n) ''Transfer-Encoding'' =
     (if ch then [Header ''Transfer-Encoding'' ''chunked''] else [])"
  "headers_named (prepare_outgoing_headers hs ka ch n) ''Connection'' =
     [Header ''Connection'' (if ka then ''keep-alive'' else ''close'')]"
  by (simp_all add: prepare_outgoing_headers_def Let_def)

lemma framing_tokens:
  "comma_parts ''chunked'' = [''chunked'']" "comma_parts ''close'' = [''close'']"
  "comma_parts ''keep-alive'' = [''keep-alive'']"
  "trim_copy ''chunked'' = ''chunked''" "trim_copy ''close'' = ''close''"
  "trim_copy ''keep-alive'' = ''keep-alive''"
  by code_simp+

section \<open>What the framing parsers accept\<close>

lemma content_length_loop_Some:
  "content_length_loop hs (Some n) = Inr r \<longleftrightarrow>
     r = Some n \<and>
     (\<forall>h \<in> set (headers_named hs ''Content-Length''). parse_whole 10 size_max (trim_copy (hvalue h)) = Some n)"
proof (induction hs)
  case (Cons h hs)
  then show ?case by (auto split: option.splits)
qed auto

lemma content_length_loop_None:
  "content_length_loop hs None = Inr (Some n) \<longleftrightarrow>
     headers_named hs ''Content-Length'' \<noteq> [] \<and>
     (\<forall>h \<in> set (headers_named hs ''Content-Length''). parse_whole 10 size_max (trim_copy (hvalue h)) = Some n)"
  "content_length_loop hs None = Inr None \<longleftrightarrow> headers_named hs ''Content-Length'' = []"
  by (induction hs) (auto simp: content_length_loop_Some split: option.splits)

definition te_token_list :: "headers \<Rightarrow> string list" where
  "te_token_list hs =
     filter (\<lambda>t. t \<noteq> [])
       (map trim_copy (concat (map (\<lambda>h. comma_parts (hvalue h)) (headers_named hs ''Transfer-Encoding''))))"

lemma te_tokens_append:
  "te_tokens (ps @ qs) a b =
     (case te_tokens ps a b of Inl e \<Rightarrow> Inl e | Inr (c, d) \<Rightarrow> te_tokens qs c d)"
  by (induction ps a b rule: te_tokens.induct) (auto simp: Let_def)

lemma te_headers_tokens:
  "te_headers hs a b =
     te_tokens (concat (map (\<lambda>h. comma_parts (hvalue h)) (headers_named hs ''Transfer-Encoding''))) a b"
  by (induction hs a b rule: te_headers.induct) (auto simp: te_tokens_append split: sum.splits)

lemma te_tokens_result:
  "te_tokens ps a b = Inr (c, d) \<longleftrightarrow>
     (let ts = filter (\<lambda>t. t \<noteq> []) (map trim_copy ps)
      in (ts = [] \<and> c = a \<and> d = b) \<or> (\<exists>t. ts = [t] \<and> iequals t ''chunked'' \<and> \<not> b \<and> c \<and> d))"
proof (induction ps arbitrary: a b)
  case (Cons p ps)
  then show ?case by (auto simp: Let_def)
qed auto

lemma parse_transfer_encoding_iff:
  "parse_transfer_encoding hs = Inr TE_Chunked \<longleftrightarrow>
     (\<exists>t. te_token_list hs = [t] \<and> iequals t ''chunked'')"
  "parse_transfer_encoding hs = Inr TE_None \<longleftrightarrow> te_token_list hs = []"
proof -
  define ps where "ps = concat (map (\<lambda>h. comma_parts (hvalue h)) (headers_named hs ''Transfer-Encoding''))"
  have ts: "te_token_list hs = filter (\<lambda>t. t \<noteq> []) (map trim_copy ps)"
    by (simp add: te_token_list_def ps_def)
  have te: "te_headers hs False False = te_tokens ps False False"
    by (simp add: te_headers_tokens ps_def)
  have R: "te_tokens ps False False = Inr (c, d) \<longleftrightarrow>
      (te_token_list hs = [] \<and> \<not> c \<and> \<not> d) \<or>
      (\<exists>t. te_token_list hs = [t] \<and> iequals t ''chunked'' \<and> c \<and> d)" for c d
    by (auto simp: te_tokens_result ts Let_def)
  show "parse_transfer_encoding hs = Inr TE_Chunked \<longleftrightarrow>
     (\<exists>t. te_token_list hs = [t] \<and> iequals t ''chunked'')"
    using R[of False False] R[of True True] R[of True False] R[of False True]
    by (auto simp: parse_transfer_encoding_def te split: sum.splits if_splits)
  show "parse_transfer_encoding hs = Inr TE_None \<longleftrightarrow> te_token_list hs = []"
    using R[of False False] R[of True True] R[of True False] R[of False True]
    by (auto simp: parse_transfer_encoding_def te split: sum.splits if_splits)
qed

section \<open>Reading back outgoing headers\<close>

lemma prepare_content_length:
  "n \<le> size_max \<Longrightarrow>
   parse_content_length (prepare_outgoing_headers hs ka ch n) = Inr (if ch then None else Some n)"
  unfolding parse_content_length_def
  using content_length_loop_named[of "prepare_outgoing_headers hs ka ch n" None]
  by (simp add: prepare_named trim_copy_id trimmed_to_base parse_whole_to_base)

lemma prepare_transfer_encoding:
  "parse_transfer_encoding (prepare_outgoing_headers hs ka ch n) = Inr (if ch then TE_Chunked else TE_None)"
  unfolding parse_transfer_encoding_def
  using te_headers_named[of "prepare_outgoing_headers hs ka ch n" False False]
  by (simp add: prepare_named framing_tokens)

lemma prepare_keep_alive: "should_keep_alive (prepare_outgoing_headers hs ka ch n) v = ka"
  by (simp add: should_keep_alive_def header_contains_token_named prepare_named framing_tokens)

lemmas prepare_read_back = prepare_content_length prepare_transfer_encoding prepare_keep_alive

section \<open>Properties\<close>

text \<open>The headers a message is sent with frame it unambiguously, whatever framing headers the
  caller supplied: the receiving parser reads back exactly the chunked flag or the body size the
  sender chose, the connection stays open exactly when the sender asked for it, and every header
  with another name keeps its value.\<close>

theorem outgoing_headers_unambiguous:
  assumes "body_size \<le> size_max"
  shows "let hs' = prepare_outgoing_headers hs keep_alive chunked body_size in
      parse_content_length hs' = Inr (if chunked then None else Some body_size) \<and>
      parse_transfer_encoding hs' = Inr (if chunked then TE_Chunked else TE_None) \<and>
      should_keep_alive hs' version_minor = keep_alive \<and>
      (\<forall>name. name \<notin> {n. iequals n ''Connection'' \<or> iequals n ''Content-Length'' \<or>
          iequals n ''Transfer-Encoding''} \<longrightarrow> find_header hs' name = find_header hs name)"
proof -
  let ?H = "prepare_outgoing_headers hs keep_alive chunked body_size"
  have "find_header ?H name = find_header hs name"
    if "name \<notin> {n. iequals n ''Connection'' \<or> iequals n ''Content-Length'' \<or> iequals n ''Transfer-Encoding''}"
    for name
    using that by (auto simp: prepare_outgoing_headers_def Let_def hdr.lookup_update hdr.lookup_delete
        dest: iequals_sym)
  then show ?thesis using assms by (simp add: Let_def prepare_read_back)
qed

theorem outgoing_headers_unambiguous_witness:
  "parse_content_length
     (prepare_outgoing_headers [Header ''content-length'' ''7'', Header ''Host'' ''a''] True False 5) =
     Inr (Some 5)"
  using outgoing_headers_unambiguous[of 5 "[Header ''content-length'' ''7'', Header ''Host'' ''a'']" True False 1]
  by (simp add: Let_def size_max_def)

text \<open>A message's Content-Length headers are accepted exactly when every one of them is the same
  number that fits a size_t; none at all means no length.\<close>

theorem content_length_accepts:
  "(parse_content_length hs = Inr (Some n) \<longleftrightarrow>
      headers_named hs ''Content-Length'' \<noteq> [] \<and>
      list_all (\<lambda>h. parse_whole 10 size_max (trim_copy (hvalue h)) = Some n)
        (headers_named hs ''Content-Length'')) \<and>
   (parse_content_length hs = Inr None \<longleftrightarrow> headers_named hs ''Content-Length'' = [])"
  by (simp add: parse_content_length_def content_length_loop_None list_all_iff)

text \<open>A message is read as chunked exactly when the tokens of all its Transfer-Encoding headers
  together are the single token chunked, and as not transfer-encoded exactly when there is no
  token; everything else is an error.\<close>

theorem transfer_encoding_accepts:
  "(parse_transfer_encoding hs = Inr TE_Chunked \<longleftrightarrow>
      (\<exists>t. te_token_list hs = [t] \<and> iequals t ''chunked'')) \<and>
   (parse_transfer_encoding hs = Inr TE_None \<longleftrightarrow> te_token_list hs = [])"
  by (simp add: parse_transfer_encoding_iff)

end
