(* ===== verification/Tcp_Stream.thy ===== *)
theory Tcp_Stream
  imports Prelude
begin

text \<open>
  The TCP stream of src/net.cpp, driven from the loop thread. libuv is a
  parameter: the record carries the read callbacks and the write outcomes it
  will deliver, in order. An entry Deadline says that, while a coroutine waits,
  the timer of with_timeout fires before the next callback; a wait without a
  timer passes over it. When the list is used up the peer has closed its side.
  libuv appends to the read buffer as soon as reading is started; the model
  delivers a callback when a reader waits for it, which no reader can tell apart.

  The locale byte_source is the contract a reader of bytes relies on: what a
  read returns is the front of what is still to come, never more than asked,
  and nothing only at the end.
\<close>

section \<open>The state and libuv's callbacks\<close>

datatype uv_event =
    UvRead string       \<comment> \<open>read_cb with nread bytes; the empty string is nread = 0\<close>
  | UvEof
  | UvReadErr uv_err
  | Deadline

text \<open>One write operation: uv_try_write's result (Inl an error, Inr the bytes it
  took), then uv_write's start code, its completion status, and whether a timer
  fires before the completion.\<close>

record uv_write_op =
  try_rc :: "uv_err + nat"
  write_rc :: "uv_err option"
  write_status :: "uv_err option"
  write_deadline :: bool

record tcp =
  uv_reads :: "uv_event list"
  uv_writes :: "uv_write_op list"
  read_buffer :: string
  tcp_eof :: bool
  read_error :: "uv_err option"
  read_started :: bool
  read_start_rc :: "uv_err option"  \<comment> \<open>what uv_read_start returns\<close>
  read_waiter :: bool
  tcp_open :: bool
  outbox :: string

definition write_would_block :: "uv_err \<Rightarrow> bool" where
  "write_would_block rc \<longleftrightarrow> rc = UV_EAGAIN \<or> rc = UV_ENOSYS"

text \<open>read_cb: the new state and whether it took the waiter.\<close>

fun read_cb :: "uv_event \<Rightarrow> tcp \<Rightarrow> tcp \<times> bool" where
  "read_cb (UvRead d) s =
     (if d = [] then (s, False)
      else (s\<lparr>read_buffer := read_buffer s @ d, read_waiter := False\<rparr>, True))"
| "read_cb UvEof s = (s\<lparr>tcp_eof := True, read_started := False, read_waiter := False\<rparr>, True)"
| "read_cb (UvReadErr e) s =
     (s\<lparr>read_error := Some e, read_started := False, read_waiter := False\<rparr>, True)"
| "read_cb Deadline s = (s, False)"

text \<open>The loop runs callbacks until the waiting reader is resumed; True: its timer fired first.\<close>

fun run_until_resumed :: "bool \<Rightarrow> uv_event list \<Rightarrow> tcp \<Rightarrow> tcp \<times> bool" where
  "run_until_resumed armed [] s = (fst (read_cb UvEof (s\<lparr>uv_reads := []\<rparr>)), False)"
| "run_until_resumed armed (ev # evs) s =
     (if ev = Deadline \<and> armed then (s\<lparr>uv_reads := evs\<rparr>, True)
      else case read_cb ev (s\<lparr>uv_reads := evs\<rparr>) of
             (s', True) \<Rightarrow> (s', False)
           | (s', False) \<Rightarrow> run_until_resumed armed evs s')"

definition start_reading_on_loop :: "tcp \<Rightarrow> uv_err option \<times> tcp" where
  "start_reading_on_loop s =
     (if \<not> tcp_open s \<or> read_started s \<or> tcp_eof s \<or> read_error s \<noteq> None then (None, s)
      else case read_start_rc s of
             Some e \<Rightarrow> (Some e, s)
           | None \<Rightarrow> (None, s\<lparr>read_started := True\<rparr>))"

text \<open>ReadAwaiter::await_resume.\<close>

definition read_resume :: "nat \<Rightarrow> tcp \<Rightarrow> string result \<times> tcp" where
  "read_resume cap s =
     (if read_buffer s \<noteq> [] then
        (let n = min cap (length (read_buffer s))
         in (Inr (take n (read_buffer s)), s\<lparr>read_buffer := drop n (read_buffer s)\<rparr>))
      else case read_error s of
             Some e \<Rightarrow> (Inl (UvError e ''uv_read''), s)
           | None \<Rightarrow> (Inr [], s))"

text \<open>ReadAwaiter::await_suspend, then await_resume.\<close>

definition read_await :: "bool \<Rightarrow> nat \<Rightarrow> tcp \<Rightarrow> string result \<times> tcp" where
  "read_await armed cap s =
     (if \<not> tcp_open s \<or> read_buffer s \<noteq> [] \<or> tcp_eof s \<or> read_error s \<noteq> None
      then read_resume cap s
      else if read_waiter s
      then (Inl (LogicError ''corouv::net::TcpStream does not support concurrent reads''), s)
      else case start_reading_on_loop (s\<lparr>read_waiter := True\<rparr>) of
             (Some e, s') \<Rightarrow>
               (Inl (UvError e ''uv_read_start''), s'\<lparr>read_waiter := False, read_error := Some e\<rparr>)
           | (None, s') \<Rightarrow>
               (case run_until_resumed armed (uv_reads s') s' of
                  (s'', True) \<Rightarrow> (Inl TimeoutError, s'')
                | (s'', False) \<Rightarrow> read_resume cap s''))"

definition read_some :: "bool \<Rightarrow> nat \<Rightarrow> tcp \<Rightarrow> string result \<times> tcp" where
  "read_some armed cap s =
     (if \<not> tcp_open s then (Inl (LogicError ''corouv::net::TcpStream is closed''), s)
      else if cap = 0 then (Inr [], s)
      else read_await armed cap s)"

definition uint_max :: nat where
  "uint_max = 2 ^ 32 - 1"

text \<open>WriteOp::start_on_loop and on_write; the caller's buffer is cut to unsigned int.\<close>

definition write_await :: "bool \<Rightarrow> string \<Rightarrow> tcp \<Rightarrow> nat result \<times> tcp" where
  "write_await armed buffer s =
     (let buf = take uint_max buffer;
          w = (case uv_writes s of
                 [] \<Rightarrow> \<lparr>try_rc = Inr (length buf), write_rc = None, write_status = None,
                        write_deadline = False\<rparr>
               | w # _ \<Rightarrow> w);
          s' = s\<lparr>uv_writes := tl (uv_writes s)\<rparr>;
          queued =
            (case write_rc w of
               Some e \<Rightarrow> (Inl (UvError e ''uv_write''), s')
             | None \<Rightarrow>
                 (let s'' = s'\<lparr>outbox := outbox s' @ buf\<rparr>
                  in if write_deadline w \<and> armed then (Inl TimeoutError, s'')
                     else case write_status w of
                            Some e \<Rightarrow> (Inl (UvError e ''uv_write''), s'')
                          | None \<Rightarrow> (Inr (length buf), s'')))
      in case try_rc w of
           Inr n \<Rightarrow>
             if n > 0 then (Inr (min n (length buf)), s'\<lparr>outbox := outbox s' @ take n buf\<rparr>) else queued
         | Inl e \<Rightarrow>
             if \<not> write_would_block e then (Inl (UvError e ''uv_write''), s') else queued)"

definition write_some :: "bool \<Rightarrow> string \<Rightarrow> tcp \<Rightarrow> nat result \<times> tcp" where
  "write_some armed buffer s =
     (if \<not> tcp_open s then (Inl (LogicError ''corouv::net::TcpStream is closed''), s)
      else if buffer = [] then (Inr 0, s)
      else write_await armed buffer s)"

function write_all :: "bool \<Rightarrow> string \<Rightarrow> tcp \<Rightarrow> unit result \<times> tcp" where
  "write_all armed buffer s =
     (if buffer = [] then (Inr (), s)
      else case write_some armed buffer s of
             (Inl e, s') \<Rightarrow> (Inl e, s')
           | (Inr chunk, s') \<Rightarrow>
               if chunk = 0 then (Inl (RuntimeError ''corouv::net::TcpStream write stalled''), s')
               else write_all armed (drop chunk buffer) s')"
  by pat_completeness auto
termination
  by (relation "measure (\<lambda>(_, buffer, _). length buffer)") auto

declare write_all.simps [simp del]

text \<open>close(): the handle stops being open and a read that finds nothing fails.\<close>

definition tcp_close :: "tcp \<Rightarrow> tcp" where
  "tcp_close s =
     (if \<not> tcp_open s then s
      else s\<lparr>tcp_open := False, read_started := False,
             read_error := (if \<not> tcp_eof s \<and> read_error s = None then Some UV_ECANCELED else read_error s),
             read_waiter := False\<rparr>)"

section \<open>What is still to come\<close>

fun reads_data :: "uv_event list \<Rightarrow> string" where
  "reads_data [] = []"
| "reads_data (UvRead d # evs) = d @ reads_data evs"
| "reads_data (Deadline # evs) = reads_data evs"
| "reads_data (UvEof # evs) = []"
| "reads_data (UvReadErr e # evs) = []"

definition incoming :: "tcp \<Rightarrow> string" where
  "incoming s = read_buffer s @ (if tcp_eof s \<or> read_error s \<noteq> None then [] else reads_data (uv_reads s))"

text \<open>A run in which libuv reports no error and no timer fires.\<close>

fun calm :: "uv_event \<Rightarrow> bool" where
  "calm (UvReadErr e) \<longleftrightarrow> False"
| "calm Deadline \<longleftrightarrow> False"
| "calm _ \<longleftrightarrow> True"

definition clean :: "tcp \<Rightarrow> bool" where
  "clean s \<longleftrightarrow> tcp_open s \<and> read_error s = None \<and> \<not> read_waiter s \<and> read_start_rc s = None \<and>
     (\<forall>ev \<in> set (uv_reads s). calm ev)"

locale byte_source =
  fixes recv :: "nat \<Rightarrow> 's \<Rightarrow> string result \<times> 's" and todo :: "'s \<Rightarrow> string"
  assumes recv_front: "recv n s = (Inr d, s') \<Longrightarrow> todo s = d @ todo s'"
    and recv_cap: "recv n s = (Inr d, s') \<Longrightarrow> length d \<le> n"
    and recv_end: "recv n s = (Inr [], s') \<Longrightarrow> 0 < n \<Longrightarrow> todo s = []"
begin

lemma recv_progress:
  "recv n s = (Inr d, s') \<Longrightarrow> d \<noteq> [] \<Longrightarrow> length (todo s') < length (todo s)"
  using recv_front by fastforce

lemma recv_conserves:
  "recv n s = (Inr d, s') \<Longrightarrow> length (todo s) = length d + length (todo s')"
  using recv_front by fastforce

end

locale clean_source = byte_source +
  fixes ok :: "'s \<Rightarrow> bool"
  assumes recv_ok: "ok s \<Longrightarrow> \<exists>d s'. recv n s = (Inr d, s') \<and> ok s'"
begin

lemma recv_some_data:
  assumes "ok s" "0 < n" "todo s \<noteq> []"
  obtains d s' where "recv n s = (Inr d, s')" "ok s'" "d \<noteq> []" "length d \<le> n" "todo s = d @ todo s'"
  using recv_ok[OF assms(1), of n] recv_front recv_cap recv_end assms by metis

end

lemma run_until_resumed_data:
  assumes "run_until_resumed armed evs s = (s', False)" "read_buffer s = []"
    "\<not> tcp_eof s" "read_error s = None"
  shows "incoming s' = reads_data evs \<and> (read_buffer s' = [] \<longrightarrow> reads_data evs = [] \<and> (tcp_eof s' \<or> read_error s' \<noteq> None))"
  using assms
proof (induction armed evs s rule: run_until_resumed.induct)
  case (1 armed s)
  then show ?case by (auto simp: incoming_def)
next
  case (2 armed ev evs s)
  show ?case
  proof (cases ev)
    case (UvRead d)
    with 2 show ?thesis by (cases "d = []") (auto simp: incoming_def)
  next
    case Deadline
    with 2 show ?thesis by (auto split: if_splits)
  qed (use 2 in \<open>auto simp: incoming_def\<close>)
qed

lemma read_resume_front:
  "read_resume cap s = (Inr d, s') \<Longrightarrow> incoming s = d @ incoming s' \<and> length d \<le> cap"
  by (auto simp: read_resume_def incoming_def Let_def min_def split: if_splits option.splits)

lemma read_resume_end:
  "read_resume cap s = (Inr [], s') \<Longrightarrow> 0 < cap \<Longrightarrow> read_buffer s = []"
  by (auto simp: read_resume_def Let_def min_def split: if_splits option.splits)

lemma start_reading_None:
  "start_reading_on_loop s = (None, s') \<Longrightarrow>
   uv_reads s' = uv_reads s \<and> read_buffer s' = read_buffer s \<and> tcp_eof s' = tcp_eof s \<and>
   read_error s' = read_error s"
  by (auto simp: start_reading_on_loop_def split: if_splits option.splits)

text \<open>A read that has to wait: what arrives is what was still to come.\<close>

lemma read_await_waits:
  assumes "read_await armed cap s = (Inr d, s')"
    and "tcp_open s" "read_buffer s = []" "\<not> tcp_eof s" "read_error s = None"
  obtains s1 where "incoming s1 = incoming s" "read_resume cap s1 = (Inr d, s')"
    "read_buffer s1 = [] \<longrightarrow> incoming s = []"
proof -
  obtain s0 s1 where s0: "start_reading_on_loop (s\<lparr>read_waiter := True\<rparr>) = (None, s0)"
    and s1: "run_until_resumed armed (uv_reads s0) s0 = (s1, False)"
    and r: "read_resume cap s1 = (Inr d, s')"
    using assms by (auto simp: read_await_def split: if_splits prod.splits bool.splits option.splits)
  have "incoming s1 = reads_data (uv_reads s) \<and> (read_buffer s1 = [] \<longrightarrow> reads_data (uv_reads s) = [])"
    using run_until_resumed_data[OF s1] start_reading_None[OF s0] assms by simp
  with r that[of s1] assms show thesis by (simp add: incoming_def)
qed

lemma read_await_front:
  assumes "read_await armed cap s = (Inr d, s')"
  shows "incoming s = d @ incoming s' \<and> length d \<le> cap"
proof (cases "\<not> tcp_open s \<or> read_buffer s \<noteq> [] \<or> tcp_eof s \<or> read_error s \<noteq> None")
  case True
  then show ?thesis using assms read_resume_front by (simp add: read_await_def)
next
  case False
  then obtain s1 where "incoming s1 = incoming s" "read_resume cap s1 = (Inr d, s')"
    using read_await_waits[OF assms] by auto
  then show ?thesis using read_resume_front by fastforce
qed

lemma read_await_end:
  assumes "read_await armed cap s = (Inr [], s')" "0 < cap" "tcp_open s"
  shows "incoming s = []"
proof (cases "read_buffer s \<noteq> [] \<or> tcp_eof s \<or> read_error s \<noteq> None")
  case True
  then have "read_resume cap s = (Inr [], s')" using assms by (auto simp: read_await_def)
  then have "read_buffer s = []" using read_resume_end assms by blast
  then show ?thesis using True by (auto simp: incoming_def)
next
  case False
  then obtain s1 where "read_resume cap s1 = (Inr [], s')" "read_buffer s1 = [] \<longrightarrow> incoming s = []"
    using read_await_waits[OF assms(1)] assms(3) by auto
  then show ?thesis using read_resume_end assms(2) by blast
qed

interpretation tcp: byte_source "read_some armed" incoming
proof unfold_locales
  fix n s d s'
  assume r: "read_some armed n s = (Inr d, s')"
  then have "incoming s = d @ incoming s' \<and> length d \<le> n"
    by (auto simp: read_some_def split: if_splits dest: read_await_front)
  then show "incoming s = d @ incoming s'" and "length d \<le> n" by auto
next
  fix n s s'
  assume "read_some armed n s = (Inr [], s')" "0 < n"
  then show "incoming s = []"
    by (auto simp: read_some_def split: if_splits dest: read_await_end)
qed

lemma run_until_resumed_clean:
  assumes "\<forall>ev \<in> set evs. calm ev" "tcp_open s" "read_error s = None" "read_start_rc s = None"
  shows "\<exists>s'. run_until_resumed armed evs s = (s', False) \<and> clean s'"
  using assms
proof (induction evs arbitrary: s)
  case (Cons ev evs)
  show ?case
  proof (cases ev)
    case (UvRead d)
    with Cons show ?thesis by (cases "d = []") (simp_all add: clean_def)
  qed (use Cons in \<open>simp_all add: clean_def\<close>)
qed (simp add: clean_def)

lemma read_resume_clean:
  "clean s \<Longrightarrow> \<exists>d s'. read_resume cap s = (Inr d, s') \<and> clean s'"
  by (auto simp: read_resume_def clean_def Let_def split: option.splits)

lemma start_reading_clean:
  assumes "clean s"
  obtains s' where "start_reading_on_loop (s\<lparr>read_waiter := True\<rparr>) = (None, s')"
    "uv_reads s' = uv_reads s" "tcp_open s'" "read_error s' = None" "read_start_rc s' = None"
  using assms that
  by (cases "read_started s \<or> tcp_eof s") (simp_all add: start_reading_on_loop_def clean_def)

lemma read_some_clean:
  assumes "clean s"
  shows "\<exists>d s'. read_some armed cap s = (Inr d, s') \<and> clean s'"
proof (cases "cap = 0 \<or> read_buffer s \<noteq> [] \<or> tcp_eof s")
  case True
  then show ?thesis
    using assms read_resume_clean by (auto simp: read_some_def read_await_def clean_def)
next
  case False
  obtain s0 where s0: "start_reading_on_loop (s\<lparr>read_waiter := True\<rparr>) = (None, s0)"
    "uv_reads s0 = uv_reads s" "tcp_open s0" "read_error s0 = None" "read_start_rc s0 = None"
    using start_reading_clean[OF assms] .
  then obtain s1 where "run_until_resumed armed (uv_reads s0) s0 = (s1, False)" and "clean s1"
    using run_until_resumed_clean[of "uv_reads s0" s0 armed] assms by (auto simp: clean_def)
  with False assms s0 read_resume_clean[of s1 cap] show ?thesis
    by (auto simp: read_some_def read_await_def clean_def)
qed

interpretation tcp_clean: clean_source "read_some armed" incoming clean
  by unfold_locales (rule read_some_clean)

text \<open>TcpStream::read_until_eof: every turn takes bytes off what is still to come.\<close>

function read_until_eof_loop :: "bool \<Rightarrow> nat \<Rightarrow> string \<Rightarrow> tcp \<Rightarrow> string result \<times> tcp" where
  "read_until_eof_loop armed max_bytes out s =
     (case read_some armed 4096 s of
        (Inl e, s') \<Rightarrow> (Inl e, s')
      | (Inr d, s') \<Rightarrow>
          if d = [] then (Inr out, s')
          else if length out + length d > max_bytes
          then (Inl (RuntimeError ''corouv::net::TcpStream read_until_eof exceeded max_bytes''), s')
          else read_until_eof_loop armed max_bytes (out @ d) s')"
  by pat_completeness auto
termination
  by (relation "measure (\<lambda>(_, _, _, s). length (incoming s))") (auto intro: tcp.recv_progress[OF sym])

declare read_until_eof_loop.simps [simp del]

definition read_until_eof :: "bool \<Rightarrow> nat \<Rightarrow> tcp \<Rightarrow> string result \<times> tcp" where
  "read_until_eof armed max_bytes s = read_until_eof_loop armed max_bytes [] s"

section \<open>What was sent\<close>

text \<open>The contract of a writer: in a run without errors it sends all of what it is given.\<close>

locale byte_sink =
  fixes send :: "string \<Rightarrow> 's \<Rightarrow> unit result \<times> 's" and sent :: "'s \<Rightarrow> string" and ok :: "'s \<Rightarrow> bool"
  assumes send_ok: "ok s \<Longrightarrow> \<exists>s'. send b s = (Inr (), s') \<and> sent s' = sent s @ b \<and> ok s'"
    and send_sound: "send b s = (Inr (), s') \<Longrightarrow> sent s' = sent s @ b"

text \<open>A run in which every write is taken, at once or later, in whole or in part.\<close>

definition good_write :: "uv_write_op \<Rightarrow> bool" where
  "good_write w \<longleftrightarrow> (case try_rc w of Inl e \<Rightarrow> write_would_block e | Inr n \<Rightarrow> True) \<and>
     write_rc w = None \<and> write_status w = None \<and> \<not> write_deadline w"

definition writable :: "tcp \<Rightarrow> bool" where
  "writable s \<longleftrightarrow> tcp_open s \<and> (\<forall>w \<in> set (uv_writes s). good_write w)"

text \<open>A write touches only the write side of the stream.\<close>

definition same_reads :: "tcp \<Rightarrow> tcp \<Rightarrow> bool" where
  "same_reads s s' \<longleftrightarrow> s' = s\<lparr>uv_writes := uv_writes s', outbox := outbox s'\<rparr>"

lemma same_reads_refl [simp]: "same_reads s s"
  by (simp add: same_reads_def)

lemma same_reads_trans: "same_reads a b \<Longrightarrow> same_reads b c \<Longrightarrow> same_reads a c"
  by (cases a, cases b, cases c) (simp add: same_reads_def)

lemma write_some_sound:
  "write_some armed b s = (Inr n, s') \<Longrightarrow> outbox s' = outbox s @ take n b \<and> n \<le> length b"
  by (auto simp: write_some_def write_await_def Let_def min_def split: if_splits sum.splits option.splits)

lemma write_some_same_reads: "write_some armed b s = (r, s') \<Longrightarrow> same_reads s s'"
  by (auto simp: write_some_def write_await_def Let_def same_reads_def
      split: if_splits sum.splits option.splits)

lemma write_some_ok:
  assumes "writable s" "b \<noteq> []"
  shows "\<exists>n s'. write_some armed b s = (Inr n, s') \<and> 0 < n \<and> writable s'"
proof (cases "uv_writes s")
  case Nil
  with assms show ?thesis
    by (auto simp: write_some_def write_await_def writable_def Let_def uint_max_def min_def)
next
  case (Cons w ws)
  have len: "0 < length (take uint_max b)" using assms(2) by (simp add: uint_max_def)
  from Cons assms have "good_write w" "tcp_open s" "\<forall>w \<in> set ws. good_write w"
    by (auto simp: writable_def)
  with Cons assms(2) len show ?thesis
    by (cases "try_rc w")
      (auto simp: write_some_def write_await_def writable_def good_write_def Let_def)
qed

lemma write_all_sound:
  "write_all armed b s = (Inr (), s') \<Longrightarrow> outbox s' = outbox s @ b"
proof (induction armed b s rule: write_all.induct)
  case (1 armed b s)
  show ?case
  proof (cases "b = []")
    case True
    with 1(2) show ?thesis by (simp add: write_all.simps)
  next
    case False
    with 1(2) obtain n s1 where w: "write_some armed b s = (Inr n, s1)" and n: "n \<noteq> 0"
      and r: "write_all armed (drop n b) s1 = (Inr (), s')"
      by (subst (asm) write_all.simps) (auto split: sum.splits prod.splits if_splits)
    from 1(1)[OF False w[symmetric] refl n r] write_some_sound[OF w] show ?thesis by simp
  qed
qed

lemma write_all_ok:
  "writable s \<Longrightarrow> \<exists>s'. write_all armed b s = (Inr (), s') \<and> writable s'"
proof (induction armed b s rule: write_all.induct)
  case (1 armed b s)
  show ?case
  proof (cases "b = []")
    case True
    with 1(2) show ?thesis by (simp add: write_all.simps)
  next
    case False
    obtain n s1 where w: "write_some armed b s = (Inr n, s1)" and n: "0 < n" "writable s1"
      using write_some_ok[OF 1(2) False, of armed] by auto
    with 1(1)[OF False w[symmetric] refl _ n(2)] False show ?thesis
      by (simp add: write_all.simps[of armed b s])
  qed
qed

lemma write_all_same_reads: "write_all armed b s = (r, s') \<Longrightarrow> same_reads s s'"
proof (induction armed b s rule: write_all.induct)
  case (1 armed b s)
  obtain q s1 where w: "write_some armed b s = (q, s1)" by fastforce
  from 1(2) show ?case
    using 1(1)[OF _ w[symmetric]] write_some_same_reads[OF w] w
    by (subst (asm) write_all.simps) (auto split: sum.splits if_splits intro: same_reads_trans)
qed

interpretation tcp_sink: byte_sink "write_all armed" outbox writable
  using write_all_ok write_all_sound by unfold_locales blast+

section \<open>Properties\<close>

lemma read_until_eof_loop_all:
  "clean s \<Longrightarrow> length out + length (incoming s) \<le> max_bytes \<Longrightarrow>
   \<exists>s'. read_until_eof_loop armed max_bytes out s = (Inr (out @ incoming s), s')"
proof (induction armed max_bytes out s rule: read_until_eof_loop.induct)
  case (1 armed max_bytes out s)
  obtain d s1 where r: "read_some armed 4096 s = (Inr d, s1)" and c: "clean s1"
    using read_some_clean[OF 1(2)] by blast
  show ?case
  proof (cases "d = []")
    case True
    with r tcp.recv_end[of armed 4096 s s1] show ?thesis
      by (simp add: read_until_eof_loop.simps[of armed max_bytes out s])
  next
    case False
    have "incoming s = d @ incoming s1" using tcp.recv_front[OF r] .
    with 1(1)[OF r[symmetric] refl False _ c] 1(3) False r show ?thesis
      by (simp add: read_until_eof_loop.simps[of armed max_bytes out s])
  qed
qed

text \<open>In a run without libuv errors and without an expiring timer, reading a TCP stream to its
  end returns exactly the bytes that arrive, however libuv cuts them into callbacks.\<close>

theorem read_until_eof_exact:
  assumes "clean s" "length (incoming s) \<le> max_bytes"
  shows "\<exists>s'. read_until_eof armed max_bytes s = (Inr (incoming s), s')"
  using read_until_eof_loop_all[of s "[]" max_bytes] assms by (simp add: read_until_eof_def)

definition sample_tcp :: "uv_event list \<Rightarrow> uv_write_op list \<Rightarrow> tcp" where
  "sample_tcp evs ws =
     \<lparr>uv_reads = evs, uv_writes = ws, read_buffer = [], tcp_eof = False, read_error = None,
      read_started = False, read_start_rc = None, read_waiter = False, tcp_open = True, outbox = []\<rparr>"

theorem read_until_eof_exact_witness:
  "\<exists>s'. read_until_eof False 10 (sample_tcp [UvRead ''ab'', UvRead [], UvRead ''c'', UvEof] []) =
     (Inr ''abc'', s')"
  using read_until_eof_exact[of "sample_tcp [UvRead ''ab'', UvRead [], UvRead ''c'', UvEof] []" 10 False]
  by (simp add: sample_tcp_def clean_def incoming_def)

text \<open>In a run in which libuv takes every write, at once or queued, in whole or in part, write_all
  returns and exactly the given bytes have been handed over, after what was sent before; the
  reading side is untouched.\<close>

theorem write_all_exact:
  assumes "writable s"
  shows "\<exists>s'. write_all armed b s = (Inr (), s') \<and> outbox s' = outbox s @ b \<and> same_reads s s'"
  using write_all_ok[OF assms, of armed b] write_all_sound write_all_same_reads by blast

theorem write_all_exact_witness:
  "\<exists>s'. write_all True ''hello''
      (sample_tcp [] [\<lparr>try_rc = Inr 2, write_rc = None, write_status = None, write_deadline = False\<rparr>,
         \<lparr>try_rc = Inl UV_EAGAIN, write_rc = None, write_status = None, write_deadline = False\<rparr>]) =
      (Inr (), s') \<and> outbox s' = ''hello''"
  using write_all_exact[of "sample_tcp [] [\<lparr>try_rc = Inr 2, write_rc = None, write_status = None,
      write_deadline = False\<rparr>, \<lparr>try_rc = Inl UV_EAGAIN, write_rc = None, write_status = None,
      write_deadline = False\<rparr>]" True "''hello''"]
  by (fastforce simp: sample_tcp_def writable_def good_write_def write_would_block_def)

lemma run_until_resumed_timeout:
  "run_until_resumed armed evs s = (s', True) \<Longrightarrow>
   read_waiter s' = read_waiter s \<and> tcp_open s' = tcp_open s \<and> read_buffer s' = read_buffer s \<and>
   tcp_eof s' = tcp_eof s \<and> read_error s' = read_error s"
proof (induction evs arbitrary: s)
  case (Cons ev evs)
  then show ?case by (cases ev) (auto split: if_splits)
qed simp

lemma read_resume_no_timeout: "fst (read_resume cap s) \<noteq> Inl TimeoutError"
  by (simp add: read_resume_def Let_def split: option.splits)

lemma read_some_timeout:
  assumes "read_some armed n s = (Inl TimeoutError, s')"
  shows "read_waiter s' \<and> tcp_open s' \<and> read_buffer s' = [] \<and> \<not> tcp_eof s' \<and> read_error s' = None"
proof -
  have ne: "read_resume n t \<noteq> (Inl TimeoutError, s')" for t
    using read_resume_no_timeout[of n t] by (metis fst_conv)
  have pre: "tcp_open s" "read_buffer s = []" "\<not> tcp_eof s" "read_error s = None"
    using assms ne by (auto simp: read_some_def read_await_def split: if_splits)
  obtain s0 where s0: "start_reading_on_loop (s\<lparr>read_waiter := True\<rparr>) = (None, s0)"
    and s1: "run_until_resumed armed (uv_reads s0) s0 = (s', True)"
    using assms pre ne
    by (auto simp: read_some_def read_await_def split: if_splits prod.splits bool.splits option.splits)
  have "read_waiter s0 \<and> tcp_open s0 \<and> read_buffer s0 = [] \<and> \<not> tcp_eof s0 \<and> read_error s0 = None"
    using s0 pre by (auto simp: start_reading_on_loop_def split: if_splits option.splits)
  with run_until_resumed_timeout[OF s1] show ?thesis by simp
qed

text \<open>A read that is given up by its timer leaves its waiter registered, so the next read of the
  stream, before any callback runs, fails as a concurrent read.\<close>

theorem read_after_timeout_fails:
  assumes "read_some True n s = (Inl TimeoutError, s')" "0 < m"
  shows "read_some armed m s' =
     (Inl (LogicError ''corouv::net::TcpStream does not support concurrent reads''), s')"
  using read_some_timeout[OF assms(1)] assms(2) by (simp add: read_some_def read_await_def)

theorem read_after_timeout_fails_witness:
  "read_some False 4 (snd (read_some True 4 (sample_tcp [Deadline, UvRead ''abc''] []))) =
     (Inl (LogicError ''corouv::net::TcpStream does not support concurrent reads''),
      snd (read_some True 4 (sample_tcp [Deadline, UvRead ''abc''] [])))"
  by (rule read_after_timeout_fails[of 4 "sample_tcp [Deadline, UvRead ''abc''] []"])
    (simp_all add: sample_tcp_def read_some_def read_await_def start_reading_on_loop_def)

end
