(* ===== verification/Http_Body.thy ===== *)
theory Http_Body
  imports Http_Headers Tcp_Stream
begin

text \<open>
  Reading and writing message bodies: the buffer cursor, the line reader, the
  fixed-length, chunked and until-close body readers and the chunked writer of
  src/http.cpp. The type-erased stream of io.h forwards every call to the TCP
  stream, so the readers act on its state directly. A reader carries the
  stream, the connection's buffer and the state of the caller's sink; the state
  is returned with an exception too.

  unread is what a reader has still to deliver: the buffered bytes, then what
  the stream will bring. The lemmas describe every reader by what it does to
  unread, so they hold for every way the network cuts the bytes.
\<close>

section \<open>The buffer cursor\<close>

record cursor =
  cur_storage :: string
  cur_offset :: nat

definition buf_size :: "cursor \<Rightarrow> nat" where
  "buf_size b = length (cur_storage b) - cur_offset b"

definition view :: "cursor \<Rightarrow> string" where
  "view b = drop (cur_offset b) (cur_storage b)"

definition buf_append :: "string \<Rightarrow> cursor \<Rightarrow> cursor" where
  "buf_append d b = b\<lparr>cur_storage := cur_storage b @ d\<rparr>"

definition compact :: "cursor \<Rightarrow> cursor" where
  "compact b =
     (if cur_offset b = 0 then b
      else if cur_offset b \<ge> length (cur_storage b) then b\<lparr>cur_storage := [], cur_offset := 0\<rparr>
      else if cur_offset b > 4096 \<and> cur_offset b * 2 \<ge> length (cur_storage b)
      then b\<lparr>cur_storage := drop (cur_offset b) (cur_storage b), cur_offset := 0\<rparr>
      else b)"

definition consume :: "nat \<Rightarrow> cursor \<Rightarrow> cursor" where
  "consume len b = compact (b\<lparr>cur_offset := sz_add (cur_offset b) len\<rparr>)"

section \<open>Readers\<close>

record Limits =
  max_header_bytes :: nat
  max_header_count :: nat
  max_body_bytes :: nat

text \<open>The timeout arguments the readers pass on: whether a duration is set, and the status and
  message of the error an expired timer becomes.\<close>

record tmo =
  t_armed :: bool
  t_status :: int
  t_message :: string

record 'k reader =
  rd_stream :: tcp
  rd_buf :: cursor
  rd_sink :: 'k

definition with_optional_timeout :: "tmo \<Rightarrow> (bool \<Rightarrow> 'a result \<times> 's) \<Rightarrow> 'a result \<times> 's" where
  "with_optional_timeout t task =
     (case task (t_armed t) of
        (Inl e, s) \<Rightarrow>
          (Inl (if t_armed t \<and> e = TimeoutError then HttpError (t_status t) (t_message t) else e), s)
      | (Inr x, s) \<Rightarrow> (Inr x, s))"

definition read_more ::
  "tmo \<Rightarrow> nat \<Rightarrow> int \<Rightarrow> string \<Rightarrow> nat \<Rightarrow> 'k reader \<Rightarrow> nat result \<times> 'k reader" where
  "read_more t max_buffered error_status message max_read r =
     (if max_read = 0 then (Inr 0, r)
      else case with_optional_timeout t (\<lambda>armed. read_some armed (min max_read 4096) (rd_stream r)) of
             (Inl e, s) \<Rightarrow> (Inl e, r\<lparr>rd_stream := s\<rparr>)
           | (Inr d, s) \<Rightarrow>
               (let r' = r\<lparr>rd_stream := s\<rparr>
                in if d = [] then (Inr 0, r')
                   else if buf_size (rd_buf r) + length d > max_buffered
                   then (Inl (HttpError error_status message), r')
                   else (Inr (length d), r'\<lparr>rd_buf := buf_append d (rd_buf r)\<rparr>)))"

definition unread :: "'k reader \<Rightarrow> string" where
  "unread r = view (rd_buf r) @ incoming (rd_stream r)"

lemma with_optional_timeout_Inr:
  "with_optional_timeout t task = (Inr x, s) \<longleftrightarrow> task (t_armed t) = (Inr x, s)"
  by (auto simp: with_optional_timeout_def split: prod.splits sum.splits)

lemma read_more_progress:
  "read_more t mb st msg mr r = (Inr n, r') \<Longrightarrow> n \<noteq> 0 \<Longrightarrow>
   length (incoming (rd_stream r')) < length (incoming (rd_stream r))"
  by (auto simp: read_more_def with_optional_timeout_Inr Let_def split: if_splits prod.splits sum.splits
      intro: tcp.recv_progress)

function ensure_buffer ::
  "tmo \<Rightarrow> nat \<Rightarrow> nat \<Rightarrow> int \<Rightarrow> string \<Rightarrow> string \<Rightarrow> 'k reader \<Rightarrow> unit result \<times> 'k reader" where
  "ensure_buffer t wanted max_buffered error_status message eof_message r =
     (if buf_size (rd_buf r) \<ge> wanted then (Inr (), r)
      else case read_more t max_buffered error_status message (wanted - buf_size (rd_buf r)) r of
             (Inl e, r') \<Rightarrow> (Inl e, r')
           | (Inr n, r') \<Rightarrow>
               if n = 0 then (Inl (HttpError 400 eof_message), r')
               else ensure_buffer t wanted max_buffered error_status message eof_message r')"
  by pat_completeness auto
termination
  by (relation "measure (\<lambda>(_, _, _, _, _, _, r). length (incoming (rd_stream r)))")
    (auto intro: read_more_progress[OF sym])

declare ensure_buffer.simps [simp del]

function read_line_crlf ::
  "tmo \<Rightarrow> nat \<Rightarrow> int \<Rightarrow> string \<Rightarrow> string \<Rightarrow> 'k reader \<Rightarrow> string result \<times> 'k reader" where
  "read_line_crlf t max_line error_status too_large_message eof_message r =
     (case find_sub crlf (view (rd_buf r)) of
        Some pos \<Rightarrow>
          (Inr (take pos (view (rd_buf r))), r\<lparr>rd_buf := consume (pos + 2) (rd_buf r)\<rparr>)
      | None \<Rightarrow>
          if buf_size (rd_buf r) \<ge> max_line then (Inl (HttpError error_status too_large_message), r)
          else case read_more t max_line error_status too_large_message (max_line - buf_size (rd_buf r)) r of
                 (Inl e, r') \<Rightarrow> (Inl e, r')
               | (Inr n, r') \<Rightarrow>
                   if n = 0 then (Inl (HttpError 400 eof_message), r')
                   else read_line_crlf t max_line error_status too_large_message eof_message r')"
  by pat_completeness auto
termination
  by (relation "measure (\<lambda>(_, _, _, _, _, r). length (incoming (rd_stream r)))")
    (auto intro: read_more_progress[OF sym])

declare read_line_crlf.simps [simp del]

text \<open>A sink: the caller's on_chunk, which may throw.\<close>

type_synonym 'k sink = "'k \<Rightarrow> string \<Rightarrow> 'k result"

function read_fixed_loop :: "tmo \<Rightarrow> 'k sink \<Rightarrow> nat \<Rightarrow> 'k reader \<Rightarrow> unit result \<times> 'k reader" where
  "read_fixed_loop t on_chunk remaining r =
     (if remaining = 0 then (Inr (), r)
      else if buf_size (rd_buf r) \<noteq> 0 then
        (let n = min remaining (buf_size (rd_buf r))
         in case on_chunk (rd_sink r) (take n (view (rd_buf r))) of
              Inl e \<Rightarrow> (Inl e, r)
            | Inr k \<Rightarrow>
                read_fixed_loop t on_chunk (remaining - n) (r\<lparr>rd_buf := consume n (rd_buf r), rd_sink := k\<rparr>))
      else case read_more t remaining 413 ''HTTP body too large'' (min remaining 4096) r of
             (Inl e, r') \<Rightarrow> (Inl e, r')
           | (Inr n, r') \<Rightarrow>
               if n = 0 then (Inl (HttpError 400 ''unexpected eof while reading HTTP body''), r')
               else read_fixed_loop t on_chunk remaining r')"
  by pat_completeness auto
termination
  by (relation "measures [\<lambda>(_, _, n, _). n, \<lambda>(_, _, _, r). length (incoming (rd_stream r))]")
    (auto intro: read_more_progress[OF sym])

declare read_fixed_loop.simps [simp del]

definition read_fixed_body_stream ::
  "tmo \<Rightarrow> Limits \<Rightarrow> 'k sink \<Rightarrow> nat \<Rightarrow> 'k reader \<Rightarrow> unit result \<times> 'k reader" where
  "read_fixed_body_stream t limits on_chunk body_size r =
     (if body_size > max_body_bytes limits then (Inl (HttpError 413 ''HTTP body too large''), r)
      else read_fixed_loop t on_chunk body_size r)"

text \<open>append_trailer, and the loop over the trailer section. want says whether the caller passed
  trailers_out; without it a line is dropped unread.\<close>

definition append_trailer :: "bool \<Rightarrow> string \<Rightarrow> headers \<Rightarrow> headers result" where
  "append_trailer want line trailers =
     (if \<not> want then Inr trailers
      else case find_char (CHR '':'') line of
             None \<Rightarrow> Inl (HttpError 400 ''invalid chunk trailer header'')
           | Some colon \<Rightarrow>
               Inr (trailers @ [Header (trim_copy (take colon line)) (trim_copy (drop (Suc colon) line))]))"

fun read_trailers ::
  "nat \<Rightarrow> tmo \<Rightarrow> Limits \<Rightarrow> bool \<Rightarrow> headers \<Rightarrow> 'k reader \<Rightarrow> headers result \<times> 'k reader" where
  "read_trailers 0 t limits want trailers r = (Inl OutOfFuel, r)"
| "read_trailers (Suc fuel) t limits want trailers r =
     (case read_line_crlf t (max_header_bytes limits) 431 ''trailer headers too large''
             ''unexpected eof while reading trailer headers'' r of
        (Inl e, r') \<Rightarrow> (Inl e, r')
      | (Inr trailer, r') \<Rightarrow>
          if trailer = [] then (Inr trailers, r')
          else case append_trailer want trailer trailers of
                 Inl e \<Rightarrow> (Inl e, r')
               | Inr trailers' \<Rightarrow>
                   if want \<and> length trailers' > max_header_count limits
                   then (Inl (HttpError 431 ''too many chunk trailer headers''), r')
                   else read_trailers fuel t limits want trailers' r')"

definition parse_chunk_size :: "string \<Rightarrow> nat option" where
  "parse_chunk_size line =
     parse_whole 16 size_max (trim_copy (head_to (find_char (CHR '';'') line) line))"

text \<open>The data and the terminator of one chunk; the additions are those of size_t.\<close>

definition read_chunk ::
  "tmo \<Rightarrow> Limits \<Rightarrow> 'k sink \<Rightarrow> nat \<Rightarrow> nat \<Rightarrow> 'k reader \<Rightarrow> nat result \<times> 'k reader" where
  "read_chunk t limits on_chunk tot chunk_size r =
     (if sz_add tot chunk_size > max_body_bytes limits then (Inl (HttpError 413 ''HTTP body too large''), r)
      else
        (let max_buffered = min (sz_add (max_body_bytes limits - tot) 2)
                                (sz_add (max_body_bytes limits) (max_header_bytes limits))
         in case ensure_buffer t (sz_add chunk_size 2) max_buffered 413 ''HTTP body too large''
                   ''unexpected eof while reading chunk data'' r of
              (Inl e, r1) \<Rightarrow> (Inl e, r1)
            | (Inr _, r1) \<Rightarrow>
                (case on_chunk (rd_sink r1) (take chunk_size (view (rd_buf r1))) of
                   Inl e \<Rightarrow> (Inl e, r1)
                 | Inr k \<Rightarrow>
                     (let r2 = r1\<lparr>rd_buf := consume chunk_size (rd_buf r1), rd_sink := k\<rparr>;
                          tail = view (rd_buf r2)
                      in if take 2 tail \<noteq> crlf then (Inl (HttpError 400 ''invalid chunk terminator''), r2)
                         else (Inr (sz_add tot chunk_size), r2\<lparr>rd_buf := consume 2 (rd_buf r2)\<rparr>)))))"

fun read_chunked_loop ::
  "nat \<Rightarrow> tmo \<Rightarrow> Limits \<Rightarrow> 'k sink \<Rightarrow> bool \<Rightarrow> nat \<Rightarrow> 'k reader \<Rightarrow> headers result \<times> 'k reader" where
  "read_chunked_loop 0 t limits on_chunk want tot r = (Inl OutOfFuel, r)"
| "read_chunked_loop (Suc fuel) t limits on_chunk want tot r =
     (case read_line_crlf t (max_header_bytes limits) 431 ''chunk header too large''
             ''unexpected eof while reading chunk header'' r of
        (Inl e, r') \<Rightarrow> (Inl e, r')
      | (Inr line, r') \<Rightarrow>
          (case parse_chunk_size line of
             None \<Rightarrow> (Inl (HttpError 400 ''invalid chunk size''), r')
           | Some chunk_size \<Rightarrow>
               if chunk_size = 0 then read_trailers fuel t limits want [] r'
               else case read_chunk t limits on_chunk tot chunk_size r' of
                      (Inl e, r'') \<Rightarrow> (Inl e, r'')
                    | (Inr tot', r'') \<Rightarrow> read_chunked_loop fuel t limits on_chunk want tot' r''))"

text \<open>Every turn of either loop takes a line off what is unread, so this fuel is enough.\<close>

definition chunk_fuel :: "'k reader \<Rightarrow> nat" where
  "chunk_fuel r = Suc (length (unread r))"

definition read_chunked_body_stream ::
  "tmo \<Rightarrow> Limits \<Rightarrow> 'k sink \<Rightarrow> bool \<Rightarrow> 'k reader \<Rightarrow> headers result \<times> 'k reader" where
  "read_chunked_body_stream t limits on_chunk want r =
     read_chunked_loop (chunk_fuel r) t limits on_chunk want 0 r"

function read_until_close_loop ::
  "tmo \<Rightarrow> Limits \<Rightarrow> 'k sink \<Rightarrow> nat \<Rightarrow> 'k reader \<Rightarrow> unit result \<times> 'k reader" where
  "read_until_close_loop t limits on_chunk tot r =
     (case with_optional_timeout t (\<lambda>armed. read_some armed 4096 (rd_stream r)) of
        (Inl e, s) \<Rightarrow> (Inl e, r\<lparr>rd_stream := s\<rparr>)
      | (Inr d, s) \<Rightarrow>
          if d = [] then (Inr (), r\<lparr>rd_stream := tcp_close s\<rparr>)
          else if tot + length d > max_body_bytes limits
          then (Inl (HttpError 413 ''HTTP body too large''), r\<lparr>rd_stream := s\<rparr>)
          else case on_chunk (rd_sink r) d of
                 Inl e \<Rightarrow> (Inl e, r\<lparr>rd_stream := s\<rparr>)
               | Inr k \<Rightarrow>
                   read_until_close_loop t limits on_chunk (tot + length d) (r\<lparr>rd_stream := s, rd_sink := k\<rparr>))"
  by pat_completeness auto
termination
  by (relation "measure (\<lambda>(_, _, _, _, r). length (incoming (rd_stream r)))")
    (auto simp: with_optional_timeout_Inr intro: tcp.recv_progress dest!: sym[of "(Inr _, _)"])

declare read_until_close_loop.simps [simp del]

definition read_until_close_body_stream ::
  "tmo \<Rightarrow> Limits \<Rightarrow> 'k sink \<Rightarrow> 'k reader \<Rightarrow> unit result \<times> 'k reader" where
  "read_until_close_body_stream t limits on_chunk r =
     (let tot = buf_size (rd_buf r)
      in if tot > max_body_bytes limits then (Inl (HttpError 413 ''HTTP body too large''), r)
         else if tot \<noteq> 0 then
           (case on_chunk (rd_sink r) (view (rd_buf r)) of
              Inl e \<Rightarrow> (Inl e, r)
            | Inr k \<Rightarrow>
                read_until_close_loop t limits on_chunk tot
                  (r\<lparr>rd_buf := consume tot (rd_buf r), rd_sink := k\<rparr>))
         else read_until_close_loop t limits on_chunk tot r)"

section \<open>Writers\<close>

definition send_all :: "tmo \<Rightarrow> string \<Rightarrow> tcp \<Rightarrow> unit result \<times> tcp" where
  "send_all t data s = with_optional_timeout t (\<lambda>armed. write_all armed data s)"

text \<open>Sending a sequence of pieces, stopping at the first failure.\<close>

primrec send_each :: "tmo \<Rightarrow> string list \<Rightarrow> tcp \<Rightarrow> unit result \<times> tcp" where
  "send_each t [] s = (Inr (), s)"
| "send_each t (d # ds) s =
     (case send_all t d s of
        (Inl e, s') \<Rightarrow> (Inl e, s')
      | (Inr _, s') \<Rightarrow> send_each t ds s')"

definition write_chunk :: "tmo \<Rightarrow> string \<Rightarrow> tcp \<Rightarrow> unit result \<times> tcp" where
  "write_chunk t chunk s =
     send_each t ([hex_string (length chunk) @ crlf] @ (if chunk \<noteq> [] then [chunk] else []) @ [crlf]) s"

text \<open>A body source: what each call of it gives until it gives no more chunk.\<close>

type_synonym body_source = "string result list"

primrec write_chunks :: "tmo \<Rightarrow> body_source \<Rightarrow> tcp \<Rightarrow> unit result \<times> tcp" where
  "write_chunks t [] s = (Inr (), s)"
| "write_chunks t (c # cs) s =
     (case c of
        Inl e \<Rightarrow> (Inl e, s)
      | Inr chunk \<Rightarrow>
          (case write_chunk t chunk s of
             (Inl e, s') \<Rightarrow> (Inl e, s')
           | (Inr _, s') \<Rightarrow> write_chunks t cs s'))"

definition write_chunked_body_stream ::
  "tmo \<Rightarrow> body_source \<Rightarrow> headers \<Rightarrow> tcp \<Rightarrow> unit result \<times> tcp" where
  "write_chunked_body_stream t source trailers s =
     (case write_chunks t source s of
        (Inl e, s') \<Rightarrow> (Inl e, s')
      | (Inr _, s') \<Rightarrow>
          send_each t ([''0'' @ crlf] @ (if trailers \<noteq> [] then [serialize_headers trailers] else []) @ [crlf]) s')"

section \<open>What the readers do to the unread bytes\<close>

text \<open>A std::string never grows past its max_size, half of the address space.\<close>

definition reader_ok :: "'k reader \<Rightarrow> bool" where
  "reader_ok r \<longleftrightarrow>
     cur_offset (rd_buf r) \<le> length (cur_storage (rd_buf r)) \<and>
     length (cur_storage (rd_buf r)) + length (incoming (rd_stream r)) < 2 ^ 63"

definition reader_clean :: "'k reader \<Rightarrow> bool" where
  "reader_clean r \<longleftrightarrow> reader_ok r \<and> clean (rd_stream r)"

lemma buf_size_view: "buf_size b = length (view b)"
  by (simp add: buf_size_def view_def)

lemma view_append: "cur_offset b \<le> length (cur_storage b) \<Longrightarrow> view (buf_append d b) = view b @ d"
  by (simp add: view_def buf_append_def)

lemma buf_append_sel [simp]:
  "cur_storage (buf_append d b) = cur_storage b @ d" "cur_offset (buf_append d b) = cur_offset b"
  by (simp_all add: buf_append_def)

lemma compact_view [simp]: "view (compact b) = view b"
  by (simp add: compact_def view_def)

lemma compact_offset: "cur_offset (compact b) \<le> length (cur_storage (compact b))"
  by (simp add: compact_def)

lemma compact_length: "length (cur_storage (compact b)) \<le> length (cur_storage b)"
  by (simp add: compact_def)

lemma view_consume:
  assumes "cur_offset b \<le> length (cur_storage b)" "length (cur_storage b) < 2 ^ 63" "n \<le> length (view b)"
  shows "view (consume n b) = drop n (view b)"
proof -
  have "cur_offset b + n < 2 ^ 64" using assms by (simp add: view_def)
  then have "view (b\<lparr>cur_offset := sz_add (cur_offset b) n\<rparr>) = drop n (view b)"
    by (simp add: view_def sz_add_exact add.commute)
  then show ?thesis by (simp add: consume_def)
qed

lemma consume_ok:
  "cur_offset (consume n b) \<le> length (cur_storage (consume n b))"
  "length (cur_storage (consume n b)) \<le> length (cur_storage b)"
  using compact_offset compact_length[of "b\<lparr>cur_offset := sz_add (cur_offset b) n\<rparr>"]
  by (simp_all add: consume_def)

lemma reader_consume:
  assumes "reader_ok r" "n \<le> length (view (rd_buf r))"
  shows "reader_ok (r\<lparr>rd_buf := consume n (rd_buf r)\<rparr>)"
    and "unread (r\<lparr>rd_buf := consume n (rd_buf r)\<rparr>) = drop n (unread r)"
  using assms consume_ok[of n "rd_buf r"] view_consume[of "rd_buf r" n]
  by (auto simp: reader_ok_def unread_def)

lemma reader_sink [simp]:
  "reader_ok (r\<lparr>rd_sink := k\<rparr>) = reader_ok r" "unread (r\<lparr>rd_sink := k\<rparr>) = unread r"
  "reader_clean (r\<lparr>rd_sink := k\<rparr>) = reader_clean r"
  by (simp_all add: reader_ok_def unread_def reader_clean_def)

lemma reader_clean_buf [simp]:
  "reader_clean (r\<lparr>rd_buf := b\<rparr>) \<longleftrightarrow> reader_ok (r\<lparr>rd_buf := b\<rparr>) \<and> clean (rd_stream r)"
  by (simp add: reader_clean_def)

text \<open>What a reader that only moves bytes from the stream to the buffer keeps.\<close>

definition refilled :: "'k reader \<Rightarrow> 'k reader \<Rightarrow> bool" where
  "refilled r r' \<longleftrightarrow> reader_ok r' \<and> unread r' = unread r \<and> rd_sink r' = rd_sink r"

lemma refilled_refl [simp]: "refilled r r \<longleftrightarrow> reader_ok r"
  by (simp add: refilled_def)

lemma refilled_trans: "refilled a b \<Longrightarrow> refilled b c \<Longrightarrow> refilled a c"
  by (simp add: refilled_def)

lemma read_more_sound:
  assumes "read_more t mb st msg mr r = (Inr n, r')" "reader_ok r"
  shows "refilled r r' \<and> buf_size (rd_buf r') = buf_size (rd_buf r) + n \<and>
     (n = 0 \<longrightarrow> mr = 0 \<or> incoming (rd_stream r) = [])"
proof (cases "mr = 0")
  case True
  with assms show ?thesis by (simp add: read_more_def)
next
  case False
  then obtain d s where d: "read_some (t_armed t) (min mr 4096) (rd_stream r) = (Inr d, s)"
    using assms(1)
    by (auto simp: read_more_def with_optional_timeout_Inr Let_def split: if_splits prod.splits sum.splits)
  then have "with_optional_timeout t (\<lambda>armed. read_some armed (min mr 4096) (rd_stream r)) = (Inr d, s)"
    by (simp add: with_optional_timeout_Inr)
  moreover have "incoming (rd_stream r) = d @ incoming s" using tcp.recv_front[OF d] .
  moreover have "d = [] \<Longrightarrow> incoming (rd_stream r) = []" using d tcp.recv_end False by fastforce
  ultimately show ?thesis using assms False
    by (auto simp: read_more_def Let_def refilled_def reader_ok_def unread_def view_append buf_size_view
        split: if_splits)
qed

lemma read_more_clean:
  assumes "reader_clean r" "buf_size (rd_buf r) + mr \<le> mb"
  shows "\<exists>n r'. read_more t mb st msg mr r = (Inr n, r') \<and> reader_clean r'"
proof (cases "mr = 0")
  case True
  with assms show ?thesis by (simp add: read_more_def)
next
  case False
  obtain d s where d: "read_some (t_armed t) (min mr 4096) (rd_stream r) = (Inr d, s)" "clean s"
    using assms(1) read_some_clean[of "rd_stream r" "t_armed t" "min mr 4096"] by (auto simp: reader_clean_def)
  then have "with_optional_timeout t (\<lambda>armed. read_some armed (min mr 4096) (rd_stream r)) = (Inr d, s)"
    by (simp add: with_optional_timeout_Inr)
  moreover have "length d \<le> mr" using tcp.recv_cap[OF d(1)] by simp
  ultimately have "\<exists>n r'. read_more t mb st msg mr r = (Inr n, r') \<and> rd_stream r' = s"
    using assms(2) False by (auto simp: read_more_def Let_def)
  then show ?thesis
    using read_more_sound assms(1) d(2) unfolding reader_clean_def refilled_def by metis
qed

lemma ensure_buffer_sound:
  "ensure_buffer t w mb st msg eof r = (Inr u, r') \<Longrightarrow> reader_ok r \<Longrightarrow>
   refilled r r' \<and> w \<le> buf_size (rd_buf r')"
proof (induction t w mb st msg eof r rule: ensure_buffer.induct)
  case (1 t w mb st msg eof r)
  show ?case
  proof (cases "buf_size (rd_buf r) \<ge> w")
    case True
    with 1 show ?thesis by (auto simp: ensure_buffer.simps)
  next
    case False
    with 1(2) obtain n r1 where m: "read_more t mb st msg (w - buf_size (rd_buf r)) r = (Inr n, r1)"
      and n: "n \<noteq> 0" and e: "ensure_buffer t w mb st msg eof r1 = (Inr u, r')"
      by (subst (asm) ensure_buffer.simps) (auto split: prod.splits sum.splits if_splits)
    have "refilled r r1" using read_more_sound[OF m 1(3)] by simp
    with 1(1)[OF False m[symmetric] refl n e] show ?thesis
      by (auto simp: refilled_def)
  qed
qed

lemma ensure_buffer_ok:
  "reader_clean r \<Longrightarrow> w \<le> length (unread r) \<Longrightarrow> w \<le> mb \<Longrightarrow>
   \<exists>r'. ensure_buffer t w mb st msg eof r = (Inr (), r') \<and> reader_clean r' \<and> refilled r r' \<and>
        w \<le> buf_size (rd_buf r')"
proof (induction t w mb st msg eof r rule: ensure_buffer.induct)
  case (1 t w mb st msg eof r)
  have ok: "reader_ok r" using 1(2) by (simp add: reader_clean_def)
  show ?case
  proof (cases "buf_size (rd_buf r) \<ge> w")
    case True
    with 1(2) ok show ?thesis by (simp add: ensure_buffer.simps)
  next
    case False
    let ?m = "w - buf_size (rd_buf r)"
    obtain n r1 where m: "read_more t mb st msg ?m r = (Inr n, r1)" and c: "reader_clean r1"
      using read_more_clean[OF 1(2), of ?m mb t st msg] False 1(4) by auto
    have s: "refilled r r1" "n = 0 \<longrightarrow> ?m = 0 \<or> incoming (rd_stream r) = []"
      using read_more_sound[OF m ok] by auto
    have n: "n \<noteq> 0" using s(2) False 1(3) by (auto simp: unread_def buf_size_view)
    obtain r' where "ensure_buffer t w mb st msg eof r1 = (Inr (), r')" "reader_clean r'"
      "refilled r1 r'" "w \<le> buf_size (rd_buf r')"
      using 1(1)[OF False m[symmetric] refl n c _ 1(4)] 1(3) s(1) by (auto simp: refilled_def)
    with m n False s(1) show ?thesis
      by (auto simp: ensure_buffer.simps[of t w mb st msg eof r] intro: refilled_trans)
  qed
qed

text \<open>The line reader takes the bytes up to the first CRLF, and the CRLF.\<close>

definition took :: "string \<Rightarrow> 'k reader \<Rightarrow> 'k reader \<Rightarrow> bool" where
  "took bs r r' \<longleftrightarrow> reader_ok r' \<and> unread r = bs @ unread r' \<and> rd_sink r' = rd_sink r"

lemma refilled_took: "refilled r r1 \<Longrightarrow> took bs r1 r' \<Longrightarrow> took bs r r'"
  by (simp add: took_def refilled_def)

lemma line_in_buffer:
  assumes "find_sub crlf (view (rd_buf r)) = Some pos" "reader_ok r"
  shows "took (take pos (view (rd_buf r)) @ crlf) r (r\<lparr>rd_buf := consume (pos + 2) (rd_buf r)\<rparr>)"
proof -
  have "pos + 2 \<le> length (view (rd_buf r))" using find_sub_length[OF assms(1)] by simp
  moreover have "view (rd_buf r) = (take pos (view (rd_buf r)) @ crlf) @ drop (pos + 2) (view (rd_buf r))"
    using find_sub_split[OF assms(1)] by simp
  ultimately show ?thesis
    using reader_consume[OF assms(2), of "pos + 2"] by (simp add: took_def unread_def)
qed

lemma read_line_sound:
  "read_line_crlf t ml st msg eof r = (Inr line, r') \<Longrightarrow> reader_ok r \<Longrightarrow> took (line @ crlf) r r'"
proof (induction t ml st msg eof r rule: read_line_crlf.induct)
  case (1 t ml st msg eof r)
  show ?case
  proof (cases "find_sub crlf (view (rd_buf r))")
    case (Some pos)
    with 1(2) line_in_buffer[OF Some 1(3)] show ?thesis
      by (subst (asm) read_line_crlf.simps) simp
  next
    case None
    with 1(2) obtain n r1 where b: "\<not> ml \<le> buf_size (rd_buf r)"
      and m: "read_more t ml st msg (ml - buf_size (rd_buf r)) r = (Inr n, r1)"
      and n: "n \<noteq> 0" and e: "read_line_crlf t ml st msg eof r1 = (Inr line, r')"
      by (subst (asm) read_line_crlf.simps) (auto split: prod.splits sum.splits if_splits)
    have s: "refilled r r1" using read_more_sound[OF m 1(3)] by simp
    have "took (line @ crlf) r1 r'"
      using 1(1)[OF None b m[symmetric] refl n e] s by (simp add: refilled_def)
    with s show ?thesis by (rule refilled_took)
  qed
qed

lemma read_line_ok:
  "reader_clean r \<Longrightarrow> find_sub crlf (unread r) = Some p \<Longrightarrow> p + 2 \<le> ml \<Longrightarrow>
   \<exists>r'. read_line_crlf t ml st msg eof r = (Inr (take p (unread r)), r') \<and> reader_clean r'"
proof (induction t ml st msg eof r rule: read_line_crlf.induct)
  case (1 t ml st msg eof r)
  have ok: "reader_ok r" and cl: "clean (rd_stream r)"
    using 1(2) by (simp_all add: reader_clean_def)
  show ?case
  proof (cases "find_sub crlf (view (rd_buf r))")
    case (Some pos)
    then have "p = pos" using 1(3) find_sub_append[OF Some] by (simp add: unread_def)
    moreover have "pos + 2 \<le> length (view (rd_buf r))" using find_sub_length[OF Some] by simp
    ultimately show ?thesis using Some reader_consume(1)[OF ok, of "pos + 2"] cl
      by (simp add: read_line_crlf.simps[of t ml st msg eof r] unread_def)
  next
    case None
    have small: "buf_size (rd_buf r) < p + 2"
    proof (rule ccontr)
      assume "\<not> buf_size (rd_buf r) < p + 2"
      then have "starts_with crlf (drop p (view (rd_buf r)))" "p \<le> length (view (rd_buf r))"
        using find_sub_Some_starts[OF 1(3)] by (auto simp: unread_def buf_size_view starts_with_take)
      with None show False by (simp add: find_sub_None)
    qed
    with 1(4) have b: "\<not> ml \<le> buf_size (rd_buf r)" by simp
    let ?m = "ml - buf_size (rd_buf r)"
    obtain n r1 where m: "read_more t ml st msg ?m r = (Inr n, r1)" and c: "reader_clean r1"
      using read_more_clean[OF 1(2), of ?m ml t st msg] b by auto
    have s: "refilled r r1" "n = 0 \<longrightarrow> ?m = 0 \<or> incoming (rd_stream r) = []"
      using read_more_sound[OF m ok] by auto
    have "p + 2 \<le> length (unread r)" using find_sub_length[OF 1(3)] by simp
    with s(2) b small have n: "n \<noteq> 0" by (auto simp: unread_def buf_size_view)
    have u: "unread r1 = unread r" using s(1) by (simp add: refilled_def)
    from 1(1)[OF None b m[symmetric] refl n c] 1(3,4) show ?thesis
      using None b m n by (simp add: u read_line_crlf.simps[of t ml st msg eof r])
  qed
qed

lemma read_line_whole:
  assumes "reader_clean r" "unread r = l @ crlf @ rest" "CR \<notin> set l" "length l + 2 \<le> ml"
  obtains r' where "read_line_crlf t ml st msg eof r = (Inr l, r')" "reader_clean r'"
    "unread r' = rest" "rd_sink r' = rd_sink r"
proof -
  have "find_sub crlf (unread r) = Some (length l)" using assms(2,3) find_sub_crlf by simp
  then obtain r' where r': "read_line_crlf t ml st msg eof r = (Inr l, r')" "reader_clean r'"
    using read_line_ok[OF assms(1) _ assms(4), of t st msg eof] assms(2) by auto
  moreover have "took (l @ crlf) r r'"
    using read_line_sound[OF r'(1)] assms(1) by (simp add: reader_clean_def)
  ultimately show thesis using that assms(2) by (simp add: took_def)
qed

section \<open>Chunked bodies\<close>

text \<open>Limits whose sums stay within size_t, and a header limit that admits any chunk-size line.\<close>

definition sane_limits :: "Limits \<Rightarrow> bool" where
  "sane_limits limits \<longleftrightarrow>
     18 \<le> max_header_bytes limits \<and> max_body_bytes limits + max_header_bytes limits + 2 < 2 ^ 64"

lemma to_base_length: "2 \<le> b \<Longrightarrow> n < b ^ Suc k \<Longrightarrow> length (to_base b n) \<le> Suc k"
proof (induction k arbitrary: n)
  case 0
  then show ?case by (simp add: to_base.simps)
next
  case (Suc k)
  have "n div b < b ^ Suc k" using Suc.prems by (simp add: less_mult_imp_div_less mult.commute)
  with Suc show ?case by (simp add: to_base.simps[of b n])
qed

lemma read_chunk_ok:
  assumes c: "reader_clean r" and u: "unread r = chunk @ crlf @ rest"
    and lim: "sane_limits limits" "tot + length chunk \<le> max_body_bytes limits"
    and k: "on_chunk (rd_sink r) chunk = Inr k"
  obtains r' where "read_chunk t limits on_chunk tot (length chunk) r = (Inr (tot + length chunk), r')"
    "reader_clean r'" "unread r' = rest" "rd_sink r' = k"
proof -
  let ?mb = "min (sz_add (max_body_bytes limits - tot) 2) (sz_add (max_body_bytes limits) (max_header_bytes limits))"
  have sz: "sz_add tot (length chunk) = tot + length chunk" "sz_add (length chunk) 2 = length chunk + 2"
    "length chunk + 2 \<le> ?mb"
    using lim by (auto simp: sane_limits_def sz_add_exact)
  obtain r1 where e: "ensure_buffer t (length chunk + 2) ?mb 413 ''HTTP body too large''
      ''unexpected eof while reading chunk data'' r = (Inr (), r1)"
    and c1: "reader_clean r1" "refilled r r1" "length chunk + 2 \<le> buf_size (rd_buf r1)"
    using ensure_buffer_ok[OF c, of "length chunk + 2" ?mb t 413 "''HTTP body too large''"
        "''unexpected eof while reading chunk data''"] u sz(3) by auto
  have ok1: "reader_ok r1" and s1: "rd_sink r1 = rd_sink r" and u1: "unread r1 = chunk @ crlf @ rest"
    using c1(2) u by (simp_all add: refilled_def)
  have len1: "length chunk + 2 \<le> length (view (rd_buf r1))" using c1(3) by (simp add: buf_size_view)
  have "take (length chunk + 2) (unread r1) = chunk @ crlf" by (simp add: u1)
  then have "take (length chunk + 2) (view (rd_buf r1)) = chunk @ crlf"
    using len1 by (simp add: unread_def)
  then obtain v where v1: "view (rd_buf r1) = chunk @ crlf @ v"
    by (metis append_assoc append_take_drop_id)
  define r2 where "r2 = r1\<lparr>rd_buf := consume (length chunk) (rd_buf r1), rd_sink := k\<rparr>"
  have ok2: "reader_ok r2" and u2: "unread r2 = crlf @ rest"
    using reader_consume[OF ok1, of "length chunk"] len1 u1 by (simp_all add: r2_def)
  have "view (rd_buf r2) = crlf @ v"
    using view_consume[of "rd_buf r1" "length chunk"] ok1 v1 by (simp add: r2_def reader_ok_def)
  then have "take 2 (view (rd_buf r2)) = crlf" "2 \<le> length (view (rd_buf r2))" by simp_all
  moreover have "take (length chunk) (view (rd_buf r1)) = chunk" using v1 by simp
  ultimately show thesis
    using that[of "r2\<lparr>rd_buf := consume 2 (rd_buf r2)\<rparr>"] reader_consume[OF ok2, of 2] u2 e k s1 sz lim c1(1)
    by (simp add: read_chunk_def Let_def r2_def reader_clean_def)
qed


text \<open>The bytes a chunk and a chunked body are on the wire.\<close>

definition chunk_wire :: "string \<Rightarrow> string" where
  "chunk_wire c = hex_string (length c) @ crlf @ c @ crlf"

definition body_wire :: "string list \<Rightarrow> headers \<Rightarrow> string" where
  "body_wire cs trailers = concat (map chunk_wire cs) @ ''0'' @ crlf @ serialize_headers trailers @ crlf"

definition good_trailer :: "Limits \<Rightarrow> header \<Rightarrow> bool" where
  "good_trailer limits h \<longleftrightarrow>
     trimmed (hname h) \<and> trimmed (hvalue h) \<and> CHR '':'' \<notin> set (hname h) \<and>
     CR \<notin> set (hname h) \<and> CR \<notin> set (hvalue h) \<and>
     length (hname h) + length (hvalue h) + 4 \<le> max_header_bytes limits"

lemma append_trailer_line:
  "good_trailer limits h \<Longrightarrow>
   append_trailer True (hname h @ '': '' @ hvalue h) acc = Inr (acc @ [h])"
  by (simp add: append_trailer_def good_trailer_def find_char_append trim_copy_id is_space_def ord_def)

lemma read_trailers_ok:
  assumes "reader_clean r" "unread r = serialize_headers trs @ crlf @ rest"
    "list_all (good_trailer limits) trs" "length acc + length trs \<le> max_header_count limits"
    "length trs < fuel" "2 \<le> max_header_bytes limits"
  shows "\<exists>r'. read_trailers fuel t limits True acc r = (Inr (acc @ trs), r') \<and> reader_clean r' \<and>
    unread r' = rest \<and> rd_sink r' = rd_sink r"
  using assms
proof (induction trs arbitrary: fuel acc r)
  case Nil
  obtain f where f: "fuel = Suc f" using Nil(5) by (cases fuel) auto
  from Nil obtain r' where "read_line_crlf t (max_header_bytes limits) 431 ''trailer headers too large''
      ''unexpected eof while reading trailer headers'' r = (Inr [], r')" "reader_clean r'"
    "unread r' = rest" "rd_sink r' = rd_sink r"
    by - (rule read_line_whole[of r "[]" rest "max_header_bytes limits"], simp_all add: serialize_headers_def)
  then show ?case by (simp add: f)
next
  case (Cons h trs)
  obtain f where f: "fuel = Suc f" "length trs < f" using Cons.prems(5) by (cases fuel) auto
  let ?line = "hname h @ '': '' @ hvalue h"
  have g: "good_trailer limits h" using Cons.prems(3) by simp
  obtain r1 where l: "read_line_crlf t (max_header_bytes limits) 431 ''trailer headers too large''
      ''unexpected eof while reading trailer headers'' r = (Inr ?line, r1)" "reader_clean r1"
    "unread r1 = serialize_headers trs @ crlf @ rest" "rd_sink r1 = rd_sink r"
    by (rule read_line_whole[of r ?line "serialize_headers trs @ crlf @ rest" "max_header_bytes limits"])
      (use Cons.prems g in \<open>auto simp: serialize_headers_def serialize_header_def good_trailer_def\<close>)
  obtain r' where "read_trailers f t limits True (acc @ [h]) r1 = (Inr ((acc @ [h]) @ trs), r')"
    "reader_clean r'" "unread r' = rest" "rd_sink r' = rd_sink r1"
    using Cons.IH[of r1 "acc @ [h]" f] Cons.prems l f by auto
  with l f g Cons.prems show ?case
    by (simp del: append_assoc append_Cons add: append_trailer_line) 
qed

text \<open>The sink's state after a sequence of chunks.\<close>

primrec feed :: "'k sink \<Rightarrow> 'k \<Rightarrow> string list \<Rightarrow> 'k result" where
  "feed on_chunk k [] = Inr k"
| "feed on_chunk k (c # cs) = (case on_chunk k c of Inl e \<Rightarrow> Inl e | Inr k' \<Rightarrow> feed on_chunk k' cs)"

lemma hex_no_char:
  "CR \<notin> set (hex_string n)" "CHR '';'' \<notin> set (hex_string n)"
  by (rule to_base_no_char; code_simp)+

lemma parse_chunk_size_hex: "n < 2 ^ 64 \<Longrightarrow> parse_chunk_size (hex_string n) = Some n"
  using hex_no_char(2)[of n]
  by (simp add: parse_chunk_size_def find_char_None[THEN iffD2] trim_copy_id trimmed_to_base
      parse_whole_to_base size_max_def)

lemma read_size_line:
  assumes "reader_clean r" "unread r = hex_string n @ crlf @ rest" "n < 2 ^ 64" "sane_limits limits"
  obtains r' where "read_line_crlf t (max_header_bytes limits) st msg eof r = (Inr (hex_string n), r')"
    "reader_clean r'" "unread r' = rest" "rd_sink r' = rd_sink r"
proof (rule read_line_whole[of r "hex_string n" rest "max_header_bytes limits" t st msg eof])
  show "length (hex_string n) + 2 \<le> max_header_bytes limits"
    using to_base_length[of 16 n 15] assms(3,4) by (simp add: sane_limits_def)
qed (use assms hex_no_char that in auto)

lemma read_chunked_loop_ok:
  assumes "reader_clean r" "unread r = body_wire cs trs @ rest" "sane_limits limits"
    "\<forall>c \<in> set cs. c \<noteq> []" "tot + sum_list (map length cs) \<le> max_body_bytes limits"
    "list_all (good_trailer limits) trs" "length trs \<le> max_header_count limits"
    "feed on_chunk (rd_sink r) cs = Inr k" "length cs + length trs + 1 < fuel"
  shows "\<exists>r'. read_chunked_loop fuel t limits on_chunk True tot r = (Inr trs, r') \<and> reader_clean r' \<and>
    unread r' = rest \<and> rd_sink r' = k"
  using assms
proof (induction cs arbitrary: fuel tot r)
  case Nil
  obtain f where f: "fuel = Suc f" "length trs < f" using Nil(9) by (cases fuel) auto
  have h0: "hex_string 0 = ''0''" by code_simp
  obtain r1 where l: "read_line_crlf t (max_header_bytes limits) 431 ''chunk header too large''
      ''unexpected eof while reading chunk header'' r = (Inr ''0'', r1)" "reader_clean r1"
    "unread r1 = serialize_headers trs @ crlf @ rest" "rd_sink r1 = rd_sink r"
    by (rule read_size_line[of r 0 "serialize_headers trs @ crlf @ rest" limits t 431
          "''chunk header too large''" "''unexpected eof while reading chunk header''"])
      (use Nil in \<open>simp_all add: body_wire_def h0\<close>)
  have "parse_chunk_size ''0'' = Some 0" using parse_chunk_size_hex[of 0] h0 by simp
  then show ?case
    using read_trailers_ok[OF l(2,3) Nil(6), of "[]" f] Nil l f by (simp add: sane_limits_def)
next
  case (Cons c cs)
  obtain f where f: "fuel = Suc f" "length cs + length trs + 1 < f"
    using Cons.prems(9) by (cases fuel) auto
  obtain k1 where k1: "on_chunk (rd_sink r) c = Inr k1" "feed on_chunk k1 cs = Inr k"
    using Cons.prems(8) by (auto split: sum.splits)
  have len: "length c < 2 ^ 64" "length c \<noteq> 0" "tot + length c \<le> max_body_bytes limits"
    using Cons.prems(3,4,5) by (auto simp: sane_limits_def)
  obtain r1 where l: "read_line_crlf t (max_header_bytes limits) 431 ''chunk header too large''
      ''unexpected eof while reading chunk header'' r = (Inr (hex_string (length c)), r1)" "reader_clean r1"
    "unread r1 = c @ crlf @ body_wire cs trs @ rest" "rd_sink r1 = rd_sink r"
    by (rule read_size_line[of r "length c" "c @ crlf @ body_wire cs trs @ rest" limits t 431
          "''chunk header too large''" "''unexpected eof while reading chunk header''"])
      (use Cons.prems len in \<open>simp_all add: body_wire_def chunk_wire_def\<close>)
  obtain r2 where r2: "read_chunk t limits on_chunk tot (length c) r1 = (Inr (tot + length c), r2)"
    "reader_clean r2" "unread r2 = body_wire cs trs @ rest" "rd_sink r2 = k1"
    by (rule read_chunk_ok[OF l(2,3) Cons.prems(3) len(3), of on_chunk k1]) (use k1 l in simp_all)
  have "\<exists>r'. read_chunked_loop f t limits on_chunk True (tot + length c) r2 = (Inr trs, r') \<and>
      reader_clean r' \<and> unread r' = rest \<and> rd_sink r' = k"
    using Cons.prems k1 f r2 by (intro Cons.IH) auto
  with l r2 f len show ?case by (simp add: parse_chunk_size_hex)
qed

lemma serialize_headers_length: "length hs \<le> length (serialize_headers hs)"
  by (induction hs) (auto simp: serialize_headers_def serialize_header_def)

lemma chunk_wires_length: "length cs \<le> length (concat (map chunk_wire cs))"
  by (induction cs) (auto simp: chunk_wire_def)

lemma body_wire_fuel:
  "unread r = body_wire cs trs @ rest \<Longrightarrow> length cs + length trs + 1 < chunk_fuel r"
  using serialize_headers_length[of trs] chunk_wires_length[of cs]
  by (simp add: chunk_fuel_def body_wire_def)

section \<open>What the writers put on the wire\<close>

interpretation http_sink: byte_sink "send_all t" outbox writable
proof unfold_locales
  fix s b assume "writable s"
  then show "\<exists>s'. send_all t b s = (Inr (), s') \<and> outbox s' = outbox s @ b \<and> writable s'"
    using tcp_sink.send_ok[of s "t_armed t" b] by (auto simp: send_all_def with_optional_timeout_Inr)
next
  fix s b s' assume "send_all t b s = (Inr (), s')"
  then show "outbox s' = outbox s @ b"
    by (auto simp: send_all_def with_optional_timeout_Inr dest: tcp_sink.send_sound)
qed

lemma send_each_sound: "send_each t ds s = (Inr u, s') \<Longrightarrow> outbox s' = outbox s @ concat ds"
  by (induction ds arbitrary: s) (auto split: sum.splits prod.splits dest: http_sink.send_sound)

lemma send_each_ok:
  "writable s \<Longrightarrow> \<exists>s'. send_each t ds s = (Inr (), s') \<and> writable s'"
proof (induction ds arbitrary: s)
  case (Cons d ds)
  obtain s1 where "send_all t d s = (Inr (), s1)" "writable s1"
    using http_sink.send_ok[OF Cons.prems] by blast
  with Cons.IH show ?case by simp
qed simp

lemma write_chunk_sound:
  "write_chunk t c s = (Inr u, s') \<Longrightarrow> outbox s' = outbox s @ chunk_wire c"
  unfolding write_chunk_def by (drule send_each_sound) (auto simp: chunk_wire_def)

lemma write_chunks_sound:
  "write_chunks t (map Inr cs) s = (Inr u, s') \<Longrightarrow> outbox s' = outbox s @ concat (map chunk_wire cs)"
  by (induction cs arbitrary: s) (auto split: sum.splits prod.splits dest: write_chunk_sound)

lemma write_chunked_sound:
  assumes "write_chunked_body_stream t (map Inr cs) trs s = (Inr u, s')"
  shows "outbox s' = outbox s @ body_wire cs trs"
proof -
  obtain v s1 where w: "write_chunks t (map Inr cs) s = (Inr v, s1)"
    and e: "send_each t ([''0'' @ crlf] @ (if trs \<noteq> [] then [serialize_headers trs] else []) @ [crlf]) s1 = (Inr u, s')"
    using assms unfolding write_chunked_body_stream_def by (auto split: prod.splits sum.splits)
  show ?thesis
    using write_chunks_sound[OF w] send_each_sound[OF e]
    by (cases trs) (simp_all add: body_wire_def serialize_headers_def)
qed

lemma write_chunks_ok:
  "writable s \<Longrightarrow> \<exists>s'. write_chunks t (map Inr cs) s = (Inr (), s') \<and> writable s'"
proof (induction cs arbitrary: s)
  case (Cons c cs)
  obtain s1 where "write_chunk t c s = (Inr (), s1)" "writable s1"
    using send_each_ok[OF Cons.prems] unfolding write_chunk_def by blast
  with Cons.IH show ?case by simp
qed simp

lemma write_chunked_ok:
  assumes "writable s"
  shows "\<exists>s'. write_chunked_body_stream t (map Inr cs) trs s = (Inr (), s') \<and> writable s'"
proof -
  obtain s1 where "write_chunks t (map Inr cs) s = (Inr (), s1)" "writable s1"
    using write_chunks_ok[OF assms] by blast
  then show ?thesis
    using send_each_ok by (simp add: write_chunked_body_stream_def del: send_each.simps)
qed

section \<open>Fuel\<close>

text \<open>No reader below the chunk loop reports exhausted fuel.\<close>

abbreviation no_fuel :: "'a result \<times> 's \<Rightarrow> bool" where
  "no_fuel res \<equiv> fst res \<noteq> Inl OutOfFuel"

lemma read_some_no_fuel: "no_fuel (read_some armed n s)"
proof -
  have r: "no_fuel (read_resume n u)" for u
    by (simp add: read_resume_def Let_def split: option.splits)
  then show ?thesis
    by (cases "start_reading_on_loop (s\<lparr>read_waiter := True\<rparr>)")
      (auto simp: read_some_def read_await_def split: prod.splits option.splits bool.splits)
qed

lemma read_more_no_fuel: "no_fuel (read_more t mb st msg mr r)"
  using read_some_no_fuel[of "t_armed t" "min mr 4096" "rd_stream r"]
  by (auto simp: read_more_def with_optional_timeout_def Let_def split: prod.splits sum.splits)

lemma ensure_buffer_no_fuel: "no_fuel (ensure_buffer t w mb st msg eof r)"
proof (induction t w mb st msg eof r rule: ensure_buffer.induct)
  case (1 t w mb st msg eof r)
  then show ?case
    using read_more_no_fuel[of t mb st msg "w - buf_size (rd_buf r)" r]
    by (subst ensure_buffer.simps) (auto split: prod.splits sum.splits)
qed

lemma read_line_no_fuel: "no_fuel (read_line_crlf t ml st msg eof r)"
proof (induction t ml st msg eof r rule: read_line_crlf.induct)
  case (1 t ml st msg eof r)
  then show ?case
    using read_more_no_fuel[of t ml st msg "ml - buf_size (rd_buf r)" r]
    by (subst read_line_crlf.simps) (auto split: prod.splits sum.splits option.splits)
qed

lemma append_trailer_no_fuel: "append_trailer want line trs \<noteq> Inl OutOfFuel"
  by (simp add: append_trailer_def split: option.splits)

lemma read_trailers_fuel:
  "reader_ok r \<Longrightarrow> length (unread r) < fuel \<Longrightarrow> no_fuel (read_trailers fuel t limits want trs r)"
proof (induction fuel arbitrary: trs r)
  case (Suc fuel)
  obtain res r1 where l: "read_line_crlf t (max_header_bytes limits) 431 ''trailer headers too large''
      ''unexpected eof while reading trailer headers'' r = (res, r1)" by fastforce
  show ?case
  proof (cases res)
    case (Inl e)
    then show ?thesis using l read_line_no_fuel[of t "max_header_bytes limits" 431
        "''trailer headers too large''" "''unexpected eof while reading trailer headers''" r] by simp
  next
    case (Inr line)
    then have "took (line @ crlf) r r1" using l read_line_sound Suc.prems by blast
    then have "reader_ok r1" "length (unread r1) < fuel" using Suc.prems by (auto simp: took_def)
    with Suc.IH l Inr append_trailer_no_fuel[of want line trs] show ?thesis
      by (auto split: sum.splits)
  qed
qed simp

lemma sz_add_back: "a < 2 ^ 63 \<Longrightarrow> c < 2 ^ 64 \<Longrightarrow> 2 ^ 64 \<le> c + 2 \<Longrightarrow> a \<le> sz_add a c + 2"
  by (cases "a + c < 2 ^ 64") (auto simp: sz_add_def le_mod_geq)

text \<open>Even a chunk size near the top of size_t, for which the cursor moves back, leaves no more
  to read than there was.\<close>

lemma consume_chunk_back:
  assumes "cur_offset b \<le> length (cur_storage b)" "length (cur_storage b) < 2 ^ 63"
    "c < 2 ^ 64" "sz_add c 2 \<le> buf_size b"
  shows "length (view (consume c b)) \<le> length (view b) + 2"
proof -
  have "cur_offset b \<le> sz_add (cur_offset b) c + 2"
  proof (cases "c + 2 < 2 ^ 64")
    case True
    then have "c + 2 \<le> length (cur_storage b) - cur_offset b"
      using assms(4) by (simp add: sz_add_exact buf_size_def)
    then show ?thesis using assms by (simp add: sz_add_exact)
  next
    case False
    then show ?thesis using assms by (intro sz_add_back) auto
  qed
  then show ?thesis using assms(1) by (simp add: consume_def) (simp add: view_def)
qed

lemma read_chunk_shrinks:
  assumes "read_chunk t limits on_chunk tot c r = (Inr tot', r')" "reader_ok r" "c < 2 ^ 64"
  shows "reader_ok r' \<and> length (unread r') \<le> length (unread r)"
proof -
  let ?mb = "min (sz_add (max_body_bytes limits - tot) 2) (sz_add (max_body_bytes limits) (max_header_bytes limits))"
  obtain u r1 k where e: "ensure_buffer t (sz_add c 2) ?mb 413 ''HTTP body too large''
      ''unexpected eof while reading chunk data'' r = (Inr u, r1)"
    and tail: "take 2 (view (consume c (rd_buf r1))) = crlf"
    and r': "r' = r1\<lparr>rd_sink := k, rd_buf := consume 2 (consume c (rd_buf r1))\<rparr>"
    using assms(1) unfolding read_chunk_def Let_def
    by (auto split: if_splits prod.splits sum.splits)
  have ok1: "refilled r r1" "sz_add c 2 \<le> buf_size (rd_buf r1)"
    using ensure_buffer_sound[OF e assms(2)] by auto
  then have ok2: "reader_ok r1" by (simp add: refilled_def)
  define r2 where "r2 = r1\<lparr>rd_sink := k, rd_buf := consume c (rd_buf r1)\<rparr>"
  have "reader_ok r2"
    using ok1 consume_ok[of c "rd_buf r1"] by (auto simp: r2_def refilled_def reader_ok_def)
  moreover have "2 \<le> length (view (rd_buf r2))"
    using arg_cong[OF tail, of length] by (simp add: r2_def)
  ultimately have "reader_ok r'" "unread r' = drop 2 (unread r2)"
    using reader_consume[of r2 2] by (simp_all add: r2_def r')
  moreover have "length (unread r2) \<le> length (unread r1) + 2"
    using consume_chunk_back[of "rd_buf r1" c] ok1(2) ok2 assms(3)
    by (simp add: r2_def unread_def reader_ok_def)
  ultimately show ?thesis using ok1(1) by (simp add: refilled_def)
qed

lemma parse_chunk_size_less: "parse_chunk_size line = Some n \<Longrightarrow> n < 2 ^ 64"
  using parse_whole_le[of 16 size_max] by (fastforce simp: parse_chunk_size_def size_max_def)

lemma read_chunk_no_fuel:
  assumes "\<And>k d. on_chunk k d \<noteq> Inl OutOfFuel"
  shows "no_fuel (read_chunk t limits on_chunk tot c r)"
  using ensure_buffer_no_fuel[of t "sz_add c 2" "min (sz_add (max_body_bytes limits - tot) 2)
      (sz_add (max_body_bytes limits) (max_header_bytes limits))" 413 "''HTTP body too large''"
      "''unexpected eof while reading chunk data''" r] assms
  by (auto simp: read_chunk_def Let_def split: prod.splits sum.splits)

lemma read_chunked_loop_fuel:
  assumes "\<And>k d. on_chunk k d \<noteq> Inl OutOfFuel"
  shows "reader_ok r \<Longrightarrow> length (unread r) < fuel \<Longrightarrow>
    no_fuel (read_chunked_loop fuel t limits on_chunk want tot r)"
proof (induction fuel arbitrary: tot r)
  case (Suc fuel)
  obtain res r1 where l: "read_line_crlf t (max_header_bytes limits) 431 ''chunk header too large''
      ''unexpected eof while reading chunk header'' r = (res, r1)" by fastforce
  show ?case
  proof (cases res)
    case (Inl e)
    then show ?thesis using l read_line_no_fuel[of t "max_header_bytes limits" 431
        "''chunk header too large''" "''unexpected eof while reading chunk header''" r] by simp
  next
    case (Inr line)
    then have "took (line @ crlf) r r1" using l read_line_sound Suc.prems by blast
    then have r1: "reader_ok r1" "length (unread r1) < fuel" using Suc.prems by (auto simp: took_def)
    show ?thesis
    proof (cases "parse_chunk_size line")
      case (Some n)
      have "n < 2 ^ 64" using Some parse_chunk_size_less by blast
      moreover have "no_fuel (read_chunk t limits on_chunk tot n r1)"
        by (rule read_chunk_no_fuel) (rule assms)
      ultimately show ?thesis
        using r1 Suc.IH l Inr Some read_trailers_fuel[OF r1, of t limits want "[]"]
        by (auto split: prod.splits sum.splits dest!: read_chunk_shrinks)
    qed (use l Inr in simp)
  qed
qed simp


section \<open>Bodies of known length\<close>

text \<open>The sink of read_request and read_response: append to the body.\<close>

definition append_body :: "string sink" where
  "append_body body chunk = Inr (body @ chunk)"

lemma read_fixed_loop_exact:
  "reader_clean r \<Longrightarrow> unread r = body @ rest \<Longrightarrow> n = length body \<Longrightarrow> on_chunk = append_body \<Longrightarrow>
   \<exists>r'. read_fixed_loop t on_chunk n r = (Inr (), r') \<and> reader_clean r' \<and>
     unread r' = rest \<and> rd_sink r' = rd_sink r @ body"
proof (induction t on_chunk n r arbitrary: body rule: read_fixed_loop.induct)
  case (1 t on_chunk n r)
  note prems = "1.prems"
  have ok: "reader_ok r" and cl: "clean (rd_stream r)"
    using prems(1) by (simp_all add: reader_clean_def)
  consider (empty) "n = 0" | (buffered) "n \<noteq> 0" "buf_size (rd_buf r) \<noteq> 0"
    | (read) "n \<noteq> 0" "buf_size (rd_buf r) = 0" by blast
  then show ?case
  proof cases
    case empty
    then show ?thesis using prems by (simp add: read_fixed_loop.simps)
  next
    case buffered
    define m where "m = min n (buf_size (rd_buf r))"
    let ?r = "r\<lparr>rd_buf := consume m (rd_buf r), rd_sink := rd_sink r @ take m body\<rparr>"
    have "take m (unread r) = take m (view (rd_buf r))" by (simp add: unread_def buf_size_view m_def)
    moreover have "take m (unread r) = take m body" using prems by (simp add: m_def)
    ultimately have v: "on_chunk (rd_sink r) (take m (view (rd_buf r))) = Inr (rd_sink r @ take m body)"
      using prems by (simp add: append_body_def)
    have u: "reader_clean ?r" "unread ?r = drop m body @ rest"
      using reader_consume[OF ok, of m] cl prems by (simp_all add: m_def buf_size_view reader_clean_def)
    have "\<exists>r'. read_fixed_loop t on_chunk (n - m) ?r = (Inr (), r') \<and> reader_clean r' \<and>
       unread r' = rest \<and> rd_sink r' = rd_sink ?r @ drop m body"
      by (rule "1.IH"(1)[OF _ _ m_def v u]) (use buffered prems in \<open>simp_all add: m_def\<close>)
    then show ?thesis
      using buffered v by (simp add: read_fixed_loop.simps[of t on_chunk n r] Let_def m_def[symmetric])
  next
    case read
    obtain d r1 where m: "read_more t n 413 ''HTTP body too large'' (min n 4096) r = (Inr d, r1)"
      and c: "reader_clean r1"
      using read_more_clean[OF prems(1), of "min n 4096" n t 413 "''HTTP body too large''"] read by auto
    have s: "refilled r r1" "d = 0 \<longrightarrow> min n 4096 = 0 \<or> incoming (rd_stream r) = []"
      using read_more_sound[OF m ok] by auto
    have d: "d \<noteq> 0" using s(2) read prems by (auto simp: unread_def buf_size_view min_def split: if_splits)
    have "\<exists>r'. read_fixed_loop t on_chunk n r1 = (Inr (), r') \<and> reader_clean r' \<and>
       unread r' = rest \<and> rd_sink r' = rd_sink r1 @ body"
      by (rule "1.IH"(2)[OF _ _ m[symmetric] refl d c]) (use read prems s in \<open>simp_all add: refilled_def\<close>)
    then show ?thesis
      using read m d s(1) by (simp add: read_fixed_loop.simps[of t on_chunk n r] refilled_def)
  qed
qed


section \<open>Properties\<close>

text \<open>A reader over a fresh connection that will receive the given callbacks.\<close>

definition sample_reader :: "uv_event list \<Rightarrow> 'k \<Rightarrow> 'k reader" where
  "sample_reader evs k =
     \<lparr>rd_stream = sample_tcp evs [], rd_buf = \<lparr>cur_storage = [], cur_offset = 0\<rparr>, rd_sink = k\<rparr>"

definition no_tmo :: tmo where
  "no_tmo = \<lparr>t_armed = False, t_status = 408, t_message = ''http read timeout''\<rparr>"

text \<open>C9: What write_chunked_body_stream sends for non-empty chunks and well-formed trailers,
  read_chunked_body_stream reads back, for every way the network cuts the bytes: the sink sees
  exactly the chunks in order, the trailers are returned, and the bytes after the body are left
  unread.\<close>

theorem chunked_roundtrip:
  assumes sent: "write_chunked_body_stream tw (map Inr cs) trs s = (Inr (), s')" "outbox s = []"
    and recv: "reader_clean r" "unread r = outbox s' @ rest"
    and wf: "list_all (\<lambda>c. c \<noteq> []) cs" "list_all (good_trailer limits) trs"
    and lim: "sane_limits limits" "sum_list (map length cs) \<le> max_body_bytes limits"
      "length trs \<le> max_header_count limits"
    and sink: "feed on_chunk (rd_sink r) cs = Inr k"
  shows "\<exists>r'. read_chunked_body_stream t limits on_chunk True r = (Inr trs, r') \<and>
      unread r' = rest \<and> rd_sink r' = k"
proof -
  have u: "unread r = body_wire cs trs @ rest"
    using write_chunked_sound[OF sent(1)] sent(2) recv(2) by simp
  show ?thesis
    using read_chunked_loop_ok[OF recv(1) u lim(1) _ _ wf(2) lim(3) sink body_wire_fuel[OF u], of 0] wf(1) lim(2)
    by (auto simp: read_chunked_body_stream_def list_all_iff)
qed

theorem chunked_roundtrip_witness:
  "\<exists>s' r'.
     write_chunked_body_stream no_tmo (map Inr [''hello'', '' world'']) [Header ''X'' ''1''] (sample_tcp [] []) =
       (Inr (), s') \<and>
     read_chunked_body_stream no_tmo \<lparr>max_header_bytes = 100, max_header_count = 5, max_body_bytes = 50\<rparr>
       append_body True (sample_reader [UvRead (take 7 (outbox s')), UvRead (drop 7 (outbox s') @ ''GET'')] []) =
       (Inr [Header ''X'' ''1''], r') \<and>
     unread r' = ''GET'' \<and> rd_sink r' = ''hello world''"
proof -
  let ?L = "\<lparr>max_header_bytes = 100, max_header_count = 5, max_body_bytes = 50\<rparr>"
  obtain s' where w: "write_chunked_body_stream no_tmo (map Inr [''hello'', '' world'']) [Header ''X'' ''1'']
      (sample_tcp [] []) = (Inr (), s')"
    using write_chunked_ok[of "sample_tcp [] []" no_tmo "[''hello'', '' world'']" "[Header ''X'' ''1'']"]
    by (auto simp: writable_def sample_tcp_def)
  let ?r = "sample_reader [UvRead (take 7 (outbox s')), UvRead (drop 7 (outbox s') @ ''GET'')] [] :: string reader"
  have "outbox s' = body_wire [''hello'', '' world''] [Header ''X'' ''1'']"
    using write_chunked_sound[OF w] by (simp add: sample_tcp_def)
  moreover have "length (body_wire [''hello'', '' world''] [Header ''X'' ''1'']) = 32" by code_simp
  ultimately have "length (outbox s') = 32" by simp
  then have "reader_clean ?r" "unread ?r = outbox s' @ ''GET''"
    by (simp_all add: sample_reader_def sample_tcp_def no_tmo_def reader_clean_def reader_ok_def clean_def
        unread_def view_def incoming_def append_assoc[symmetric] del: append_assoc)
  moreover have "outbox (sample_tcp [] []) = []" "sane_limits ?L"
    "list_all (\<lambda>c. c \<noteq> []) [''hello'', '' world'']" "list_all (good_trailer ?L) [Header ''X'' ''1'']"
    "sum_list (map length [''hello'', '' world'']) \<le> max_body_bytes ?L"
    "length [Header ''X'' ''1''] \<le> max_header_count ?L"
    "feed append_body (rd_sink ?r) [''hello'', '' world''] = Inr ''hello world''"
    by (simp_all add: sample_tcp_def sane_limits_def sample_reader_def append_body_def good_trailer_def
        trimmed_def is_space_def ord_def)
  ultimately show ?thesis
    using w chunked_roundtrip[OF w, where r = ?r and t = no_tmo and limits = ?L and on_chunk = append_body
        and rest = "''GET''" and k = "''hello world''"]
    by blast
qed

text \<open>A body of announced length is delivered exactly: the request body grows by the announced
  number of bytes, and the bytes after it are left unread.\<close>

theorem fixed_body_exact:
  assumes "reader_clean r" "unread r = body @ rest" "length body \<le> max_body_bytes limits"
  shows "\<exists>r'. read_fixed_body_stream t limits append_body (length body) r = (Inr (), r') \<and>
      unread r' = rest \<and> rd_sink r' = rd_sink r @ body"
  using read_fixed_loop_exact[OF assms(1,2) refl refl] assms(3) by (auto simp: read_fixed_body_stream_def)

theorem fixed_body_exact_witness:
  "\<exists>r'. read_fixed_body_stream no_tmo \<lparr>max_header_bytes = 10, max_header_count = 5, max_body_bytes = 5\<rparr> append_body
      (length ''hello'') (sample_reader [UvRead ''he'', UvRead ''llo more''] []) = (Inr (), r') \<and>
     unread r' = '' more'' \<and> rd_sink r' = ''hello''"
  using fixed_body_exact[of "sample_reader [UvRead ''he'', UvRead ''llo more''] []" "''hello''" "'' more''"
      "\<lparr>max_header_bytes = 10, max_header_count = 5, max_body_bytes = 5\<rparr>" no_tmo]
  by (simp add: sample_reader_def sample_tcp_def no_tmo_def reader_clean_def reader_ok_def clean_def unread_def
      view_def incoming_def)

text \<open>C31: Reading a chunked body always ends, whatever the peer sends and whatever the chunk sizes are:
  the loop never needs more turns than there are bytes to read.\<close>

theorem chunked_read_ends:
  assumes "reader_ok r" and "\<And>k d. on_chunk k d \<noteq> Inl OutOfFuel"
  shows "fst (read_chunked_body_stream t limits on_chunk want r) \<noteq> Inl OutOfFuel"
  using read_chunked_loop_fuel[of on_chunk r "chunk_fuel r"] assms
  by (simp add: read_chunked_body_stream_def chunk_fuel_def)

theorem chunked_read_ends_witness:
  "fst (read_chunked_body_stream no_tmo \<lparr>max_header_bytes = 10, max_header_count = 5, max_body_bytes = 5\<rparr> append_body True
      (sample_reader [UvRead ''ffffffff''] [])) \<noteq> Inl OutOfFuel"
  by (rule chunked_read_ends)
    (simp_all add: sample_reader_def sample_tcp_def reader_ok_def incoming_def append_body_def)

text \<open>An empty chunk from a body source ends the body early: the reader stops at it and leaves all
  that follows, the remaining chunks and the real end of the body, to be read as the next message.\<close>

theorem empty_chunk_ends_body:
  assumes sent: "write_chunked_body_stream tw (map Inr ([] # cs)) trs s = (Inr (), s')" "outbox s = []"
    and recv: "reader_clean r" "unread r = outbox s' @ rest"
    and lim: "sane_limits limits"
  shows "\<exists>r'. read_chunked_body_stream t limits on_chunk True r = (Inr [], r') \<and>
      unread r' = body_wire cs trs @ rest \<and> rd_sink r' = rd_sink r"
proof -
  have "hex_string 0 = ''0''" by code_simp
  then have u: "unread r = body_wire [] [] @ body_wire cs trs @ rest"
    using write_chunked_sound[OF sent(1)] sent(2) recv(2)
    by (simp add: body_wire_def chunk_wire_def serialize_headers_def)
  show ?thesis
    using read_chunked_loop_ok[OF recv(1) u lim, of 0 on_chunk "rd_sink r" "chunk_fuel r"] body_wire_fuel[OF u]
    by (auto simp: read_chunked_body_stream_def)
qed

theorem empty_chunk_ends_body_witness:
  "\<exists>s' r'.
     write_chunked_body_stream no_tmo (map Inr [[], ''ab'']) [] (sample_tcp [] []) = (Inr (), s') \<and>
     read_chunked_body_stream no_tmo \<lparr>max_header_bytes = 100, max_header_count = 5, max_body_bytes = 50\<rparr>
       append_body True (sample_reader [UvRead (outbox s')] []) = (Inr [], r') \<and>
     unread r' = body_wire [''ab''] [] \<and> rd_sink r' = []"
proof -
  let ?L = "\<lparr>max_header_bytes = 100, max_header_count = 5, max_body_bytes = 50\<rparr>"
  obtain s' where w: "write_chunked_body_stream no_tmo (map Inr [[], ''ab'']) [] (sample_tcp [] []) = (Inr (), s')"
    using write_chunked_ok[of "sample_tcp [] []" no_tmo "[[], ''ab'']" "[]"]
    by (auto simp: writable_def sample_tcp_def)
  let ?r = "sample_reader [UvRead (outbox s')] [] :: string reader"
  have "outbox s' = body_wire [[], ''ab''] []"
    using write_chunked_sound[OF w] by (simp add: sample_tcp_def)
  moreover have "length (body_wire [[], ''ab''] []) = 17" by code_simp
  ultimately have "length (outbox s') = 17" by simp
  then have "reader_clean ?r" "unread ?r = outbox s' @ []"
    by (simp_all add: sample_reader_def sample_tcp_def no_tmo_def reader_clean_def reader_ok_def clean_def
        unread_def view_def incoming_def)
  moreover have "outbox (sample_tcp [] []) = []" "sane_limits ?L" "rd_sink ?r = []"
    by (simp_all add: sample_tcp_def sane_limits_def sample_reader_def)
  ultimately show ?thesis
    using w empty_chunk_ends_body[OF w, where r = ?r and t = no_tmo and limits = ?L and on_chunk = append_body
        and rest = "[]"]
    by fastforce
qed

text \<open>C40: The body limit of a chunked message can be exceeded. The additions of the limit check wrap
  around, so a chunk that announces 2^64 - 2 bytes after two or more body bytes passes it: the sink
  is given all that is buffered, nothing is consumed, and the running total falls by two.\<close>

theorem chunked_limit_exceeded:
  assumes "reader_ok r" "2 \<le> tot" "tot \<le> max_body_bytes limits" "max_body_bytes limits < 2 ^ 64"
    and line: "2 \<le> cur_offset (rd_buf r)"
      "take 2 (drop (cur_offset (rd_buf r) - 2) (cur_storage (rd_buf r))) = crlf"
    and sink: "on_chunk (rd_sink r) (view (rd_buf r)) = Inr k"
  shows "\<exists>r'. read_chunk t limits on_chunk tot (2 ^ 64 - 2) r = (Inr (tot - 2), r') \<and>
      unread r' = unread r \<and> rd_sink r' = k"
proof -
  let ?b = "rd_buf r" and ?c = "2 ^ 64 - 2 :: nat"
  have sz: "sz_add tot ?c = tot - 2" "sz_add ?c 2 = 0"
    using assms(2,3,4) by (auto simp: sz_add_def le_mod_geq)
  have ok: "cur_offset ?b \<le> length (cur_storage ?b)" "length (cur_storage ?b) < 2 ^ 63"
    using assms(1) by (auto simp: reader_ok_def)
  have rew: "view (consume ?c ?b) = crlf @ view ?b"
  proof -
    have "sz_add (cur_offset ?b) ?c = cur_offset ?b - 2"
      using ok line(1) by (simp add: sz_add_def le_mod_geq)
    then have "view (consume ?c ?b) = drop (cur_offset ?b - 2) (cur_storage ?b)"
      by (simp add: consume_def) (simp add: view_def)
    also have "\<dots> = crlf @ drop 2 (drop (cur_offset ?b - 2) (cur_storage ?b))"
      using line(2) by (metis append_take_drop_id)
    also have "drop 2 (drop (cur_offset ?b - 2) (cur_storage ?b)) = view ?b"
      using line(1) by (simp add: view_def del: add_2_eq_Suc)
    finally show ?thesis .
  qed
  define r2 where "r2 = r\<lparr>rd_buf := consume ?c ?b, rd_sink := k\<rparr>"
  have "reader_ok r2"
    using assms(1) consume_ok[of ?c ?b] by (auto simp: r2_def reader_ok_def)
  then have u: "unread (r2\<lparr>rd_buf := consume 2 (rd_buf r2)\<rparr>) = unread r"
    using reader_consume(2)[of r2 2] rew by (simp add: r2_def) (simp add: unread_def)
  have "take ?c (view ?b) = view ?b" using ok by (simp add: view_def)
  then show ?thesis
    using sz sink assms(3) rew u by (simp add: read_chunk_def Let_def ensure_buffer.simps r2_def)
qed

theorem chunked_limit_exceeded_witness:
  "\<exists>r'. read_chunk no_tmo \<lparr>max_header_bytes = 64, max_header_count = 5, max_body_bytes = 4\<rparr> append_body 4 (2 ^ 64 - 2)
      \<lparr>rd_stream = sample_tcp [] [], rd_buf = \<lparr>cur_storage = ''fffffffffffffffe'' @ crlf @ ''abcdefgh'', cur_offset = 18\<rparr>,
       rd_sink = ''1234''\<rparr> = (Inr 2, r') \<and> unread r' = ''abcdefgh'' \<and> rd_sink r' = ''1234abcdefgh''"
  using chunked_limit_exceeded[of "\<lparr>rd_stream = sample_tcp [] [],
      rd_buf = \<lparr>cur_storage = ''fffffffffffffffe'' @ crlf @ ''abcdefgh'', cur_offset = 18\<rparr>, rd_sink = ''1234''\<rparr>"
      4 "\<lparr>max_header_bytes = 64, max_header_count = 5, max_body_bytes = 4\<rparr>" append_body "''1234abcdefgh''" no_tmo]
  by (simp add: reader_ok_def sample_tcp_def incoming_def unread_def view_def append_body_def)

lemma ensure_buffer_within:
  "ensure_buffer t w mb st msg eof r = (Inr u, r') \<Longrightarrow> buf_size (rd_buf r) < w \<Longrightarrow> reader_ok r \<Longrightarrow> w \<le> mb"
proof (induction t w mb st msg eof r rule: ensure_buffer.induct)
  case (1 t w mb st msg eof r)
  then obtain n r1 where m: "read_more t mb st msg (w - buf_size (rd_buf r)) r = (Inr n, r1)"
    and n: "n \<noteq> 0" and e: "ensure_buffer t w mb st msg eof r1 = (Inr u, r')"
    by (subst (asm) ensure_buffer.simps) (auto split: prod.splits sum.splits if_splits)
  have "buf_size (rd_buf r1) \<le> mb"
    using m n 1(4) read_more_sound[OF m 1(4)]
    by (auto simp: read_more_def Let_def split: if_splits prod.splits sum.splits)
  with 1(1)[OF _ m[symmetric] refl n e] 1(3,4) read_more_sound[OF m 1(4)] show ?case
    by (cases "buf_size (rd_buf r1) < w") (auto simp: refilled_def)
qed

text \<open>With max_body_bytes at its largest value the buffering limit of a chunk wraps to one byte, so
  the first chunk of a body is never read unless it is already buffered in full.\<close>

theorem unlimited_chunked_refused:
  assumes "reader_ok r" "max_body_bytes limits = size_max" "0 < n" "n + 2 < 2 ^ 64"
    "buf_size (rd_buf r) < n + 2"
  shows "\<nexists>tot'. fst (read_chunk t limits on_chunk 0 n r) = Inr tot'"
proof
  assume "\<exists>tot'. fst (read_chunk t limits on_chunk 0 n r) = Inr tot'"
  then obtain mb u r1 where "ensure_buffer t (sz_add n 2) mb 413 ''HTTP body too large''
      ''unexpected eof while reading chunk data'' r = (Inr u, r1)" and mb: "mb \<le> sz_add size_max 2"
    using assms(2) unfolding read_chunk_def Let_def
    by (auto split: if_splits prod.splits sum.splits)
  then have "n + 2 \<le> mb"
    using ensure_buffer_within assms by (fastforce simp: sz_add_exact)
  with mb assms(3) show False by (simp add: sz_add_def size_max_def)
qed

theorem unlimited_chunked_refused_witness:
  "\<nexists>tot'. fst (read_chunk no_tmo \<lparr>max_header_bytes = 64, max_header_count = 5, max_body_bytes = size_max\<rparr>
      append_body 0 2 (sample_reader [UvRead (''ab'' @ crlf)] [])) = Inr tot'"
  by (rule unlimited_chunked_refused)
    (simp_all add: sample_reader_def sample_tcp_def reader_ok_def incoming_def buf_size_def)

end
