(* ===== verification/Http_Url.thy ===== *)
theory Http_Url
  imports Prelude
begin

text \<open>
  parse_url and format_host_header of src/http.cpp, and to_string of an
  endpoint from src/net.cpp. A port is a nat below 2^16.
\<close>

record Url =
  u_scheme :: string
  u_host :: string
  u_port :: nat
  u_target :: string

record Endpoint =
  ep_host :: string
  ep_port :: nat

definition endpoint_to_string :: "Endpoint \<Rightarrow> string" where
  "endpoint_to_string ep =
     (if find_char (CHR '':'') (ep_host ep) \<noteq> None
      then ''['' @ ep_host ep @ '']:'' @ dec_string (ep_port ep)
      else ep_host ep @ '':'' @ dec_string (ep_port ep))"

definition format_host_header :: "string \<Rightarrow> nat \<Rightarrow> string" where
  "format_host_header host port =
     (let bracket = find_char (CHR '':'') host \<noteq> None
      in if port = 80 then (if bracket then ''['' @ host @ '']'' else host)
         else endpoint_to_string \<lparr>ep_host = host, ep_port = port\<rparr>)"

abbreviation url_error :: "string \<Rightarrow> exn" where
  "url_error m \<equiv> InvalidArgument (''corouv::http::parse_url '' @ m)"

text \<open>from_chars into an unsigned int, then the bound of 65535.\<close>

definition url_port :: "string \<Rightarrow> nat result" where
  "url_port port_text =
     (case parse_whole 10 (2 ^ 32 - 1) port_text of
        None \<Rightarrow> Inl (url_error ''invalid port'')
      | Some p \<Rightarrow> if p > 65535 then Inl (url_error ''invalid port'') else Inr p)"

definition url_authority :: "string \<Rightarrow> (string \<times> nat option) result" where
  "url_authority authority =
     (if hd authority = CHR ''['' then
        (case find_char (CHR '']'') authority of
           None \<Rightarrow> Inl (url_error ''invalid IPv6 host'')
         | Some close \<Rightarrow>
             (let host = take (close - 1) (drop 1 authority)
              in if close + 1 < length authority then
                   (if authority ! (close + 1) \<noteq> CHR '':'' then Inl (url_error ''invalid authority'')
                    else map_result (\<lambda>p. (host, Some p)) (url_port (drop (close + 2) authority)))
                 else Inr (host, None)))
      else
        (case rfind_char (CHR '':'') authority of
           None \<Rightarrow> Inr (authority, None)
         | Some colon \<Rightarrow>
             if find_char (CHR '':'') authority = Some colon
             then map_result (\<lambda>p. (take colon authority, Some p)) (url_port (drop (Suc colon) authority))
             else Inr (authority, None)))"

definition url_target :: "string \<Rightarrow> string" where
  "url_target remainder =
     (if remainder = [] then ''/''
      else if hd remainder = CHR ''#'' then ''/''
      else let without_fragment = head_to (find_char (CHR ''#'') remainder) remainder
           in if hd without_fragment = CHR ''?'' then ''/'' @ without_fragment else without_fragment)"

definition url_after_scheme :: "string \<Rightarrow> nat \<Rightarrow> string \<Rightarrow> Url result" where
  "url_after_scheme scheme port remainder =
     (let authority_end = find_first_of ''/?#'' remainder;
          authority = head_to authority_end remainder;
          rest = (case authority_end of None \<Rightarrow> [] | Some i \<Rightarrow> drop i remainder)
      in if authority = [] then Inl (url_error ''missing host'')
         else case url_authority authority of
                Inl e \<Rightarrow> Inl e
              | Inr (host, p) \<Rightarrow>
                  if host = [] then Inl (url_error ''missing host'')
                  else Inr \<lparr>u_scheme = scheme, u_host = host,
                            u_port = (case p of None \<Rightarrow> port | Some q \<Rightarrow> q),
                            u_target = url_target rest\<rparr>)"

definition parse_url :: "string \<Rightarrow> Url result" where
  "parse_url url =
     (if starts_with ''http://'' url then url_after_scheme ''http'' 80 (drop 7 url)
      else if starts_with ''https://'' url then url_after_scheme ''https'' 443 (drop 8 url)
      else Inl (url_error ''only supports http:// and https://''))"

section \<open>What a parsed URL looks like\<close>

lemma url_port_bound: "url_port s = Inr p \<Longrightarrow> p \<le> 65535"
  by (auto simp: url_port_def split: option.splits if_splits)

lemma url_authority_port: "url_authority a = Inr (h, Some p) \<Longrightarrow> p \<le> 65535"
  by (auto simp: url_authority_def Let_def map_result_eq_Inr dest: url_port_bound
      split: if_splits option.splits)

lemma find_first_of_append:
  "(\<And>x. x \<in> set a \<Longrightarrow> x \<notin> set cs) \<Longrightarrow> b = [] \<or> hd b \<in> set cs \<Longrightarrow>
   find_first_of cs (a @ b) = (if b = [] then None else Some (length a))"
proof (induction a)
  case Nil
  then show ?case by (cases b) auto
qed auto

text \<open>An address is written the way parse_url reads it: a name without separators, or bracketed.\<close>

lemma url_port_dec: "p \<le> 65535 \<Longrightarrow> url_port (dec_string p) = Inr p"
  by (simp add: url_port_def parse_whole_to_base)

lemma colon_not_dec: "CHR '':'' \<notin> set (dec_string p)" "CHR '']'' \<notin> set (dec_string p)"
  by (rule to_base_no_char; code_simp)+

lemma rfind_char_append: "c \<notin> set b \<Longrightarrow> rfind_char c (a @ c # b) = Some (length a)"
  by (simp add: rfind_char_def find_char_append[of c "rev b" "rev a", simplified])

lemma url_authority_endpoint:
  assumes "host \<noteq> []" "CHR ''['' \<notin> set host" "CHR '']'' \<notin> set host" "p \<le> 65535"
  shows "url_authority (endpoint_to_string \<lparr>ep_host = host, ep_port = p\<rparr>) = Inr (host, Some p)"
proof (cases "CHR '':'' \<in> set host")
  case True
  then have e: "endpoint_to_string \<lparr>ep_host = host, ep_port = p\<rparr> = ''['' @ host @ '']:'' @ dec_string p"
    using find_char_None[of "CHR '':''" host] by (simp add: endpoint_to_string_def)
  have "find_char (CHR '']'') ((CHR ''['' # host) @ CHR '']'' # CHR '':'' # dec_string p) = Some (length (CHR ''['' # host))"
    using assms(3) by (intro find_char_append) simp
  then show ?thesis using e assms by (simp add: url_authority_def url_port_dec nth_append)
next
  case False
  then have e: "endpoint_to_string \<lparr>ep_host = host, ep_port = p\<rparr> = host @ CHR '':'' # dec_string p"
    using find_char_None[of "CHR '':''" host] by (simp add: endpoint_to_string_def)
  have "hd host \<noteq> CHR ''[''" using assms(1,2) by (cases host) auto
  then show ?thesis using e assms False colon_not_dec(1)[of p]
    by (simp add: url_authority_def url_port_dec find_char_append rfind_char_append)
qed

lemma find_first_of_Some: "find_first_of cs s = Some i \<Longrightarrow> i < length s \<and> s ! i \<in> set cs"
  by (induction s arbitrary: i) (auto split: if_splits)

lemma url_target_slash:
  assumes "s = [] \<or> hd s \<in> set ''/?#''"
  shows "\<exists>r. url_target s = CHR ''/'' # r"
proof (cases "s = [] \<or> hd s = CHR ''#''")
  case True
  then show ?thesis by (auto simp: url_target_def)
next
  case False
  then obtain c t where s: "s = c # t" "c \<noteq> CHR ''#''" by (cases s) auto
  then have "\<exists>u. head_to (find_char (CHR ''#'') s) s = c # u" by (cases "find_char (CHR ''#'') t") auto
  with s assms show ?thesis by (auto simp: url_target_def Let_def)
qed

lemma url_after_scheme_wf:
  assumes "url_after_scheme sc dp s = Inr u" "dp \<le> 65535"
  shows "u_scheme u = sc \<and> u_host u \<noteq> [] \<and> u_port u \<le> 65535 \<and> (\<exists>r. u_target u = CHR ''/'' # r)"
proof -
  define rest where "rest = (case find_first_of ''/?#'' s of None \<Rightarrow> [] | Some i \<Rightarrow> drop i s)"
  have "rest = [] \<or> hd rest \<in> set ''/?#''"
    using find_first_of_Some[of "''/?#''" s] by (auto simp: rest_def hd_drop_conv_nth split: option.splits)
  then have "\<exists>r. url_target rest = CHR ''/'' # r" by (rule url_target_slash)
  with assms show ?thesis
    by (auto simp: url_after_scheme_def Let_def rest_def[symmetric] dest: url_authority_port
        split: if_splits sum.splits prod.splits option.splits)
qed

section \<open>Properties\<close>

text \<open>A URL written from its parts is parsed back into them: any host name or IPv6 address without
  the characters that delimit it, any port, any target that starts with a slash and has no
  fragment.\<close>

theorem parse_url_roundtrip:
  assumes host: "host \<noteq> []" "set host \<inter> set ''/?#[]'' = {}" and port: "p \<le> 65535"
    and target: "t \<noteq> []" "hd t = CHR ''/''" "CHR ''#'' \<notin> set t"
  shows "parse_url (''http://'' @ endpoint_to_string \<lparr>ep_host = host, ep_port = p\<rparr> @ t) =
      Inr \<lparr>u_scheme = ''http'', u_host = host, u_port = p, u_target = t\<rparr>"
proof -
  let ?a = "endpoint_to_string \<lparr>ep_host = host, ep_port = p\<rparr>"
  have dec: "x \<notin> set (dec_string p)" if "x \<in> set ''/?#''" for x
    using that by (intro to_base_no_char) (auto simp: base_digit_def digit_value_def char_simps)
  have "x \<notin> set ''/?#''" if "x \<in> set ?a" for x
    using that host(2) dec[of x] by (auto simp: endpoint_to_string_def split: if_splits)
  then have f: "find_first_of ''/?#'' (?a @ t) = Some (length ?a)"
    using find_first_of_append[of ?a "''/?#''" t] target by auto
  have "?a \<noteq> []" by (simp add: endpoint_to_string_def)
  moreover have "url_authority ?a = Inr (host, Some p)"
    using host port by (intro url_authority_endpoint) auto
  moreover have "url_target t = t"
    using target by (simp add: url_target_def find_char_None[THEN iffD2] Let_def)
  ultimately show ?thesis
    using host(1) f by (simp add: parse_url_def url_after_scheme_def Let_def)
qed

theorem parse_url_roundtrip_witness:
  "parse_url (''http://'' @ endpoint_to_string \<lparr>ep_host = ''::1'', ep_port = 8080\<rparr> @ ''/a?b'') =
     Inr \<lparr>u_scheme = ''http'', u_host = ''::1'', u_port = 8080, u_target = ''/a?b''\<rparr>"
  by (rule parse_url_roundtrip) simp_all

text \<open>Every URL that is accepted has a non-empty host, a port that fits 16 bits and a target that
  starts with a slash, so it can be sent in a request line.\<close>

theorem parse_url_wf:
  assumes "parse_url s = Inr u"
  shows "u_scheme u \<in> {''http'', ''https''} \<and> u_host u \<noteq> [] \<and> u_port u \<le> 65535 \<and>
     (\<exists>r. u_target u = CHR ''/'' # r)"
  using assms url_after_scheme_wf[of "''http''" 80 _ u] url_after_scheme_wf[of "''https''" 443 _ u]
  by (auto simp: parse_url_def split: if_splits)

theorem parse_url_wf_witness:
  "u_port \<lparr>u_scheme = ''https'', u_host = ''h'', u_port = 443, u_target = ''/?q''\<rparr> \<le> 65535"
  using parse_url_wf[of "''https://h?q#f''" "\<lparr>u_scheme = ''https'', u_host = ''h'', u_port = 443, u_target = ''/?q''\<rparr>"]
  by (simp add: parse_url_def url_after_scheme_def url_authority_def url_target_def rfind_char_def Let_def)

end
