(* ===== verification/Http_Connection.thy ===== *)
theory Http_Connection
  imports Http_Body Http_Url
begin

text \<open>
  Connection, Server::handle_client, Client and fetch of src/http.cpp over the
  body readers and writers. picohttpparser is a parameter: a function from the
  buffered bytes, the size of the header array and last_len to the return code
  (the bytes consumed, -1 for a malformed head, -2 for an incomplete one) and
  the fields it fills in. So are the request handler and net::connect.
\<close>

section \<open>Messages and connections\<close>

record Request =
  rq_method :: string
  rq_target :: string
  rq_headers :: headers
  rq_body :: string
  rq_trailers :: headers
  rq_version_minor :: int
  rq_keep_alive :: bool
  rq_chunked :: bool

record Response =
  rs_status :: int
  rs_reason :: string
  rs_headers :: headers
  rs_body :: string
  rs_trailers :: headers
  rs_version_minor :: int
  rs_keep_alive :: bool
  rs_chunked :: bool

definition default_response :: Response where
  "default_response =
     \<lparr>rs_status = 200, rs_reason = [], rs_headers = [], rs_body = [], rs_trailers = [],
      rs_version_minor = 1, rs_keep_alive = True, rs_chunked = False\<rparr>"

text \<open>Which of the three durations are set.\<close>

record IoTimeouts =
  to_read_headers :: bool
  to_read_body :: bool
  to_write :: bool

record conn =
  cn_stream :: tcp
  cn_limits :: Limits
  cn_timeouts :: IoTimeouts
  cn_buf :: cursor
  cn_prefetched :: "Response option"

definition Connection :: "tcp \<Rightarrow> Limits \<Rightarrow> IoTimeouts \<Rightarrow> conn" where
  "Connection s limits timeouts =
     \<lparr>cn_stream = s, cn_limits = limits, cn_timeouts = timeouts,
      cn_buf = \<lparr>cur_storage = [], cur_offset = 0\<rparr>, cn_prefetched = None\<rparr>"

definition conn_is_open :: "conn \<Rightarrow> bool" where
  "conn_is_open c = tcp_open (cn_stream c)"

definition conn_close :: "conn \<Rightarrow> conn" where
  "conn_close c = c\<lparr>cn_stream := tcp_close (cn_stream c)\<rparr>"

text \<open>The connection as a reader with a sink, and back.\<close>

definition conn_reader :: "conn \<Rightarrow> 'k \<Rightarrow> 'k reader" where
  "conn_reader c k = \<lparr>rd_stream = cn_stream c, rd_buf = cn_buf c, rd_sink = k\<rparr>"

definition conn_after :: "conn \<Rightarrow> 'k reader \<Rightarrow> conn" where
  "conn_after c r = c\<lparr>cn_stream := rd_stream r, cn_buf := rd_buf r\<rparr>"

section \<open>Reading a request\<close>

record phr_request =
  pr_method :: string
  pr_path :: string
  pr_minor_version :: int
  pr_headers :: "phr_header list"

type_synonym request_parser = "string \<Rightarrow> nat \<Rightarrow> nat \<Rightarrow> int \<times> phr_request"

text \<open>The loop up to the point where the head is parsed; None is the end of the stream before a
  first byte.\<close>

function read_request_head ::
  "request_parser \<Rightarrow> Limits \<Rightarrow> tmo \<Rightarrow> nat \<Rightarrow> 'k reader \<Rightarrow> (nat \<times> phr_request) option result \<times> 'k reader" where
  "read_request_head parse limits t last_len r =
     (let v = view (rd_buf r);
          (parsed, pr) = parse v (max_header_count limits) last_len
      in if v \<noteq> [] \<and> parsed > 0 then (Inr (Some (nat parsed, pr)), r)
         else if v \<noteq> [] \<and> parsed = -1 then (Inl (HttpError 400 ''invalid HTTP request''), r)
         else if buf_size (rd_buf r) \<ge> max_header_bytes limits
         then (Inl (HttpError 431 ''request headers too large''), r)
         else case read_more t (max_header_bytes limits) 431 ''request headers too large''
                     (max_header_bytes limits - buf_size (rd_buf r)) r of
                (Inl e, r') \<Rightarrow> (Inl e, r')
              | (Inr n, r') \<Rightarrow>
                  if n = 0 then
                    (if buf_size (rd_buf r') = 0 then (Inr None, r')
                     else (Inl (HttpError 400 ''unexpected eof while reading request''), r'))
                  else read_request_head parse limits t (buf_size (rd_buf r)) r')"
  by pat_completeness auto
termination
  by (relation "measure (\<lambda>(_, _, _, _, r). length (incoming (rd_stream r)))")
    (auto intro: read_more_progress[OF sym])

declare read_request_head.simps [simp del]

text \<open>The request built from a parsed head, with its Content-Length.\<close>

definition request_of_head :: "phr_request \<Rightarrow> (Request \<times> nat option) result" where
  "request_of_head pr =
     (let hs = copy_headers (pr_headers pr)
      in case parse_transfer_encoding hs of
           Inl (InvalidArgument m) \<Rightarrow> Inl (HttpError 400 m)
         | Inl e \<Rightarrow> Inl e
         | Inr te \<Rightarrow>
             (case parse_content_length hs of
                Inl e \<Rightarrow> Inl e
              | Inr content_length \<Rightarrow>
                  if te = TE_Chunked \<and> content_length \<noteq> None
                  then Inl (HttpError 400 ''invalid HTTP request: both Transfer-Encoding and Content-Length'')
                  else Inr (\<lparr>rq_method = pr_method pr, rq_target = pr_path pr, rq_headers = hs, rq_body = [],
                             rq_trailers = [], rq_version_minor = pr_minor_version pr,
                             rq_keep_alive = should_keep_alive hs (pr_minor_version pr),
                             rq_chunked = (te = TE_Chunked)\<rparr>, content_length)))"

definition continue_line :: string where
  "continue_line = ''HTTP/1.1 100 Continue'' @ crlf @ crlf"

text \<open>What follows a parsed head: Expect, then the body.\<close>

definition read_request_body ::
  "Limits \<Rightarrow> IoTimeouts \<Rightarrow> 'k sink \<Rightarrow> Request \<Rightarrow> nat option \<Rightarrow> 'k reader \<Rightarrow> Request option result \<times> 'k reader" where
  "read_request_body limits timeouts on_chunk request content_length r =
     (let has_request_body = rq_chunked request \<or> (case content_length of None \<Rightarrow> False | Some n \<Rightarrow> n > 0);
          expect = parse_expect (rq_headers request);
          tw = \<lparr>t_armed = to_write timeouts, t_status = 504, t_message = ''continue write timeout''\<rparr>;
          tb = \<lparr>t_armed = to_read_body timeouts, t_status = 408, t_message = ''request body read timeout''\<rparr>
      in if expect = Expect_Unsupported then (Inl (HttpError 417 ''unsupported Expect header''), r)
         else case (if expect = Expect_Continue100 \<and> has_request_body
                    then send_all tw continue_line (rd_stream r) else (Inr (), rd_stream r)) of
                (Inl e, s) \<Rightarrow> (Inl e, r\<lparr>rd_stream := s\<rparr>)
              | (Inr _, s) \<Rightarrow>
                  if rq_chunked request then
                    (case read_chunked_body_stream tb limits on_chunk True (r\<lparr>rd_stream := s\<rparr>) of
                       (Inl e, r') \<Rightarrow> (Inl e, r')
                     | (Inr trailers, r') \<Rightarrow> (Inr (Some (request\<lparr>rq_trailers := trailers\<rparr>)), r'))
                  else case content_length of
                         None \<Rightarrow> (Inr (Some request), r\<lparr>rd_stream := s\<rparr>)
                       | Some n \<Rightarrow>
                           (case read_fixed_body_stream tb limits on_chunk n (r\<lparr>rd_stream := s\<rparr>) of
                              (Inl e, r') \<Rightarrow> (Inl e, r')
                            | (Inr _, r') \<Rightarrow> (Inr (Some request), r')))"

definition read_request_stream ::
  "request_parser \<Rightarrow> Limits \<Rightarrow> IoTimeouts \<Rightarrow> 'k sink \<Rightarrow> 'k reader \<Rightarrow> Request option result \<times> 'k reader" where
  "read_request_stream parse limits timeouts on_chunk r =
     (case read_request_head parse limits
             \<lparr>t_armed = to_read_headers timeouts, t_status = 408, t_message = ''request header read timeout''\<rparr> 0 r of
        (Inl e, r') \<Rightarrow> (Inl e, r')
      | (Inr None, r') \<Rightarrow> (Inr None, r')
      | (Inr (Some (parsed, pr)), r') \<Rightarrow>
          (case request_of_head pr of
             Inl e \<Rightarrow> (Inl e, r')
           | Inr (request, content_length) \<Rightarrow>
               read_request_body limits timeouts on_chunk request content_length
                 (r'\<lparr>rd_buf := consume parsed (rd_buf r')\<rparr>)))"

definition read_request :: "request_parser \<Rightarrow> conn \<Rightarrow> Request option result \<times> conn" where
  "read_request parse c =
     (case read_request_stream parse (cn_limits c) (cn_timeouts c) append_body (conn_reader c []) of
        (res, r) \<Rightarrow>
          (map_result (map_option (\<lambda>request. request\<lparr>rq_body := rd_sink r\<rparr>)) res, conn_after c r))"

section \<open>Reading a response\<close>

record phr_response =
  ps_minor_version :: int
  ps_status :: int
  ps_msg :: string
  ps_headers :: "phr_header list"

type_synonym response_parser = "string \<Rightarrow> nat \<Rightarrow> nat \<Rightarrow> int \<times> phr_response"

function read_response_head ::
  "response_parser \<Rightarrow> Limits \<Rightarrow> tmo \<Rightarrow> nat \<Rightarrow> 'k reader \<Rightarrow> (nat \<times> phr_response) result \<times> 'k reader" where
  "read_response_head parse limits t last_len r =
     (let v = view (rd_buf r);
          (parsed, ps) = parse v (max_header_count limits) last_len
      in if v \<noteq> [] \<and> parsed > 0 then (Inr (nat parsed, ps), r)
         else if v \<noteq> [] \<and> parsed = -1 then (Inl (HttpError 502 ''invalid HTTP response''), r)
         else if buf_size (rd_buf r) \<ge> max_header_bytes limits
         then (Inl (HttpError 502 ''response headers too large''), r)
         else case read_more t (max_header_bytes limits) 502 ''response headers too large''
                     (max_header_bytes limits - buf_size (rd_buf r)) r of
                (Inl e, r') \<Rightarrow> (Inl e, r')
              | (Inr n, r') \<Rightarrow>
                  if n = 0 then (Inl (HttpError 502 ''unexpected eof while reading response''), r')
                  else read_response_head parse limits t (buf_size (rd_buf r)) r')"
  by pat_completeness auto
termination
  by (relation "measure (\<lambda>(_, _, _, _, r). length (incoming (rd_stream r)))")
    (auto intro: read_more_progress[OF sym])

declare read_response_head.simps [simp del]

definition response_of_head :: "phr_response \<Rightarrow> (Response \<times> nat option) result" where
  "response_of_head ps =
     (let hs = copy_headers (ps_headers ps)
      in case parse_transfer_encoding hs of
           Inl (InvalidArgument m) \<Rightarrow> Inl (HttpError 502 m)
         | Inl e \<Rightarrow> Inl e
         | Inr te \<Rightarrow>
             (case parse_content_length hs of
                Inl (HttpError _ _) \<Rightarrow> Inl (HttpError 502 ''invalid response Content-Length'')
              | Inl e \<Rightarrow> Inl e
              | Inr content_length \<Rightarrow>
                  if te = TE_Chunked \<and> content_length \<noteq> None
                  then Inl (HttpError 502 ''invalid HTTP response: both Transfer-Encoding and Content-Length'')
                  else Inr (\<lparr>rs_status = ps_status ps, rs_reason = ps_msg ps, rs_headers = hs, rs_body = [],
                             rs_trailers = [], rs_version_minor = ps_minor_version ps,
                             rs_keep_alive = should_keep_alive hs (ps_minor_version ps),
                             rs_chunked = (te = TE_Chunked)\<rparr>, content_length)))"

definition informational :: "int \<Rightarrow> bool" where
  "informational status \<longleftrightarrow> status \<ge> 100 \<and> status < 200 \<and> status \<noteq> 101"

definition ignore_sink :: "'k sink" where
  "ignore_sink k chunk = Inr k"

definition response_tmo :: "IoTimeouts \<Rightarrow> tmo" where
  "response_tmo timeouts =
     \<lparr>t_armed = to_read_body timeouts, t_status = 504, t_message = ''response body read timeout''\<rparr>"

text \<open>The body of an interim response is read and dropped.\<close>

definition skip_body :: "Limits \<Rightarrow> IoTimeouts \<Rightarrow> Response \<Rightarrow> nat option \<Rightarrow> 'k reader \<Rightarrow> unit result \<times> 'k reader" where
  "skip_body limits timeouts response content_length r =
     (if rs_chunked response then
        (case read_chunked_body_stream (response_tmo timeouts) limits ignore_sink False r of
           (Inl e, r') \<Rightarrow> (Inl e, r')
         | (Inr _, r') \<Rightarrow> (Inr (), r'))
      else case content_length of
             None \<Rightarrow> (Inr (), r)
           | Some n \<Rightarrow> read_fixed_body_stream (response_tmo timeouts) limits ignore_sink n r)"

definition read_response_body ::
  "Limits \<Rightarrow> IoTimeouts \<Rightarrow> string \<Rightarrow> 'k sink \<Rightarrow> Response \<Rightarrow> nat option \<Rightarrow> 'k reader \<Rightarrow> Response result \<times> 'k reader" where
  "read_response_body limits timeouts request_method on_chunk response content_length r =
     (if \<not> response_has_body (rs_status response) request_method then (Inr response, r)
      else if rs_chunked response then
        (case read_chunked_body_stream (response_tmo timeouts) limits on_chunk True r of
           (Inl e, r') \<Rightarrow> (Inl e, r')
         | (Inr trailers, r') \<Rightarrow> (Inr (response\<lparr>rs_trailers := trailers\<rparr>), r'))
      else case content_length of
             Some n \<Rightarrow>
               (case read_fixed_body_stream (response_tmo timeouts) limits on_chunk n r of
                  (Inl e, r') \<Rightarrow> (Inl e, r')
                | (Inr _, r') \<Rightarrow> (Inr response, r'))
           | None \<Rightarrow>
               if \<not> rs_keep_alive response then
                 (case read_until_close_body_stream (response_tmo timeouts) limits on_chunk r of
                    (Inl e, r') \<Rightarrow> (Inl e, r')
                  | (Inr _, r') \<Rightarrow> (Inr response, r'))
               else (Inr response, r))"

text \<open>One turn per interim response; fuel counts them.\<close>

fun read_response_stream_impl ::
  "nat \<Rightarrow> response_parser \<Rightarrow> Limits \<Rightarrow> IoTimeouts \<Rightarrow> string \<Rightarrow> 'k sink \<Rightarrow> bool \<Rightarrow> 'k reader \<Rightarrow>
     Response result \<times> 'k reader" where
  "read_response_stream_impl 0 parse limits timeouts request_method on_chunk skip_informational r = (Inl OutOfFuel, r)"
| "read_response_stream_impl (Suc fuel) parse limits timeouts request_method on_chunk skip_informational r =
     (case read_response_head parse limits
             \<lparr>t_armed = to_read_headers timeouts, t_status = 504, t_message = ''response header read timeout''\<rparr> 0 r of
        (Inl e, r') \<Rightarrow> (Inl e, r')
      | (Inr (parsed, ps), r') \<Rightarrow>
          (case response_of_head ps of
             Inl e \<Rightarrow> (Inl e, r')
           | Inr (response, content_length) \<Rightarrow>
               (let r1 = r'\<lparr>rd_buf := consume parsed (rd_buf r')\<rparr>
                in if informational (rs_status response) then
                     (case skip_body limits timeouts response content_length r1 of
                        (Inl e, r2) \<Rightarrow> (Inl e, r2)
                      | (Inr _, r2) \<Rightarrow>
                          if skip_informational
                          then read_response_stream_impl fuel parse limits timeouts request_method on_chunk
                                 skip_informational r2
                          else (Inr response, r2))
                   else read_response_body limits timeouts request_method on_chunk response content_length r1)))"

definition response_fuel :: "conn \<Rightarrow> nat" where
  "response_fuel c = Suc (length (view (cn_buf c)) + length (incoming (cn_stream c)))"

definition read_response_buffered ::
  "response_parser \<Rightarrow> string \<Rightarrow> bool \<Rightarrow> conn \<Rightarrow> Response result \<times> conn" where
  "read_response_buffered parse request_method skip_informational c =
     (case read_response_stream_impl (response_fuel c) parse (cn_limits c) (cn_timeouts c) request_method
             append_body skip_informational (conn_reader c []) of
        (res, r) \<Rightarrow> (map_result (\<lambda>response. response\<lparr>rs_body := rd_sink r\<rparr>) res, conn_after c r))"

definition read_response :: "response_parser \<Rightarrow> string \<Rightarrow> conn \<Rightarrow> Response result \<times> conn" where
  "read_response parse request_method c =
     (case cn_prefetched c of
        Some response \<Rightarrow> (Inr response, c\<lparr>cn_prefetched := None\<rparr>)
      | None \<Rightarrow> read_response_buffered parse request_method True c)"

definition read_response_stream ::
  "response_parser \<Rightarrow> string \<Rightarrow> 'k sink \<Rightarrow> 'k \<Rightarrow> conn \<Rightarrow> Response result \<times> 'k \<times> conn" where
  "read_response_stream parse request_method on_chunk k c =
     (case cn_prefetched c of
        Some response \<Rightarrow>
          (let c' = c\<lparr>cn_prefetched := None\<rparr>
           in if rs_body response \<noteq> [] then
                (case on_chunk k (rs_body response) of
                   Inl e \<Rightarrow> (Inl e, k, c')
                 | Inr k' \<Rightarrow> (Inr (response\<lparr>rs_body := []\<rparr>), k', c'))
              else (Inr response, k, c'))
      | None \<Rightarrow>
          (case read_response_stream_impl (response_fuel c) parse (cn_limits c) (cn_timeouts c) request_method
                  on_chunk True (conn_reader c k) of
             (res, r) \<Rightarrow> (res, rd_sink r, conn_after c r)))"

section \<open>Writing\<close>

definition version_error :: exn where
  "version_error = LogicError ''corouv::http::Connection only supports HTTP/1.x''"

definition bad_version :: "int \<Rightarrow> bool" where
  "bad_version v \<longleftrightarrow> v < 0 \<or> v > 1"

definition request_head :: "Request \<Rightarrow> string" where
  "request_head rq =
     rq_method rq @ '' '' @ rq_target rq @ '' HTTP/1.'' @ int_string (rq_version_minor rq) @ crlf @
     serialize_headers (rq_headers rq) @ crlf"

definition response_head :: "Response \<Rightarrow> string" where
  "response_head rs =
     ''HTTP/1.'' @ int_string (rs_version_minor rs) @ '' '' @ int_string (rs_status rs) @ '' '' @
     rs_reason rs @ crlf @ serialize_headers (rs_headers rs) @ crlf"

text \<open>The copy of the request that is sent: target, Host and framing headers filled in.\<close>

definition outgoing_request :: "Request \<Rightarrow> string \<Rightarrow> bool \<Rightarrow> string \<Rightarrow> Request" where
  "outgoing_request rq default_host chunked body =
     (let hs = (if default_host \<noteq> [] \<and> find_header (rq_headers rq) ''Host'' = None
                then set_header (rq_headers rq) ''Host'' default_host else rq_headers rq)
      in rq\<lparr>rq_target := (if rq_target rq = [] then ''/'' else rq_target rq),
            rq_chunked := chunked, rq_body := body,
            rq_headers := prepare_outgoing_headers hs (rq_keep_alive rq) chunked (length body)\<rparr>)"

definition outgoing_response :: "Response \<Rightarrow> bool \<Rightarrow> string \<Rightarrow> Response" where
  "outgoing_response rs chunked body =
     rs\<lparr>rs_reason := (if rs_reason rs = [] then reason_phrase (rs_status rs) else rs_reason rs),
        rs_chunked := chunked, rs_body := body,
        rs_headers := prepare_outgoing_headers (rs_headers rs) (rs_keep_alive rs) chunked (length body)\<rparr>"

definition write_tmo :: "IoTimeouts \<Rightarrow> string \<Rightarrow> tmo" where
  "write_tmo timeouts m = \<lparr>t_armed = to_write timeouts, t_status = 504, t_message = m\<rparr>"

text \<open>Waiting for 100 Continue: any other response is kept as the answer and the body is not sent.\<close>

definition await_continue :: "response_parser \<Rightarrow> string \<Rightarrow> conn \<Rightarrow> bool result \<times> conn" where
  "await_continue parse request_method c =
     (case read_response_buffered parse request_method False c of
        (Inl e, c') \<Rightarrow> (Inl e, c')
      | (Inr prefetched, c') \<Rightarrow>
          if rs_status prefetched \<noteq> 100 then (Inr False, c'\<lparr>cn_prefetched := Some prefetched\<rparr>)
          else (Inr True, c'))"

definition conn_send :: "string \<Rightarrow> string \<Rightarrow> conn \<Rightarrow> unit result \<times> conn" where
  "conn_send m data c =
     (case send_all (write_tmo (cn_timeouts c) m) data (cn_stream c) of
        (res, s) \<Rightarrow> (res, c\<lparr>cn_stream := s\<rparr>))"

definition conn_send_chunked :: "string \<Rightarrow> body_source \<Rightarrow> headers \<Rightarrow> conn \<Rightarrow> unit result \<times> conn" where
  "conn_send_chunked m source trailers c =
     (case write_chunked_body_stream (write_tmo (cn_timeouts c) m) source trailers (cn_stream c) of
        (res, s) \<Rightarrow> (res, c\<lparr>cn_stream := s\<rparr>))"

definition write_request_stream ::
  "response_parser \<Rightarrow> Request \<Rightarrow> body_source \<Rightarrow> string \<Rightarrow> conn \<Rightarrow> unit result \<times> conn" where
  "write_request_stream parse request source default_host c =
     (if bad_version (rq_version_minor request) then (Inl version_error, c)
      else
        (let outgoing = outgoing_request request default_host True []
         in case conn_send ''request write timeout'' (request_head outgoing) c of
              (Inl e, c1) \<Rightarrow> (Inl e, c1)
            | (Inr _, c1) \<Rightarrow>
                (case (if expects_continue (rq_headers outgoing)
                       then await_continue parse (rq_method outgoing) c1 else (Inr True, c1)) of
                   (Inl e, c2) \<Rightarrow> (Inl e, c2)
                 | (Inr False, c2) \<Rightarrow> (Inr (), c2)
                 | (Inr True, c2) \<Rightarrow>
                     conn_send_chunked ''request write timeout'' source (rq_trailers outgoing) c2)))"

text \<open>With chunked set, the body is a source of one chunk.\<close>

definition write_request ::
  "response_parser \<Rightarrow> Request \<Rightarrow> string \<Rightarrow> conn \<Rightarrow> unit result \<times> conn" where
  "write_request parse request default_host c =
     (if rq_chunked request then write_request_stream parse request [Inr (rq_body request)] default_host c
      else if bad_version (rq_version_minor request) then (Inl version_error, c)
      else
        (let outgoing = outgoing_request request default_host False (rq_body request)
         in case conn_send ''request write timeout'' (request_head outgoing) c of
              (Inl e, c1) \<Rightarrow> (Inl e, c1)
            | (Inr _, c1) \<Rightarrow>
                (case (if expects_continue (rq_headers outgoing) \<and> rq_body outgoing \<noteq> []
                       then await_continue parse (rq_method outgoing) c1 else (Inr True, c1)) of
                   (Inl e, c2) \<Rightarrow> (Inl e, c2)
                 | (Inr False, c2) \<Rightarrow> (Inr (), c2)
                 | (Inr True, c2) \<Rightarrow>
                     if rq_body outgoing \<noteq> [] then conn_send ''request write timeout'' (rq_body outgoing) c2
                     else (Inr (), c2))))"

definition write_response_stream :: "Response \<Rightarrow> body_source \<Rightarrow> string \<Rightarrow> conn \<Rightarrow> unit result \<times> conn" where
  "write_response_stream response source request_method c =
     (if bad_version (rs_version_minor response) then (Inl version_error, c)
      else
        (let has_body = response_has_body (rs_status response) request_method;
             outgoing = outgoing_response response has_body []
         in case conn_send ''response write timeout'' (response_head outgoing) c of
              (Inl e, c1) \<Rightarrow> (Inl e, c1)
            | (Inr _, c1) \<Rightarrow>
                if \<not> has_body then (Inr (), c1)
                else conn_send_chunked ''response write timeout'' source (rs_trailers outgoing) c1))"

definition write_response :: "Response \<Rightarrow> string \<Rightarrow> conn \<Rightarrow> unit result \<times> conn" where
  "write_response response request_method c =
     (if rs_chunked response then write_response_stream response [Inr (rs_body response)] request_method c
      else if bad_version (rs_version_minor response) then (Inl version_error, c)
      else
        (let outgoing = outgoing_response response False (rs_body response)
         in case conn_send ''response write timeout'' (response_head outgoing) c of
              (Inl e, c1) \<Rightarrow> (Inl e, c1)
            | (Inr _, c1) \<Rightarrow>
                if \<not> response_has_body (rs_status outgoing) request_method then (Inr (), c1)
                else if rs_body outgoing \<noteq> [] then conn_send ''response write timeout'' (rs_body outgoing) c1
                else (Inr (), c1)))"

section \<open>The server's connection loop\<close>

text \<open>How a handler ends: with a response, or with one of the exceptions the loop tells apart.\<close>

datatype handler_result =
    Handled Response
  | HandlerSignal
  | HandlerError int string   \<comment> \<open>http::Error\<close>
  | HandlerException string   \<comment> \<open>another std::exception, with its text\<close>
  | HandlerUnknown

definition error_response :: "int \<Rightarrow> string \<Rightarrow> Response" where
  "error_response status what =
     default_response\<lparr>rs_status := status, rs_reason := reason_phrase status, rs_body := what,
       rs_keep_alive := False\<rparr>"

definition handler_response :: "handler_result \<Rightarrow> Response option" where
  "handler_response h =
     (case h of
        Handled response \<Rightarrow> Some response
      | HandlerSignal \<Rightarrow> None
      | HandlerError status what \<Rightarrow> Some (error_response status what)
      | HandlerException what \<Rightarrow> Some (error_response 500 what)
      | HandlerUnknown \<Rightarrow> Some (error_response 500 ''internal server error''))"

text \<open>The loop of handle_client. The handler's own state is passed along; an exception that leaves
  the loop is the Inl result. Each turn reads a request's head, so fuel is counted in bytes.\<close>

fun handle_client_loop ::
  "nat \<Rightarrow> request_parser \<Rightarrow> ('h \<Rightarrow> Request \<Rightarrow> handler_result \<times> 'h) \<Rightarrow> conn \<Rightarrow> 'h \<Rightarrow> unit result \<times> conn \<times> 'h" where
  "handle_client_loop 0 parse handler c h = (Inl OutOfFuel, c, h)"
| "handle_client_loop (Suc fuel) parse handler c h =
     (if \<not> conn_is_open c then (Inr (), c, h)
      else case read_request parse c of
             (Inl (HttpError status what), c1) \<Rightarrow>
               (Inr (), snd (write_response (error_response status what) [] c1), h)
           | (Inl e, c1) \<Rightarrow> (Inl e, c1, h)
           | (Inr None, c1) \<Rightarrow> (Inr (), c1, h)
           | (Inr (Some request), c1) \<Rightarrow>
               (case handler h request of
                  (res, h') \<Rightarrow>
                    (case handler_response res of
                       None \<Rightarrow> (Inl (SignalException ''handler''), c1, h')
                     | Some resp \<Rightarrow>
                         (let response = (if rq_keep_alive request then resp else resp\<lparr>rs_keep_alive := False\<rparr>)
                          in case write_response response (rq_method request) c1 of
                               (Inl e, c2) \<Rightarrow> (Inr (), c2, h')
                             | (Inr _, c2) \<Rightarrow>
                                 if \<not> rq_keep_alive request \<or> \<not> rs_keep_alive response then (Inr (), c2, h')
                                 else handle_client_loop fuel parse handler c2 h'))))"

definition handle_client ::
  "request_parser \<Rightarrow> ('h \<Rightarrow> Request \<Rightarrow> handler_result \<times> 'h) \<Rightarrow> Limits \<Rightarrow> IoTimeouts \<Rightarrow> tcp \<Rightarrow> 'h \<Rightarrow>
     unit result \<times> conn \<times> 'h" where
  "handle_client parse handler limits timeouts s h =
     (case handle_client_loop (Suc (length (incoming s))) parse handler (Connection s limits timeouts) h of
        (res, c, h') \<Rightarrow> (res, conn_close c, h'))"

section \<open>The client\<close>

record client =
  cl_limits :: Limits
  cl_keep_alive :: bool
  cl_timeouts :: IoTimeouts
  cl_host :: string
  cl_port :: nat
  cl_connection :: "conn option"

definition client_close :: "client \<Rightarrow> client" where
  "client_close cl = cl\<lparr>cl_connection := None\<rparr>"

definition client_is_connected :: "client \<Rightarrow> bool" where
  "client_is_connected cl = (case cl_connection cl of None \<Rightarrow> False | Some c \<Rightarrow> conn_is_open c)"

definition client_connect :: "(string \<Rightarrow> nat \<Rightarrow> tcp result) \<Rightarrow> string \<Rightarrow> nat \<Rightarrow> client \<Rightarrow> unit result \<times> client" where
  "client_connect net_connect host port cl =
     (case net_connect host port of
        Inl e \<Rightarrow> (Inl e, client_close cl)
      | Inr s \<Rightarrow>
          (Inr (), (client_close cl)\<lparr>cl_host := host, cl_port := port,
             cl_connection := Some (Connection s (cl_limits cl) (cl_timeouts cl))\<rparr>))"

definition client_request :: "response_parser \<Rightarrow> Request \<Rightarrow> client \<Rightarrow> Response result \<times> client" where
  "client_request parse request cl =
     (case cl_connection cl of
        None \<Rightarrow> (Inl (LogicError ''corouv::http::Client is not connected''), cl)
      | Some c \<Rightarrow>
          if \<not> conn_is_open c then (Inl (LogicError ''corouv::http::Client is not connected''), cl)
          else
            (let rq = request\<lparr>rq_keep_alive := rq_keep_alive request \<and> cl_keep_alive cl\<rparr>
             in case write_request parse rq (format_host_header (cl_host cl) (cl_port cl)) c of
                  (Inl e, c1) \<Rightarrow> (Inl e, cl\<lparr>cl_connection := Some c1\<rparr>)
                | (Inr _, c1) \<Rightarrow>
                    (case read_response parse (rq_method rq) c1 of
                       (Inl e, c2) \<Rightarrow> (Inl e, cl\<lparr>cl_connection := Some c2\<rparr>)
                     | (Inr response, c2) \<Rightarrow>
                         (Inr response,
                          if \<not> rq_keep_alive rq \<or> \<not> rs_keep_alive response then client_close cl
                          else cl\<lparr>cl_connection := Some c2\<rparr>))))"

definition fetch ::
  "(string \<Rightarrow> nat \<Rightarrow> tcp result) \<Rightarrow> response_parser \<Rightarrow> string \<Rightarrow> Request \<Rightarrow> Limits \<Rightarrow> bool \<Rightarrow> IoTimeouts \<Rightarrow>
     Response result" where
  "fetch net_connect parse url request limits keep_alive timeouts =
     (case parse_url url of
        Inl e \<Rightarrow> Inl e
      | Inr parsed \<Rightarrow>
          if u_scheme parsed \<noteq> ''http''
          then Inl (InvalidArgument ''corouv::http::fetch requires http:// URL'')
          else
            (let rq = (if rq_target request = [] \<or> rq_target request = ''/''
                       then request\<lparr>rq_target := u_target parsed\<rparr> else request);
                 cl = \<lparr>cl_limits = limits, cl_keep_alive = keep_alive, cl_timeouts = timeouts, cl_host = [],
                       cl_port = 0, cl_connection = None\<rparr>
             in case client_connect net_connect (u_host parsed) (u_port parsed) cl of
                  (Inl e, _) \<Rightarrow> Inl e
                | (Inr _, cl') \<Rightarrow> fst (client_request parse rq cl')))"

section \<open>Reading a head\<close>

text \<open>
  The documented behaviour of picohttpparser on one message head: every proper prefix of it is
  incomplete, and with the whole head in the buffer it returns the head's length and fields,
  whatever follows.
\<close>

definition parses_head :: "(string \<Rightarrow> nat \<Rightarrow> nat \<Rightarrow> int \<times> 'p) \<Rightarrow> nat \<Rightarrow> string \<Rightarrow> 'p \<Rightarrow> bool" where
  "parses_head parse n head p \<longleftrightarrow>
     (\<forall>k last_len. k < length head \<longrightarrow> fst (parse (take k head) n last_len) = -2) \<and>
     (\<forall>rest last_len. parse (head @ rest) n last_len = (int (length head), p))"

lemma view_prefix:
  assumes "unread r = head @ rest"
  shows "length (view (rd_buf r)) < length head \<and> view (rd_buf r) = take (length (view (rd_buf r))) head \<or>
     (\<exists>more. view (rd_buf r) = head @ more)"
proof (cases "length (view (rd_buf r)) < length head")
  case True
  then have "take (length (view (rd_buf r))) (unread r) = take (length (view (rd_buf r))) head"
    using assms by simp
  then show ?thesis using True by (simp add: unread_def)
next
  case False
  have "take (length head) (unread r) = head" using assms by simp
  then have "take (length head) (view (rd_buf r)) = head" using False by (simp add: unread_def)
  then show ?thesis by (metis append_take_drop_id)
qed

lemma read_request_head_ok:
  "reader_clean r \<Longrightarrow> unread r = head @ rest \<Longrightarrow> head \<noteq> [] \<Longrightarrow>
   length head \<le> max_header_bytes limits \<Longrightarrow> parses_head parse (max_header_count limits) head pr \<Longrightarrow>
   \<exists>r'. read_request_head parse limits t last_len r = (Inr (Some (length head, pr)), r') \<and>
     reader_clean r' \<and> refilled r r' \<and> length head \<le> length (view (rd_buf r'))"
proof (induction parse limits t last_len r rule: read_request_head.induct)
  case (1 parse limits t last_len r)
  note prems = "1.prems"
  have ok: "reader_ok r" using prems(1) by (simp add: reader_clean_def)
  let ?v = "view (rd_buf r)" and ?n = "max_header_count limits"
  consider (short) "length ?v < length head" "?v = take (length ?v) head"
    | (whole) more where "?v = head @ more" using view_prefix[OF prems(2)] by blast
  then show ?case
  proof cases
    case whole
    then have "parse ?v ?n last_len = (int (length head), pr)" "?v \<noteq> []"
      using prems by (auto simp: parses_head_def)
    with whole prems(1,3) ok show ?thesis
      by (simp add: read_request_head.simps[of parse limits t last_len r])
  next
    case short
    obtain p0 where p0: "parse ?v ?n last_len = (-2, p0)"
      using prems(5) short unfolding parses_head_def by (metis eq_fst_iff)
    have small: "\<not> max_header_bytes limits \<le> buf_size (rd_buf r)"
      using short prems(4) by (simp add: buf_size_view)
    let ?m = "max_header_bytes limits - buf_size (rd_buf r)"
    obtain n r1 where m: "read_more t (max_header_bytes limits) 431 ''request headers too large'' ?m r = (Inr n, r1)"
      and c: "reader_clean r1"
      using read_more_clean[OF prems(1), of ?m "max_header_bytes limits" t 431 "''request headers too large''"] small
      by auto
    have s: "refilled r r1" "n = 0 \<longrightarrow> ?m = 0 \<or> incoming (rd_stream r) = []"
      using read_more_sound[OF m ok] by auto
    have "incoming (rd_stream r) \<noteq> []"
      using prems(2) short by (metis append.right_neutral leD length_append le_add1 unread_def)
    with s(2) small have n: "n \<noteq> 0" by auto
    have u: "unread r1 = head @ rest" using s(1) prems(2) by (simp add: refilled_def)
    have "\<exists>r'. read_request_head parse limits t (buf_size (rd_buf r)) r1 = (Inr (Some (length head, pr)), r') \<and>
       reader_clean r' \<and> refilled r1 r' \<and> length head \<le> length (view (rd_buf r'))"
      by (rule "1.IH"[OF refl refl p0[symmetric] _ _ small m[symmetric] refl n c u])
        (use prems in auto)
    then obtain r' where "read_request_head parse limits t (buf_size (rd_buf r)) r1 = (Inr (Some (length head, pr)), r')"
      "reader_clean r'" "refilled r1 r'" "length head \<le> length (view (rd_buf r'))" by blast
    with p0 small m n s(1) show ?thesis
      by (auto simp: read_request_head.simps[of parse limits t last_len r] intro: refilled_trans)
  qed
qed

text \<open>Headers as the parser hands them over, without continuation lines.\<close>

definition raw_header :: "header \<Rightarrow> phr_header" where
  "raw_header h = \<lparr>phr_name = Some (hname h), phr_value = hvalue h\<rparr>"

lemma Header_eta [simp]: "Header (hname h) (hvalue h) = h"
  by (simp add: Header_def)

lemma copy_raw_headers: "copy_headers (map raw_header hs) = hs"
proof -
  have "foldl copy_headers_step acc (map raw_header hs) = acc @ hs" for acc
    by (induction hs arbitrary: acc) (auto simp: raw_header_def)
  then show ?thesis by (simp add: copy_headers_def)
qed

definition raw_request :: "Request \<Rightarrow> phr_request" where
  "raw_request rq =
     \<lparr>pr_method = rq_method rq, pr_path = rq_target rq, pr_minor_version = rq_version_minor rq,
      pr_headers = map raw_header (rq_headers rq)\<rparr>"

lemma request_of_outgoing:
  assumes "length body \<le> size_max"
  shows "request_of_head (raw_request (outgoing_request rq host chunked body)) =
     Inr ((outgoing_request rq host chunked body)\<lparr>rq_body := [], rq_trailers := []\<rparr>,
          if chunked then None else Some (length body))"
  using assms
  by (cases chunked)
    (auto simp: request_of_head_def raw_request_def copy_raw_headers outgoing_request_def Let_def prepare_read_back)


section \<open>Requests across a connection\<close>

lemma reader_stream [simp]: "r\<lparr>rd_stream := rd_stream r\<rparr> = r"
  by simp

lemma read_request_stream_head:
  assumes "reader_clean r" "unread r = head @ rest" "head \<noteq> []" "length head \<le> max_header_bytes limits"
    "parses_head parse (max_header_count limits) head pr" "request_of_head pr = Inr (rq, cl)"
  obtains r1 where "reader_clean r1" "unread r1 = rest" "rd_sink r1 = rd_sink r"
    "read_request_stream parse limits timeouts on_chunk r = read_request_body limits timeouts on_chunk rq cl r1"
proof -
  let ?t = "\<lparr>t_armed = to_read_headers timeouts, t_status = 408, t_message = ''request header read timeout''\<rparr>"
  obtain r' where r': "read_request_head parse limits ?t 0 r = (Inr (Some (length head, pr)), r')"
    "reader_clean r'" "refilled r r'" "length head \<le> length (view (rd_buf r'))"
    using read_request_head_ok[OF assms(1,2,3,4,5), of ?t 0] by blast
  let ?r1 = "r'\<lparr>rd_buf := consume (length head) (rd_buf r')\<rparr>"
  have "reader_ok r'" "unread r' = head @ rest" "rd_sink r' = rd_sink r" "clean (rd_stream r')"
    using r'(2,3) assms(2) by (simp_all add: refilled_def reader_clean_def)
  then have "reader_clean ?r1" "unread ?r1 = rest" "rd_sink ?r1 = rd_sink r"
    using reader_consume[of r' "length head"] r'(4) by simp_all
  with that[of ?r1] r'(1) assms(6) show thesis by (simp add: read_request_stream_def)
qed

lemma request_head_nonempty [simp]: "request_head rq \<noteq> []"
  by (simp add: request_head_def)

lemma read_fixed_request:
  assumes "reader_clean r" "unread r = request_head out @ body @ rest" "rd_sink r = []"
    and out: "out = outgoing_request rq host False body"
    and "parse_expect (rq_headers out) = Expect_None"
    and "parses_head parse (max_header_count limits) (request_head out) (raw_request out)"
    and lim: "length (request_head out) \<le> max_header_bytes limits" "length body \<le> max_body_bytes limits"
      "length body \<le> size_max"
  shows "\<exists>r'. read_request_stream parse limits timeouts append_body r =
      (Inr (Some (out\<lparr>rq_body := [], rq_trailers := []\<rparr>)), r') \<and>
      reader_clean r' \<and> unread r' = rest \<and> rd_sink r' = body"
proof -
  let ?tb = "\<lparr>t_armed = to_read_body timeouts, t_status = 408, t_message = ''request body read timeout''\<rparr>"
  have h: "request_of_head (raw_request out) = Inr (out\<lparr>rq_body := [], rq_trailers := []\<rparr>, Some (length body))"
    using request_of_outgoing[OF lim(3), of rq host False] by (simp add: out)
  obtain r1 where r1: "reader_clean r1" "unread r1 = body @ rest" "rd_sink r1 = rd_sink r"
    "read_request_stream parse limits timeouts append_body r =
       read_request_body limits timeouts append_body (out\<lparr>rq_body := [], rq_trailers := []\<rparr>) (Some (length body)) r1"
    by (rule read_request_stream_head[OF assms(1,2) _ lim(1) assms(6) h]) auto
  obtain r' where "read_fixed_loop ?tb append_body (length body) r1 = (Inr (), r')" "reader_clean r'"
    "unread r' = rest" "rd_sink r' = rd_sink r1 @ body"
    using read_fixed_loop_exact[OF r1(1,2) refl refl, of ?tb] by blast
  moreover have "\<not> rq_chunked out" by (simp add: out outgoing_request_def)
  ultimately show ?thesis
    using r1 assms(3,5) lim(2) by (simp add: read_request_body_def read_fixed_body_stream_def Let_def)
qed

lemma read_chunked_request:
  assumes "reader_clean r" "unread r = request_head out @ body_wire cs trs @ rest" "rd_sink r = []"
    and out: "out = outgoing_request rq host True []"
    and "parse_expect (rq_headers out) = Expect_None"
    and "parses_head parse (max_header_count limits) (request_head out) (raw_request out)"
    and lim: "length (request_head out) \<le> max_header_bytes limits" "sane_limits limits"
      "sum_list (map length cs) \<le> max_body_bytes limits" "length trs \<le> max_header_count limits"
    and wf: "list_all (\<lambda>c. c \<noteq> []) cs" "list_all (good_trailer limits) trs"
  shows "\<exists>r'. read_request_stream parse limits timeouts append_body r =
      (Inr (Some (out\<lparr>rq_body := [], rq_trailers := trs\<rparr>)), r') \<and>
      reader_clean r' \<and> unread r' = rest \<and> rd_sink r' = concat cs"
proof -
  let ?tb = "\<lparr>t_armed = to_read_body timeouts, t_status = 408, t_message = ''request body read timeout''\<rparr>"
  have h: "request_of_head (raw_request out) = Inr (out\<lparr>rq_body := [], rq_trailers := []\<rparr>, None)"
    using request_of_outgoing[of "[]" rq host True] by (simp add: out)
  obtain r1 where r1: "reader_clean r1" "unread r1 = body_wire cs trs @ rest" "rd_sink r1 = rd_sink r"
    "read_request_stream parse limits timeouts append_body r =
       read_request_body limits timeouts append_body (out\<lparr>rq_body := [], rq_trailers := []\<rparr>) None r1"
    by (rule read_request_stream_head[OF assms(1,2) _ lim(1) assms(6) h]) auto
  have feed: "feed append_body k cs = Inr (k @ concat cs)" for k
    by (induction cs arbitrary: k) (auto simp: append_body_def)
  obtain r' where "read_chunked_loop (chunk_fuel r1) ?tb limits append_body True 0 r1 = (Inr trs, r')"
    "reader_clean r'" "unread r' = rest" "rd_sink r' = concat cs"
    using read_chunked_loop_ok[OF r1(1,2) lim(2) _ _ wf(2) lim(4) feed body_wire_fuel[OF r1(2)], of 0 ?tb]
      wf(1) lim(3) r1(3) assms(3) by (auto simp: list_all_iff)
  moreover have "rq_chunked out" by (simp add: out outgoing_request_def)
  ultimately show ?thesis
    using r1 assms(5) by (simp add: read_request_body_def read_chunked_body_stream_def Let_def)
qed

section \<open>Reading leaves the write side alone\<close>

definition same_writes :: "tcp \<Rightarrow> tcp \<Rightarrow> bool" where
  "same_writes s s' \<longleftrightarrow> uv_writes s' = uv_writes s \<and> outbox s' = outbox s \<and> tcp_open s' = tcp_open s"

lemma same_writes_refl [simp]: "same_writes s s"
  by (simp add: same_writes_def)

lemma same_writes_trans [trans]: "same_writes a b \<Longrightarrow> same_writes b c \<Longrightarrow> same_writes a c"
  by (simp add: same_writes_def)

lemma run_until_resumed_writes:
  "same_writes s (fst (run_until_resumed armed evs s))"
proof (induction evs arbitrary: s)
  case (Cons ev evs)
  have "same_writes s (s\<lparr>uv_reads := evs\<rparr>)" by (simp add: same_writes_def)
  with Cons.IH[of "s\<lparr>uv_reads := evs\<rparr>"] show ?case
    by (cases ev) (auto simp: same_writes_def)
qed (simp add: same_writes_def)

lemma read_resume_writes: "same_writes s (snd (read_resume cap s))"
  by (simp add: read_resume_def Let_def same_writes_def split: option.splits)

lemma read_some_writes: "same_writes s (snd (read_some armed cap s))"
proof -
  obtain e s0 where s0: "start_reading_on_loop (s\<lparr>read_waiter := True\<rparr>) = (e, s0)" by fastforce
  have w0: "same_writes s s0"
    using s0 by (auto simp: start_reading_on_loop_def same_writes_def split: if_splits option.splits)
  obtain s1 b where s1: "run_until_resumed armed (uv_reads s0) s0 = (s1, b)" by fastforce
  have w1: "same_writes s s1" using w0 run_until_resumed_writes[of s0 armed "uv_reads s0"] s1
    by (auto intro: same_writes_trans)
  then have w2: "same_writes s (snd (read_resume cap s1))" using read_resume_writes same_writes_trans by blast
  have "same_writes s (s0\<lparr>read_waiter := False, read_error := x\<rparr>)" for x using w0 by (simp add: same_writes_def)
  then show ?thesis using s0 s1 w1 w2 read_resume_writes[of s cap]
    by (cases b) (simp_all add: read_some_def read_await_def split: option.splits)
qed

lemma with_optional_timeout_snd: "snd (with_optional_timeout t task) = snd (task (t_armed t))"
  by (simp add: with_optional_timeout_def split: prod.splits sum.splits)

abbreviation keeps_writes :: "'k reader \<Rightarrow> 'a result \<times> 'k reader \<Rightarrow> bool" where
  "keeps_writes r res \<equiv> same_writes (rd_stream r) (rd_stream (snd res))"

lemma read_more_writes: "keeps_writes r (read_more t mb st msg mr r)"
proof -
  obtain res s where s: "with_optional_timeout t (\<lambda>armed. read_some armed (min mr 4096) (rd_stream r)) = (res, s)"
    by fastforce
  have "s = snd (read_some (t_armed t) (min mr 4096) (rd_stream r))"
    using with_optional_timeout_snd[of t "\<lambda>armed. read_some armed (min mr 4096) (rd_stream r)"] s by simp
  then have "same_writes (rd_stream r) s" using read_some_writes by simp
  then show ?thesis using s by (simp add: read_more_def Let_def split: sum.splits)
qed

lemma read_more_writes': "read_more t mb st msg mr r = (res, r') \<Longrightarrow> same_writes (rd_stream r) (rd_stream r')"
  using read_more_writes[of r t mb st msg mr] by simp

lemma ensure_buffer_writes: "keeps_writes r (ensure_buffer t w mb st msg eof r)"
proof (induction t w mb st msg eof r rule: ensure_buffer.induct)
  case (1 t w mb st msg eof r)
  obtain res r1 where m: "read_more t mb st msg (w - buf_size (rd_buf r)) r = (res, r1)" by fastforce
  from 1 m read_more_writes'[OF m] show ?case
    by (subst ensure_buffer.simps) (auto split: sum.splits intro: same_writes_trans)
qed

lemma read_line_writes: "keeps_writes r (read_line_crlf t ml st msg eof r)"
proof (induction t ml st msg eof r rule: read_line_crlf.induct)
  case (1 t ml st msg eof r)
  obtain res r1 where m: "read_more t ml st msg (ml - buf_size (rd_buf r)) r = (res, r1)" by fastforce
  from 1 m read_more_writes'[OF m] show ?case
    by (subst read_line_crlf.simps) (auto split: sum.splits option.splits intro: same_writes_trans)
qed

lemma read_line_writes':
  "read_line_crlf t ml st msg eof r = (res, r') \<Longrightarrow> same_writes (rd_stream r) (rd_stream r')"
  using read_line_writes[of r t ml st msg eof] by simp

lemma read_fixed_loop_writes: "keeps_writes r (read_fixed_loop t on_chunk n r)"
proof (induction t on_chunk n r rule: read_fixed_loop.induct)
  case (1 t on_chunk n r)
  obtain res r1 where m: "read_more t n 413 ''HTTP body too large'' (min n 4096) r = (res, r1)" by fastforce
  from 1 m read_more_writes'[OF m] show ?case
    by (subst read_fixed_loop.simps) (auto simp: Let_def split: sum.splits intro: same_writes_trans)
qed

lemma read_trailers_writes: "keeps_writes r (read_trailers fuel t limits want trs r)"
  by (induction fuel arbitrary: trs r)
    (auto split: prod.splits sum.splits dest!: read_line_writes' intro: same_writes_trans)

lemma read_chunk_writes: "keeps_writes r (read_chunk t limits on_chunk tot n r)"
  using ensure_buffer_writes[of r t "sz_add n 2" "min (sz_add (max_body_bytes limits - tot) 2)
      (sz_add (max_body_bytes limits) (max_header_bytes limits))" 413 "''HTTP body too large''"
      "''unexpected eof while reading chunk data''"]
  by (auto simp: read_chunk_def Let_def split: prod.splits sum.splits)

lemma read_chunk_writes':
  "read_chunk t limits on_chunk tot n r = (res, r') \<Longrightarrow> same_writes (rd_stream r) (rd_stream r')"
  using read_chunk_writes[of r t limits on_chunk tot n] by simp

lemma read_chunked_loop_writes: "keeps_writes r (read_chunked_loop fuel t limits on_chunk want tot r)"
proof (induction fuel arbitrary: tot r)
  case (Suc fuel)
  obtain res r1 where l: "read_line_crlf t (max_header_bytes limits) 431 ''chunk header too large''
      ''unexpected eof while reading chunk header'' r = (res, r1)" by fastforce
  note w = read_line_writes'[OF l]
  show ?case
    using l w Suc.IH read_trailers_writes[of r1 fuel t limits want "[]"]
    by (auto split: prod.splits sum.splits option.splits dest!: read_chunk_writes' intro: same_writes_trans)
qed simp

lemma read_request_head_writes: "keeps_writes r (read_request_head parse limits t last_len r)"
proof (induction parse limits t last_len r rule: read_request_head.induct)
  case (1 parse limits t last_len r)
  obtain parsed pr where p: "parse (view (rd_buf r)) (max_header_count limits) last_len = (parsed, pr)" by fastforce
  obtain res r1 where m: "read_more t (max_header_bytes limits) 431 ''request headers too large''
      (max_header_bytes limits - buf_size (rd_buf r)) r = (res, r1)" by fastforce
  from 1 p m read_more_writes'[OF m] show ?case
    by (subst read_request_head.simps) (auto simp: Let_def split: sum.splits intro: same_writes_trans)
qed

section \<open>The wire form of messages\<close>

definition conn_unread :: "conn \<Rightarrow> string" where
  "conn_unread c = view (cn_buf c) @ incoming (cn_stream c)"

definition conn_clean :: "conn \<Rightarrow> bool" where
  "conn_clean c \<longleftrightarrow> reader_clean (conn_reader c ()) \<and> writable (cn_stream c)"

lemma conn_reader_facts:
  "unread (conn_reader c k) = conn_unread c" "rd_sink (conn_reader c k) = k"
  "rd_stream (conn_reader c k) = cn_stream c"
  "conn_clean c \<Longrightarrow> reader_clean (conn_reader c k)"
  by (simp_all add: conn_reader_def conn_unread_def unread_def conn_clean_def reader_clean_def reader_ok_def)

lemma conn_after_facts:
  "conn_unread (conn_after c r) = unread r" "cn_limits (conn_after c r) = cn_limits c"
  "cn_timeouts (conn_after c r) = cn_timeouts c" "cn_stream (conn_after c r) = rd_stream r"
  "reader_clean r \<Longrightarrow> writable (rd_stream r) \<Longrightarrow> conn_clean (conn_after c r)"
  by (simp_all add: conn_after_def conn_unread_def unread_def conn_clean_def conn_reader_def reader_clean_def
      reader_ok_def)

lemma same_reads_facts:
  assumes "same_reads s s'"
  shows "incoming s' = incoming s" "clean s' = clean s" "tcp_open s' = tcp_open s"
  using assms by (cases s, cases s', simp add: same_reads_def incoming_def clean_def)+

lemma same_writes_writable: "same_writes s s' \<Longrightarrow> writable s' = writable s"
  by (simp add: same_writes_def writable_def)

text \<open>A connection that was only written to.\<close>

definition wrote :: "string \<Rightarrow> conn \<Rightarrow> conn \<Rightarrow> bool" where
  "wrote w c c' \<longleftrightarrow> outbox (cn_stream c') = outbox (cn_stream c) @ w \<and>
     same_reads (cn_stream c) (cn_stream c') \<and> cn_buf c' = cn_buf c \<and> cn_limits c' = cn_limits c \<and>
     cn_timeouts c' = cn_timeouts c \<and> cn_prefetched c' = cn_prefetched c"

lemma wrote_trans: "wrote v a b \<Longrightarrow> wrote w b c \<Longrightarrow> wrote (v @ w) a c"
  by (auto simp: wrote_def intro: same_reads_trans)

lemma wrote_Nil [simp]: "wrote [] c c"
  by (simp add: wrote_def)

lemma wrote_clean:
  "wrote w c c' \<Longrightarrow> conn_clean c \<Longrightarrow> writable (cn_stream c') \<Longrightarrow> conn_clean c' \<and> conn_unread c' = conn_unread c"
  by (auto simp: wrote_def conn_clean_def conn_unread_def reader_clean_def reader_ok_def conn_reader_def
      same_reads_facts)

lemma send_all_same_reads: "send_all t b s = (r, s') \<Longrightarrow> same_reads s s'"
  using with_optional_timeout_snd[of t "\<lambda>armed. write_all armed b s"] write_all_same_reads[of "t_armed t" b s]
  by (metis prod.collapse send_all_def snd_conv)

lemma send_each_same_reads: "send_each t ds s = (r, s') \<Longrightarrow> same_reads s s'"
proof (induction ds arbitrary: s)
  case (Cons d ds)
  obtain q s1 where q: "send_all t d s = (q, s1)" by fastforce
  with Cons send_all_same_reads[OF q] show ?case
    by (cases q) (auto intro: same_reads_trans)
qed simp

lemma write_chunks_same_reads: "write_chunks t src s = (r, s') \<Longrightarrow> same_reads s s'"
proof (induction src arbitrary: s)
  case (Cons c src)
  show ?case
  proof (cases c)
    case (Inr chunk)
    obtain q s1 where q: "write_chunk t chunk s = (q, s1)" by fastforce
    then have "same_reads s s1" unfolding write_chunk_def by (rule send_each_same_reads)
    with Cons Inr q show ?thesis by (cases q) (auto intro: same_reads_trans)
  qed (use Cons in simp)
qed simp

lemma write_chunked_same_reads: "write_chunked_body_stream t src trs s = (r, s') \<Longrightarrow> same_reads s s'"
  unfolding write_chunked_body_stream_def
  by (auto split: prod.splits sum.splits simp del: send_each.simps
      dest!: write_chunks_same_reads send_each_same_reads intro: same_reads_trans)

lemma conn_send_wrote: "conn_send m d c = (Inr u, c') \<Longrightarrow> wrote d c c'"
  by (auto simp: conn_send_def wrote_def split: prod.splits dest: http_sink.send_sound send_all_same_reads)

lemma conn_send_ok: "writable (cn_stream c) \<Longrightarrow> \<exists>c'. conn_send m d c = (Inr (), c') \<and> writable (cn_stream c')"
  using http_sink.send_ok[of "cn_stream c" "write_tmo (cn_timeouts c) m" d] by (auto simp: conn_send_def)

lemma conn_send_chunked_wrote:
  "conn_send_chunked m (map Inr cs) trs c = (Inr u, c') \<Longrightarrow> wrote (body_wire cs trs) c c'"
  by (auto simp: conn_send_chunked_def wrote_def split: prod.splits
      dest: write_chunked_sound write_chunked_same_reads)

lemma conn_send_chunked_ok:
  "writable (cn_stream c) \<Longrightarrow>
   \<exists>c'. conn_send_chunked m (map Inr cs) trs c = (Inr (), c') \<and> writable (cn_stream c')"
  using write_chunked_ok[of "cn_stream c" "write_tmo (cn_timeouts c) m" cs trs] by (auto simp: conn_send_chunked_def)

text \<open>What write_request puts on the wire, and what the other side is to make of it.\<close>

definition sent_request :: "Request \<Rightarrow> string \<Rightarrow> Request" where
  "sent_request rq host =
     outgoing_request rq host (rq_chunked rq) (if rq_chunked rq then [] else rq_body rq)"

definition request_wire :: "Request \<Rightarrow> string \<Rightarrow> string" where
  "request_wire rq host =
     request_head (sent_request rq host) @
     (if rq_chunked rq then body_wire [rq_body rq] (rq_trailers rq) else rq_body rq)"

definition received_request :: "Request \<Rightarrow> string \<Rightarrow> Request" where
  "received_request rq host =
     (sent_request rq host)\<lparr>rq_body := rq_body rq, rq_trailers := (if rq_chunked rq then rq_trailers rq else [])\<rparr>"

definition request_fits :: "Limits \<Rightarrow> Request \<Rightarrow> string \<Rightarrow> bool" where
  "request_fits limits rq host \<longleftrightarrow>
     sane_limits limits \<and>
     length (request_head (sent_request rq host)) \<le> max_header_bytes limits \<and>
     length (rq_body rq) \<le> max_body_bytes limits \<and>
     parse_expect (rq_headers (sent_request rq host)) = Expect_None \<and>
     (rq_chunked rq \<longrightarrow> rq_body rq \<noteq> [] \<and> list_all (good_trailer limits) (rq_trailers rq) \<and>
        length (rq_trailers rq) \<le> max_header_count limits)"

lemma write_request_wire:
  assumes "write_request parse rq host c = (Inr u, c')" "\<not> expects_continue (rq_headers (sent_request rq host))"
  shows "wrote (request_wire rq host) c c'"
proof (cases "rq_chunked rq")
  case True
  with assms obtain c1 where c1: "conn_send ''request write timeout'' (request_head (sent_request rq host)) c = (Inr (), c1)"
    and c2: "conn_send_chunked ''request write timeout'' [Inr (rq_body rq)] (rq_trailers (sent_request rq host)) c1 = (Inr u, c')"
    by (auto simp: write_request_def write_request_stream_def sent_request_def Let_def
        split: if_splits prod.splits sum.splits)
  have "rq_trailers (sent_request rq host) = rq_trailers rq"
    by (simp add: sent_request_def outgoing_request_def Let_def)
  then show ?thesis
    using True wrote_trans[OF conn_send_wrote[OF c1] conn_send_chunked_wrote[of _ "[rq_body rq]"]] c2
    by (simp add: request_wire_def)
next
  case False
  have b: "rq_body (sent_request rq host) = rq_body rq"
    using False by (simp add: sent_request_def outgoing_request_def Let_def)
  obtain c1 where c1: "conn_send ''request write timeout'' (request_head (sent_request rq host)) c = (Inr (), c1)"
    and c': "(if rq_body rq \<noteq> [] then conn_send ''request write timeout'' (rq_body rq) c1 else (Inr (), c1)) = (Inr u, c')"
    using assms False b
    by (auto simp: write_request_def sent_request_def Let_def split: if_splits prod.splits sum.splits)
  then have "wrote (rq_body rq) c1 c'" by (cases "rq_body rq = []") (auto dest: conn_send_wrote)
  with c1 False show ?thesis by (auto simp: request_wire_def dest: conn_send_wrote intro: wrote_trans)
qed


lemma read_request_body_writes:
  assumes "parse_expect (rq_headers rq) = Expect_None"
  shows "keeps_writes r (read_request_body limits timeouts on_chunk rq cl r)"
proof -
  let ?tb = "\<lparr>t_armed = to_read_body timeouts, t_status = 408, t_message = ''request body read timeout''\<rparr>"
  show ?thesis
    using assms read_chunked_loop_writes[of r "chunk_fuel r" ?tb limits on_chunk True 0]
      read_fixed_loop_writes[of r ?tb on_chunk]
    by (auto simp: read_request_body_def read_chunked_body_stream_def read_fixed_body_stream_def Let_def
        split: prod.splits sum.splits option.splits) (metis snd_conv)+
qed

lemma read_request_body_headers:
  "read_request_body limits timeouts on_chunk rq cl r = (Inr (Some rq'), r') \<Longrightarrow> rq_headers rq' = rq_headers rq"
  by (auto simp: read_request_body_def Let_def split: if_splits prod.splits sum.splits option.splits)

lemma read_request_stream_writes:
  assumes "read_request_stream parse limits timeouts on_chunk r = (Inr (Some rq), r')"
    "parse_expect (rq_headers rq) = Expect_None"
  shows "same_writes (rd_stream r) (rd_stream r')"
proof -
  let ?t = "\<lparr>t_armed = to_read_headers timeouts, t_status = 408, t_message = ''request header read timeout''\<rparr>"
  obtain parsed pr r1 q cl where h: "read_request_head parse limits ?t 0 r = (Inr (Some (parsed, pr)), r1)"
    and b: "read_request_body limits timeouts on_chunk q cl (r1\<lparr>rd_buf := consume parsed (rd_buf r1)\<rparr>) =
      (Inr (Some rq), r')"
    using assms(1) by (auto simp: read_request_stream_def split: prod.splits sum.splits option.splits)
  have "parse_expect (rq_headers q) = Expect_None" using read_request_body_headers[OF b] assms(2) by simp
  then have "same_writes (rd_stream r1) (rd_stream r')"
    using read_request_body_writes[of q "r1\<lparr>rd_buf := consume parsed (rd_buf r1)\<rparr>" limits timeouts on_chunk cl] b
    by simp
  moreover have "same_writes (rd_stream r) (rd_stream r1)"
    using read_request_head_writes[of r parse limits ?t 0] h by simp
  ultimately show ?thesis by (rule same_writes_trans[rotated])
qed

lemma read_request_wire:
  assumes c: "conn_clean d" and u: "conn_unread d = request_wire rq host @ rest"
    and fits: "request_fits (cn_limits d) rq host"
    and parse: "parses_head parse (max_header_count (cn_limits d)) (request_head (sent_request rq host))
      (raw_request (sent_request rq host))"
  shows "\<exists>d'. read_request parse d = (Inr (Some (received_request rq host)), d') \<and> conn_clean d' \<and>
     conn_unread d' = rest \<and> outbox (cn_stream d') = outbox (cn_stream d) \<and>
     cn_limits d' = cn_limits d \<and> cn_timeouts d' = cn_timeouts d"
proof -
  let ?r = "conn_reader d [] :: string reader" and ?out = "sent_request rq host"
  have r: "reader_clean ?r" "rd_sink ?r = []" using c by (simp_all add: conn_reader_facts)
  have "\<exists>r'. read_request_stream parse (cn_limits d) (cn_timeouts d) append_body ?r =
      (Inr (Some (?out\<lparr>rq_body := [], rq_trailers := rq_trailers (received_request rq host)\<rparr>)), r') \<and>
      reader_clean r' \<and> unread r' = rest \<and> rd_sink r' = rq_body rq"
  proof (cases "rq_chunked rq")
    case True
    then have o: "?out = outgoing_request rq host True []" by (simp add: sent_request_def)
    have u': "unread ?r = request_head ?out @ body_wire [rq_body rq] (rq_trailers rq) @ rest"
      using u True by (simp add: conn_reader_facts request_wire_def)
    show ?thesis
      using read_chunked_request[OF r(1) u' r(2) o _ parse, of "cn_timeouts d"] fits True
      by (simp add: request_fits_def received_request_def)
  next
    case False
    then have o: "?out = outgoing_request rq host False (rq_body rq)" by (simp add: sent_request_def)
    have u': "unread ?r = request_head ?out @ rq_body rq @ rest"
      using u False by (simp add: conn_reader_facts request_wire_def)
    show ?thesis
      using read_fixed_request[OF r(1) u' r(2) o _ parse, of "cn_timeouts d"] fits False
      by (simp add: request_fits_def received_request_def sane_limits_def size_max_def)
  qed
  then obtain r' where r': "read_request_stream parse (cn_limits d) (cn_timeouts d) append_body ?r =
      (Inr (Some (?out\<lparr>rq_body := [], rq_trailers := rq_trailers (received_request rq host)\<rparr>)), r')"
    "reader_clean r'" "unread r' = rest" "rd_sink r' = rq_body rq" by blast
  have "same_writes (cn_stream d) (rd_stream r')"
    using read_request_stream_writes[OF r'(1)] fits by (simp add: request_fits_def conn_reader_facts)
  moreover from this have "writable (rd_stream r')"
    using c same_writes_writable by (auto simp: conn_clean_def)
  ultimately show ?thesis
    using r' by (simp add: read_request_def conn_after_facts received_request_def same_writes_def)
qed

section \<open>Serving a connection\<close>

definition response_wire :: "Response \<Rightarrow> string \<Rightarrow> string" where
  "response_wire rs request_method =
     (let has_body = response_has_body (rs_status rs) request_method
      in if rs_chunked rs then
           response_head (outgoing_response rs has_body []) @
           (if has_body then body_wire [rs_body rs] (rs_trailers rs) else [])
         else
           response_head (outgoing_response rs False (rs_body rs)) @ (if has_body then rs_body rs else []))"

lemma outgoing_response_sel [simp]:
  "rs_status (outgoing_response rs ch b) = rs_status rs" "rs_body (outgoing_response rs ch b) = b"
  "rs_trailers (outgoing_response rs ch b) = rs_trailers rs"
  by (simp_all add: outgoing_response_def)

lemma conn_send_wrote_ok:
  assumes "writable (cn_stream c)"
  obtains c' where "conn_send m d c = (Inr (), c')" "wrote d c c'" "writable (cn_stream c')"
  using conn_send_ok[OF assms, of m d] conn_send_wrote that by blast

lemma write_response_ok:
  assumes "writable (cn_stream c)" "\<not> bad_version (rs_version_minor rs)"
  shows "\<exists>c'. write_response rs m c = (Inr (), c') \<and> wrote (response_wire rs m) c c' \<and> writable (cn_stream c')"
proof (cases "rs_chunked rs")
  case True
  let ?hb = "response_has_body (rs_status rs) m"
  obtain c1 where c1: "conn_send ''response write timeout'' (response_head (outgoing_response rs ?hb [])) c = (Inr (), c1)"
    "wrote (response_head (outgoing_response rs ?hb [])) c c1" "writable (cn_stream c1)"
    using conn_send_wrote_ok[OF assms(1)] .
  obtain c2 where c2: "conn_send_chunked ''response write timeout'' [Inr (rs_body rs)] (rs_trailers rs) c1 = (Inr (), c2)"
    "wrote (body_wire [rs_body rs] (rs_trailers rs)) c1 c2" "writable (cn_stream c2)"
    using conn_send_chunked_ok[OF c1(3), of _ "[rs_body rs]"] conn_send_chunked_wrote[of _ "[rs_body rs]"] by fastforce
  show ?thesis
    using True assms(2) c1 c2 wrote_trans[OF c1(2) c2(2)]
    by (auto simp: write_response_def write_response_stream_def response_wire_def Let_def)
next
  case False
  obtain c1 where c1: "conn_send ''response write timeout'' (response_head (outgoing_response rs False (rs_body rs))) c = (Inr (), c1)"
    "wrote (response_head (outgoing_response rs False (rs_body rs))) c c1" "writable (cn_stream c1)"
    using conn_send_wrote_ok[OF assms(1)] .
  obtain c2 where c2: "conn_send ''response write timeout'' (rs_body rs) c1 = (Inr (), c2)" "wrote (rs_body rs) c1 c2"
    "writable (cn_stream c2)"
    using conn_send_wrote_ok[OF c1(3)] .
  show ?thesis
    using False assms(2) c1 c2 wrote_trans[OF c1(2) c2(2)]
    by (auto simp: write_response_def response_wire_def Let_def)
qed

lemma write_request_ok:
  assumes "writable (cn_stream c)" "\<not> bad_version (rq_version_minor rq)"
    "\<not> expects_continue (rq_headers (sent_request rq host))"
  shows "\<exists>c'. write_request parse rq host c = (Inr (), c')"
proof -
  obtain c1 where c1: "conn_send ''request write timeout'' (request_head (sent_request rq host)) c = (Inr (), c1)"
    "writable (cn_stream c1)"
    using conn_send_wrote_ok[OF assms(1)] .
  show ?thesis
    using assms c1 conn_send_ok[OF c1(2), of "''request write timeout''"]
      conn_send_chunked_ok[OF c1(2), of "''request write timeout''" "[rq_body rq]"]
    by (cases "rq_chunked rq")
      (fastforce simp: write_request_def write_request_stream_def sent_request_def Let_def)+
qed

text \<open>The end of the input before a request: no request, nothing written.\<close>

lemma read_request_end:
  assumes "conn_clean c" "conn_unread c = []" "0 < max_header_bytes (cn_limits c)"
  shows "\<exists>c'. read_request parse c = (Inr None, c') \<and> outbox (cn_stream c') = outbox (cn_stream c)"
proof -
  let ?r = "conn_reader c [] :: string reader" and ?L = "cn_limits c"
  let ?t = "\<lparr>t_armed = to_read_headers (cn_timeouts c), t_status = 408, t_message = ''request header read timeout''\<rparr>"
  have r: "reader_clean ?r" "unread ?r = []" using assms by (simp_all add: conn_reader_facts)
  then have v: "view (rd_buf ?r) = []" by (simp add: unread_def)
  then have b: "buf_size (rd_buf ?r) = 0" by (simp add: buf_size_view)
  obtain n r1 where m: "read_more ?t (max_header_bytes ?L) 431 ''request headers too large'' (max_header_bytes ?L) ?r = (Inr n, r1)"
    using read_more_clean[OF r(1), of "max_header_bytes ?L" "max_header_bytes ?L" ?t 431] b by fastforce
  have s: "refilled ?r r1" "buf_size (rd_buf r1) = n"
    using read_more_sound[OF m] r(1) b by (auto simp: reader_clean_def)
  then have "n = 0" using r(2) by (simp add: refilled_def unread_def buf_size_view)
  then have "read_request_head parse ?L ?t 0 ?r = (Inr None, r1)"
    using v b m s(2) assms(3)
    by (simp add: read_request_head.simps[of parse ?L ?t 0 ?r] split: prod.splits)
  moreover have "outbox (rd_stream r1) = outbox (cn_stream c)"
    using read_more_writes'[OF m] by (simp add: same_writes_def conn_reader_facts)
  ultimately show ?thesis by (simp add: read_request_def read_request_stream_def conn_after_facts)
qed

text \<open>What a server owes to a sequence of requests: each is answered with its handler's response, in
  order, until one asks to close or is answered with a closing response.\<close>

fun answers :: "('h \<Rightarrow> Request \<Rightarrow> handler_result \<times> 'h) \<Rightarrow> 'h \<Rightarrow> Request list \<Rightarrow> string \<times> 'h" where
  "answers handler h [] = ([], h)"
| "answers handler h (q # qs) =
     (case handler h q of
        (res, h') \<Rightarrow>
          (case handler_response res of
             None \<Rightarrow> ([], h')
           | Some resp \<Rightarrow>
               (let rs = (if rq_keep_alive q then resp else resp\<lparr>rs_keep_alive := False\<rparr>);
                    w = response_wire rs (rq_method q)
                in if \<not> rs_keep_alive rs then (w, h')
                   else (w @ fst (answers handler h' qs), snd (answers handler h' qs)))))"

text \<open>The handler answers each of these requests, with a version that can be written.\<close>

definition proper_on :: "('h \<Rightarrow> Request \<Rightarrow> handler_result \<times> 'h) \<Rightarrow> Request list \<Rightarrow> bool" where
  "proper_on handler qs \<longleftrightarrow>
     (\<forall>h. \<forall>q \<in> set qs. case handler_response (fst (handler h q)) of
              None \<Rightarrow> False
            | Some rs \<Rightarrow> \<not> bad_version (rs_version_minor rs))"

text \<open>No request of the sequence, and no answer to one, closes the connection.\<close>

fun keeps_open :: "('h \<Rightarrow> Request \<Rightarrow> handler_result \<times> 'h) \<Rightarrow> 'h \<Rightarrow> Request list \<Rightarrow> bool" where
  "keeps_open handler h [] = True"
| "keeps_open handler h (q # qs) =
     (case handler h q of
        (res, h') \<Rightarrow>
          (case handler_response res of
             None \<Rightarrow> False
           | Some resp \<Rightarrow> rq_keep_alive q \<and> rs_keep_alive resp \<and> keeps_open handler h' qs))"

lemma answers_append:
  "keeps_open handler h qs \<Longrightarrow>
   answers handler h (qs @ qs') =
     (fst (answers handler h qs) @ fst (answers handler (snd (answers handler h qs)) qs'),
      snd (answers handler (snd (answers handler h qs)) qs'))"
  by (induction qs arbitrary: h) (auto simp: Let_def split: prod.splits option.splits)

lemma keeps_open_append:
  "keeps_open handler h (qs @ qs') \<longleftrightarrow> keeps_open handler h qs \<and> keeps_open handler (snd (answers handler h qs)) qs'"
  by (induction qs arbitrary: h) (auto simp: Let_def split: prod.splits option.splits)

abbreviation arrives :: "request_parser \<Rightarrow> Limits \<Rightarrow> Request \<times> string \<Rightarrow> bool" where
  "arrives parse limits m \<equiv> case m of (rq, host) \<Rightarrow>
     request_fits limits rq host \<and>
     parses_head parse (max_header_count limits) (request_head (sent_request rq host)) (raw_request (sent_request rq host))"

lemma handle_client_loop_answers:
  assumes "conn_clean c" "conn_unread c = concat (map (\<lambda>(rq, host). request_wire rq host) ms) @ rest"
    "list_all (arrives parse (cn_limits c)) ms" "proper_on handler (map (\<lambda>(rq, host). received_request rq host) ms)"
    "sane_limits (cn_limits c)" "length (conn_unread c) < fuel"
    "rest = [] \<or> \<not> keeps_open handler h (map (\<lambda>(rq, host). received_request rq host) ms)"
  shows "\<exists>c'. handle_client_loop fuel parse handler c h =
      (Inr (), c', snd (answers handler h (map (\<lambda>(rq, host). received_request rq host) ms))) \<and>
      outbox (cn_stream c') = outbox (cn_stream c) @ fst (answers handler h (map (\<lambda>(rq, host). received_request rq host) ms))"
  using assms
proof (induction ms arbitrary: c h fuel)
  case Nil
  obtain f where f: "fuel = Suc f" using Nil.prems(6) by (cases fuel) auto
  have "conn_is_open c" using Nil.prems(1) by (simp add: conn_is_open_def conn_clean_def writable_def)
  moreover have "0 < max_header_bytes (cn_limits c)" using Nil.prems(5) by (simp add: sane_limits_def)
  ultimately show ?case
    using read_request_end[OF Nil.prems(1), of parse] Nil.prems(2,7) f by auto
next
  case (Cons m ms)
  obtain rq host where m: "m = (rq, host)" by fastforce
  obtain f where f: "fuel = Suc f" using Cons.prems(6) by (cases fuel) auto
  have op: "conn_is_open c" using Cons.prems(1) by (simp add: conn_is_open_def conn_clean_def writable_def)
  let ?rest = "concat (map (\<lambda>(rq, host). request_wire rq host) ms) @ rest" and ?q = "received_request rq host"
  obtain c1 where c1: "read_request parse c = (Inr (Some ?q), c1)" "conn_clean c1" "conn_unread c1 = ?rest"
    "outbox (cn_stream c1) = outbox (cn_stream c)" "cn_limits c1 = cn_limits c"
    using read_request_wire[OF Cons.prems(1), of rq host ?rest parse] Cons.prems(2,3) m by auto
  obtain res h' where h': "handler h ?q = (res, h')" by fastforce
  have "case handler_response (fst (handler h ?q)) of None \<Rightarrow> False | Some rs \<Rightarrow> \<not> bad_version (rs_version_minor rs)"
    using Cons.prems(4) m unfolding proper_on_def by auto
  then obtain resp where resp: "handler_response res = Some resp" "\<not> bad_version (rs_version_minor resp)"
    using h' by (auto split: option.splits)
  define rs where "rs = (if rq_keep_alive ?q then resp else resp\<lparr>rs_keep_alive := False\<rparr>)"
  have "\<not> bad_version (rs_version_minor rs)" using resp(2) by (simp add: rs_def)
  then obtain c2 where c2: "write_response rs (rq_method ?q) c1 = (Inr (), c2)"
    "wrote (response_wire rs (rq_method ?q)) c1 c2" "writable (cn_stream c2)"
    using write_response_ok[of c1 rs "rq_method ?q"] c1(2) by (auto simp: conn_clean_def)
  have ka: "\<not> rq_keep_alive ?q \<Longrightarrow> \<not> rs_keep_alive rs" by (simp add: rs_def)
  have k2: "conn_clean c2" "conn_unread c2 = ?rest" "cn_limits c2 = cn_limits c"
    using wrote_clean[OF c2(2) c1(2) c2(3)] c1(3,5) c2(2) by (simp_all add: wrote_def)
  have "request_wire rq host \<noteq> []" by (simp add: request_wire_def)
  then have fu: "length (conn_unread c2) < f"
    using Cons.prems(2,6) k2(2) m f by (cases "request_wire rq host") auto
  have po: "proper_on handler (map (\<lambda>(rq, host). received_request rq host) ms)"
    using Cons.prems(4) by (simp add: proper_on_def)
  have end_: "rest = [] \<or> \<not> keeps_open handler h' (map (\<lambda>(rq, host). received_request rq host) ms)"
    if "rq_keep_alive ?q" "rs_keep_alive rs"
    using Cons.prems(7) h' resp(1) m that by (auto simp: rs_def)
  have "\<exists>c3. handle_client_loop f parse handler c2 h' =
      (Inr (), c3, snd (answers handler h' (map (\<lambda>(rq, host). received_request rq host) ms))) \<and>
    outbox (cn_stream c3) = outbox (cn_stream c2) @ fst (answers handler h' (map (\<lambda>(rq, host). received_request rq host) ms))"
    if "rq_keep_alive ?q" "rs_keep_alive rs"
    using Cons.IH[OF k2(1,2) _ po _ fu end_[OF that]] Cons.prems(3,5) k2(3) by auto
  moreover have "handle_client_loop fuel parse handler c h =
      (if \<not> rq_keep_alive ?q \<or> \<not> rs_keep_alive rs then (Inr (), c2, h') else handle_client_loop f parse handler c2 h')"
    using f op c1(1) h' resp(1) c2(1) by (simp add: Let_def rs_def[symmetric] split del: if_split)
  moreover have "answers handler h (?q # qs) =
      (if \<not> rs_keep_alive rs then (response_wire rs (rq_method ?q), h')
       else (response_wire rs (rq_method ?q) @ fst (answers handler h' qs), snd (answers handler h' qs)))" for qs
    using h' resp(1) by (simp add: Let_def rs_def[symmetric] split del: if_split)
  ultimately show ?case
    using c1(4) c2(2) ka m by (auto simp: wrote_def simp del: answers.simps handle_client_loop.simps)
qed

lemma handle_client_answers:
  assumes "clean s" "writable s" "length (incoming s) < 2 ^ 63" "read_buffer s = []"
    and "incoming s = concat (map (\<lambda>(rq, host). request_wire rq host) ms) @ rest"
    and "list_all (arrives parse limits) ms" "proper_on handler (map (\<lambda>(rq, host). received_request rq host) ms)"
    and "sane_limits limits"
    and "rest = [] \<or> \<not> keeps_open handler h (map (\<lambda>(rq, host). received_request rq host) ms)"
  shows "\<exists>c'. handle_client parse handler limits timeouts s h =
      (Inr (), c', snd (answers handler h (map (\<lambda>(rq, host). received_request rq host) ms))) \<and>
      outbox (cn_stream c') = outbox s @ fst (answers handler h (map (\<lambda>(rq, host). received_request rq host) ms)) \<and>
      \<not> conn_is_open c'"
proof -
  let ?c = "Connection s limits timeouts"
  have c: "conn_clean ?c" "conn_unread ?c = incoming s" "cn_limits ?c = limits" "cn_stream ?c = s"
    using assms(1,2,3) by (simp_all add: Connection_def conn_clean_def conn_reader_def reader_clean_def reader_ok_def
        conn_unread_def view_def)
  obtain c1 where "handle_client_loop (Suc (length (incoming s))) parse handler ?c h =
      (Inr (), c1, snd (answers handler h (map (\<lambda>(rq, host). received_request rq host) ms)))"
    "outbox (cn_stream c1) = outbox s @ fst (answers handler h (map (\<lambda>(rq, host). received_request rq host) ms))"
    using handle_client_loop_answers[OF c(1), of ms rest parse handler "Suc (length (incoming s))" h] assms c by auto
  then show ?thesis
    by (auto simp: handle_client_def conn_close_def conn_is_open_def tcp_close_def)
qed

section \<open>Properties\<close>


text \<open>A parser for one head, as the witnesses use it.\<close>

definition one_head_parser :: "string \<Rightarrow> 'p \<Rightarrow> string \<Rightarrow> nat \<Rightarrow> nat \<Rightarrow> int \<times> 'p" where
  "one_head_parser head p s n last_len =
     (if starts_with head s then (int (length head), p) else if starts_with s head then (-2, p) else (-1, p))"

lemma one_head_parser_parses: "parses_head (one_head_parser head p) n head p"
proof -
  have "\<not> starts_with head (take k head)" "starts_with (take k head) head" if "k < length head" for k
    using that by (auto simp: starts_with_take)
  then show ?thesis by (auto simp: parses_head_def one_head_parser_def)
qed

definition sample_request :: Request where
  "sample_request =
     \<lparr>rq_method = ''PUT'', rq_target = [], rq_headers = [Header ''transfer-encoding'' ''gzip''], rq_body = ''hi'',
      rq_trailers = [], rq_version_minor = 1, rq_keep_alive = True, rq_chunked = True\<rparr>"

definition sample_limits :: Limits where
  "sample_limits = \<lparr>max_header_bytes = 200, max_header_count = 5, max_body_bytes = 10\<rparr>"

definition no_timeouts :: IoTimeouts where
  "no_timeouts = \<lparr>to_read_headers = False, to_read_body = False, to_write = False\<rparr>"

lemma sample_request_fits: "request_fits sample_limits sample_request ''h''"
proof -
  have "length (request_head (sent_request sample_request ''h'')) = 79" by code_simp
  moreover have "parse_expect (rq_headers (sent_request sample_request ''h'')) = Expect_None" by code_simp
  ultimately show ?thesis by (simp add: request_fits_def sane_limits_def sample_limits_def sample_request_def)
qed

lemma sample_connection:
  assumes "length w < 2 ^ 63"
  shows "conn_clean (Connection (sample_tcp [UvRead (take 9 w), UvRead (drop 9 w)] []) sample_limits no_timeouts)"
    and "conn_unread (Connection (sample_tcp [UvRead (take 9 w), UvRead (drop 9 w)] []) sample_limits no_timeouts) = w"
  using assms
  by (simp_all add: Connection_def sample_tcp_def conn_clean_def conn_reader_def reader_clean_def reader_ok_def
      clean_def writable_def conn_unread_def view_def incoming_def)




definition echo_handler :: "nat \<Rightarrow> Request \<Rightarrow> handler_result \<times> nat" where
  "echo_handler n q = (Handled (default_response\<lparr>rs_body := rq_body q\<rparr>), Suc n)"


section \<open>Responses across a connection\<close>

lemma read_response_head_ok:
  "reader_clean r \<Longrightarrow> unread r = head @ rest \<Longrightarrow> head \<noteq> [] \<Longrightarrow>
   length head \<le> max_header_bytes limits \<Longrightarrow> parses_head parse (max_header_count limits) head ps \<Longrightarrow>
   \<exists>r'. read_response_head parse limits t last_len r = (Inr (length head, ps), r') \<and>
     reader_clean r' \<and> refilled r r' \<and> length head \<le> length (view (rd_buf r'))"
proof (induction parse limits t last_len r rule: read_response_head.induct)
  case (1 parse limits t last_len r)
  note prems = "1.prems"
  have ok: "reader_ok r" using prems(1) by (simp add: reader_clean_def)
  let ?v = "view (rd_buf r)" and ?n = "max_header_count limits"
  consider (short) "length ?v < length head" "?v = take (length ?v) head"
    | (whole) more where "?v = head @ more" using view_prefix[OF prems(2)] by blast
  then show ?case
  proof cases
    case whole
    then have "parse ?v ?n last_len = (int (length head), ps)" "?v \<noteq> []"
      using prems by (auto simp: parses_head_def)
    with whole prems(1,3) ok show ?thesis
      by (simp add: read_response_head.simps[of parse limits t last_len r])
  next
    case short
    obtain p0 where p0: "parse ?v ?n last_len = (-2, p0)"
      using prems(5) short unfolding parses_head_def by (metis eq_fst_iff)
    have small: "\<not> max_header_bytes limits \<le> buf_size (rd_buf r)"
      using short prems(4) by (simp add: buf_size_view)
    let ?m = "max_header_bytes limits - buf_size (rd_buf r)"
    obtain n r1 where m: "read_more t (max_header_bytes limits) 502 ''response headers too large'' ?m r = (Inr n, r1)"
      and c: "reader_clean r1"
      using read_more_clean[OF prems(1), of ?m "max_header_bytes limits" t 502 "''response headers too large''"] small
      by auto
    have s: "refilled r r1" "n = 0 \<longrightarrow> ?m = 0 \<or> incoming (rd_stream r) = []"
      using read_more_sound[OF m ok] by auto
    have "incoming (rd_stream r) \<noteq> []"
      using prems(2) short by (metis append.right_neutral leD length_append le_add1 unread_def)
    with s(2) small have n: "n \<noteq> 0" by auto
    have u: "unread r1 = head @ rest" using s(1) prems(2) by (simp add: refilled_def)
    have "\<exists>r'. read_response_head parse limits t (buf_size (rd_buf r)) r1 = (Inr (length head, ps), r') \<and>
       reader_clean r' \<and> refilled r1 r' \<and> length head \<le> length (view (rd_buf r'))"
      by (rule "1.IH"[OF refl refl p0[symmetric] _ _ small m[symmetric] refl n c u]) (use prems in auto)
    then obtain r' where "read_response_head parse limits t (buf_size (rd_buf r)) r1 = (Inr (length head, ps), r')"
      "reader_clean r'" "refilled r1 r'" "length head \<le> length (view (rd_buf r'))" by blast
    with p0 small m n s(1) show ?thesis
      by (auto simp: read_response_head.simps[of parse limits t last_len r] intro: refilled_trans)
  qed
qed

lemma read_response_impl_head:
  assumes "reader_clean r" "unread r = head @ rest" "head \<noteq> []" "length head \<le> max_header_bytes limits"
    "parses_head parse (max_header_count limits) head ps" "response_of_head ps = Inr (rs, cl)"
  obtains r1 where "reader_clean r1" "unread r1 = rest" "rd_sink r1 = rd_sink r"
    "read_response_stream_impl (Suc fuel) parse limits timeouts m on_chunk skip r =
       (if informational (rs_status rs) then
          (case skip_body limits timeouts rs cl r1 of
             (Inl e, r2) \<Rightarrow> (Inl e, r2)
           | (Inr _, r2) \<Rightarrow>
               if skip then read_response_stream_impl fuel parse limits timeouts m on_chunk skip r2 else (Inr rs, r2))
        else read_response_body limits timeouts m on_chunk rs cl r1)"
proof -
  let ?t = "\<lparr>t_armed = to_read_headers timeouts, t_status = 504, t_message = ''response header read timeout''\<rparr>"
  obtain r' where r': "read_response_head parse limits ?t 0 r = (Inr (length head, ps), r')"
    "reader_clean r'" "refilled r r'" "length head \<le> length (view (rd_buf r'))"
    using read_response_head_ok[OF assms(1,2,3,4,5), of ?t 0] by blast
  let ?r1 = "r'\<lparr>rd_buf := consume (length head) (rd_buf r')\<rparr>"
  have "reader_ok r'" "unread r' = head @ rest" "rd_sink r' = rd_sink r" "clean (rd_stream r')"
    using r'(2,3) assms(2) by (simp_all add: refilled_def reader_clean_def)
  then have "reader_clean ?r1" "unread ?r1 = rest" "rd_sink ?r1 = rd_sink r"
    using reader_consume[of r' "length head"] r'(4) by simp_all
  with that[of ?r1] r'(1) assms(6) show thesis by (simp add: Let_def)
qed

definition raw_response :: "Response \<Rightarrow> phr_response" where
  "raw_response rs =
     \<lparr>ps_minor_version = rs_version_minor rs, ps_status = rs_status rs, ps_msg = rs_reason rs,
      ps_headers = map raw_header (rs_headers rs)\<rparr>"

lemma response_of_outgoing:
  assumes "length body \<le> size_max"
  shows "response_of_head (raw_response (outgoing_response rs chunked body)) =
     Inr ((outgoing_response rs chunked body)\<lparr>rs_body := [], rs_trailers := []\<rparr>,
          if chunked then None else Some (length body))"
  using assms
  by (cases chunked)
    (auto simp: response_of_head_def raw_response_def copy_raw_headers outgoing_response_def Let_def prepare_read_back)

definition sent_response :: "Response \<Rightarrow> string \<Rightarrow> Response" where
  "sent_response rs m =
     outgoing_response rs (rs_chunked rs \<and> response_has_body (rs_status rs) m)
       (if rs_chunked rs then [] else rs_body rs)"

definition received_response :: "Response \<Rightarrow> string \<Rightarrow> Response" where
  "received_response rs m =
     (let has_body = response_has_body (rs_status rs) m
      in (sent_response rs m)\<lparr>rs_body := (if has_body then rs_body rs else []),
            rs_trailers := (if rs_chunked rs \<and> has_body then rs_trailers rs else [])\<rparr>)"

definition response_fits :: "Limits \<Rightarrow> Response \<Rightarrow> string \<Rightarrow> bool" where
  "response_fits limits rs m \<longleftrightarrow>
     sane_limits limits \<and> \<not> informational (rs_status rs) \<and>
     length (response_head (sent_response rs m)) \<le> max_header_bytes limits \<and>
     length (rs_body rs) \<le> max_body_bytes limits \<and>
     (rs_chunked rs \<longrightarrow> rs_body rs \<noteq> [] \<and> list_all (good_trailer limits) (rs_trailers rs) \<and>
        length (rs_trailers rs) \<le> max_header_count limits)"

lemma response_wire_sent:
  "response_wire rs m =
     response_head (sent_response rs m) @
     (if \<not> response_has_body (rs_status rs) m then []
      else if rs_chunked rs then body_wire [rs_body rs] (rs_trailers rs) else rs_body rs)"
  by (simp add: response_wire_def sent_response_def Let_def)

lemma response_head_nonempty [simp]: "response_head rs \<noteq> []"
  by (simp add: response_head_def)

lemma feed_append_body: "feed append_body k cs = Inr (k @ concat cs)"
  by (induction cs arbitrary: k) (auto simp: append_body_def)

lemma read_response_body_sent:
  assumes "reader_clean r" "rd_sink r = []" and fits: "response_fits limits rs m"
    and "unread r = (if \<not> response_has_body (rs_status rs) m then []
      else if rs_chunked rs then body_wire [rs_body rs] (rs_trailers rs) else rs_body rs) @ rest"
    and chunked: "rs_chunked out = (rs_chunked rs \<and> response_has_body (rs_status rs) m)" "rs_status out = rs_status rs"
  shows "\<exists>r'. read_response_body limits timeouts m append_body out
        (if rs_chunked out then None else Some (length (if rs_chunked rs then [] else rs_body rs))) r =
      (Inr (if rs_chunked out then out\<lparr>rs_trailers := rs_trailers rs\<rparr> else out), r') \<and> unread r' = rest \<and>
      rd_sink r' = (if response_has_body (rs_status rs) m then rs_body rs else [])"
proof -
  consider (none) "\<not> response_has_body (rs_status rs) m"
    | (chunk) "response_has_body (rs_status rs) m" "rs_chunked rs"
    | (fixed) "response_has_body (rs_status rs) m" "\<not> rs_chunked rs" by blast
  then show ?thesis
  proof cases
    case none
    then show ?thesis using assms by (simp add: read_response_body_def)
  next
    case chunk
    then have u: "unread r = body_wire [rs_body rs] (rs_trailers rs) @ rest" using assms(4) by simp
    have "\<exists>r'. read_chunked_loop (chunk_fuel r) (response_tmo timeouts) limits append_body True 0 r =
        (Inr (rs_trailers rs), r') \<and> reader_clean r' \<and> unread r' = rest \<and> rd_sink r' = [] @ concat [rs_body rs]"
      using fits chunk
      by (intro read_chunked_loop_ok[OF assms(1) u _ _ _ _ _ _ body_wire_fuel[OF u]])
        (auto simp: response_fits_def assms(2) append_body_def)
    with chunk chunked show ?thesis
      by (auto simp: read_response_body_def read_chunked_body_stream_def)
  next
    case fixed
    then have u: "unread r = rs_body rs @ rest" using assms(4) by simp
    obtain r' where "read_fixed_loop (response_tmo timeouts) append_body (length (rs_body rs)) r = (Inr (), r')"
      "unread r' = rest" "rd_sink r' = rs_body rs"
      using read_fixed_loop_exact[OF assms(1) u refl refl, of "response_tmo timeouts"] assms(2) by auto
    with fixed chunked fits show ?thesis
      by (simp add: read_response_body_def read_fixed_body_stream_def response_fits_def)
  qed
qed

lemma read_response_wire:
  assumes c: "conn_clean d" "cn_prefetched d = None" and u: "conn_unread d = response_wire rs m @ rest"
    and fits: "response_fits (cn_limits d) rs m"
    and parse: "parses_head parse (max_header_count (cn_limits d)) (response_head (sent_response rs m))
      (raw_response (sent_response rs m))"
  shows "\<exists>d'. read_response parse m d = (Inr (received_response rs m), d') \<and> conn_unread d' = rest"
proof -
  let ?r = "conn_reader d [] :: string reader" and ?out = "sent_response rs m"
  let ?rs = "?out\<lparr>rs_body := [], rs_trailers := []\<rparr>"
  let ?body = "if \<not> response_has_body (rs_status rs) m then []
      else if rs_chunked rs then body_wire [rs_body rs] (rs_trailers rs) else rs_body rs"
  have r: "reader_clean ?r" "rd_sink ?r = []" "unread ?r = response_head ?out @ (?body @ rest)"
    using c u by (simp_all add: conn_reader_facts response_wire_sent)
  have sel: "rs_chunked ?rs = (rs_chunked rs \<and> response_has_body (rs_status rs) m)" "rs_status ?rs = rs_status rs"
    by (simp_all add: sent_response_def outgoing_response_def)
  have "length (rs_body rs) \<le> size_max"
    using fits by (simp add: response_fits_def sane_limits_def size_max_def)
  then have h: "response_of_head (raw_response ?out) =
      Inr (?rs, if rs_chunked ?rs then None else Some (length (if rs_chunked rs then [] else rs_body rs)))"
    unfolding sent_response_def by (subst response_of_outgoing) (simp_all add: outgoing_response_def)
  have lim: "length (response_head ?out) \<le> max_header_bytes (cn_limits d)" "\<not> informational (rs_status ?rs)"
    using fits sel by (simp_all add: response_fits_def)
  obtain r1 where r1: "reader_clean r1" "unread r1 = ?body @ rest" "rd_sink r1 = rd_sink ?r"
    "read_response_stream_impl (response_fuel d) parse (cn_limits d) (cn_timeouts d) m append_body True ?r =
      read_response_body (cn_limits d) (cn_timeouts d) m append_body ?rs
        (if rs_chunked ?rs then None else Some (length (if rs_chunked rs then [] else rs_body rs))) r1"
    unfolding response_fuel_def
    by (rule read_response_impl_head[OF r(1,3) _ lim(1) parse h]) (use lim(2) in auto)
  obtain r' where "read_response_body (cn_limits d) (cn_timeouts d) m append_body ?rs
        (if rs_chunked ?rs then None else Some (length (if rs_chunked rs then [] else rs_body rs))) r1 =
      (Inr (if rs_chunked ?rs then ?rs\<lparr>rs_trailers := rs_trailers rs\<rparr> else ?rs), r')" "unread r' = rest"
      "rd_sink r' = (if response_has_body (rs_status rs) m then rs_body rs else [])"
    using read_response_body_sent[OF r1(1) _ fits r1(2) sel, of "cn_timeouts d"] r1(3) r(2) by auto
  with r1(4) c(2) sel show ?thesis
    by (auto simp: read_response_def read_response_buffered_def conn_after_facts received_response_def Let_def)
qed


definition sample_response :: Response where
  "sample_response = default_response\<lparr>rs_body := ''hello'', rs_keep_alive := False\<rparr>"


section \<open>Ambiguous and malformed messages\<close>

lemma te_tokens_error: "te_tokens ps a b = Inl e \<Longrightarrow> \<exists>m. e = InvalidArgument m"
  by (induction ps a b rule: te_tokens.induct) (auto simp: Let_def split: if_splits)

lemma parse_transfer_encoding_error: "parse_transfer_encoding hs = Inl e \<Longrightarrow> \<exists>m. e = InvalidArgument m"
  by (auto simp: parse_transfer_encoding_def te_headers_tokens dest: te_tokens_error split: sum.splits if_splits)

lemma content_length_error: "content_length_loop hs p = Inl e \<Longrightarrow> \<exists>m. e = HttpError 400 m"
  by (induction hs p rule: content_length_loop.induct) (auto split: if_splits option.splits)

lemma request_of_head_both:
  assumes "te_token_list (copy_headers (pr_headers pr)) \<noteq> []"
    "headers_named (copy_headers (pr_headers pr)) ''Content-Length'' \<noteq> []"
  obtains m where "request_of_head pr = Inl (HttpError 400 m)"
proof (cases "parse_transfer_encoding (copy_headers (pr_headers pr))")
  case (Inl e)
  with parse_transfer_encoding_error[OF Inl] that show thesis by (auto simp: request_of_head_def Let_def)
next
  case (Inr te)
  then have te: "te = TE_Chunked"
    using assms(1) parse_transfer_encoding_iff(2)[of "copy_headers (pr_headers pr)"] by (cases te) auto
  show thesis
  proof (cases "parse_content_length (copy_headers (pr_headers pr))")
    case (Inl e)
    with content_length_error[of "copy_headers (pr_headers pr)" None e] Inr that show thesis
      by (auto simp: request_of_head_def Let_def parse_content_length_def)
  next
    case (Inr cl)
    then have "cl \<noteq> None"
      using assms(2) content_length_loop_None(2)[of "copy_headers (pr_headers pr)"]
      by (auto simp: parse_content_length_def)
    with Inr \<open>parse_transfer_encoding (copy_headers (pr_headers pr)) = Inr te\<close> te that show thesis
      by (auto simp: request_of_head_def Let_def)
  qed
qed

lemma read_request_bad_head:
  assumes "conn_clean c" "conn_unread c = head @ rest" "head \<noteq> []"
    "length head \<le> max_header_bytes (cn_limits c)"
    "parses_head parse (max_header_count (cn_limits c)) head pr" "request_of_head pr = Inl e"
  shows "\<exists>c'. read_request parse c = (Inl e, c') \<and> conn_clean c' \<and> conn_unread c' = head @ rest \<and>
     outbox (cn_stream c') = outbox (cn_stream c)"
proof -
  let ?r = "conn_reader c [] :: string reader"
  let ?t = "\<lparr>t_armed = to_read_headers (cn_timeouts c), t_status = 408, t_message = ''request header read timeout''\<rparr>"
  have r: "reader_clean ?r" "unread ?r = head @ rest" using assms by (simp_all add: conn_reader_facts)
  obtain r' where r': "read_request_head parse (cn_limits c) ?t 0 ?r = (Inr (Some (length head, pr)), r')"
    "reader_clean r'" "refilled ?r r'"
    using read_request_head_ok[OF r assms(3,4,5), of ?t 0] by blast
  have w: "same_writes (cn_stream c) (rd_stream r')"
    using read_request_head_writes[of ?r parse "cn_limits c" ?t 0] r'(1) by (simp add: conn_reader_facts)
  then have "writable (rd_stream r')" using assms(1) same_writes_writable by (auto simp: conn_clean_def)
  then show ?thesis
    using r' r(2) assms(6) w
    by (simp add: read_request_def read_request_stream_def conn_after_facts refilled_def same_writes_def)
qed


definition smuggling_request :: phr_request where
  "smuggling_request =
     \<lparr>pr_method = ''POST'', pr_path = ''/'', pr_minor_version = 1,
      pr_headers = [raw_header (Header ''Content-Length'' ''3''), raw_header (Header ''transfer-encoding'' ''Chunked'')]\<rparr>"


section \<open>Interim responses\<close>

lemma read_response_body_status:
  "read_response_body limits timeouts m on_chunk rs cl r = (Inr rs', r') \<Longrightarrow> rs_status rs' = rs_status rs"
  by (auto simp: read_response_body_def split: if_splits prod.splits sum.splits option.splits)

lemma read_response_impl_final:
  "read_response_stream_impl fuel parse limits timeouts m on_chunk True r = (Inr rs, r') \<Longrightarrow>
   \<not> informational (rs_status rs)"
  by (induction fuel arbitrary: r)
    (auto simp: Let_def dest: read_response_body_status split: prod.splits sum.splits if_splits)

text \<open>A response read from the network is never an interim one: every 1xx response except 101 is skipped
  until a final response arrives.\<close>

theorem read_response_final:
  assumes "read_response parse m c = (Inr rs, c')" "cn_prefetched c = None"
  shows "\<not> informational (rs_status rs)"
  using assms read_response_impl_final[of "response_fuel c" parse "cn_limits c" "cn_timeouts c" m append_body
      "conn_reader c []"]
  by (auto simp: read_response_def read_response_buffered_def map_result_eq_Inr split: prod.splits)

definition bare_head :: "int \<Rightarrow> phr_response" where
  "bare_head status = \<lparr>ps_minor_version = 1, ps_status = status, ps_msg = [], ps_headers = []\<rparr>"

definition bare_response :: "int \<Rightarrow> Response" where
  "bare_response status = default_response\<lparr>rs_status := status\<rparr>"

lemma response_of_bare_head: "response_of_head (bare_head status) = Inr (bare_response status, None)"
  by (simp add: response_of_head_def bare_head_def bare_response_def default_response_def copy_headers_def Let_def
      parse_transfer_encoding_def parse_content_length_def should_keep_alive_def header_contains_token_def)

text \<open>A reply that consists of a bare head, read on a fresh connection.\<close>

lemma read_bare_response:
  assumes "conn_clean c" "conn_unread c = ''R'' @ rest" "cn_limits c = sample_limits"
    "skip \<longrightarrow> \<not> informational status"
  shows "\<exists>c'. read_response_buffered (one_head_parser ''R'' (bare_head status)) m skip c =
      (Inr (bare_response status), c') \<and> conn_unread c' = rest"
proof -
  let ?r = "conn_reader c [] :: string reader"
  have r: "reader_clean ?r" "unread ?r = ''R'' @ rest" using assms by (simp_all add: conn_reader_facts)
  let ?p = "one_head_parser ''R'' (bare_head status)" and ?rs = "bare_response status"
  obtain n where n: "response_fuel c = Suc n" by (simp add: response_fuel_def)
  obtain r1 where r1: "reader_clean r1" "unread r1 = rest" "rd_sink r1 = rd_sink ?r"
    "read_response_stream_impl (Suc n) ?p (cn_limits c) (cn_timeouts c) m append_body skip ?r =
       (if informational (rs_status ?rs) then
          (case skip_body (cn_limits c) (cn_timeouts c) ?rs None r1 of
             (Inl e, r2) \<Rightarrow> (Inl e, r2)
           | (Inr _, r2) \<Rightarrow>
               if skip then read_response_stream_impl n ?p (cn_limits c) (cn_timeouts c) m append_body skip r2
               else (Inr ?rs, r2))
        else read_response_body (cn_limits c) (cn_timeouts c) m append_body ?rs None r1)"
    by (rule read_response_impl_head[OF r _ _ one_head_parser_parses response_of_bare_head,
          where limits = "cn_limits c"]) (simp_all add: assms(3) sample_limits_def)
  then have "read_response_stream_impl (response_fuel c) ?p (cn_limits c) (cn_timeouts c) m append_body skip ?r = (Inr ?rs, r1)"
    using assms(4)
    by (auto simp: n skip_body_def read_response_body_def bare_response_def default_response_def
        simp del: read_response_stream_impl.simps)
  then show ?thesis
    using r1(2,3) by (simp add: read_response_buffered_def conn_after_facts conn_reader_facts bare_response_def
        default_response_def)
qed

theorem read_response_final_witness:
  "\<not> informational (rs_status (bare_response 204))"
proof -
  let ?c = "Connection (sample_tcp [UvRead (take 9 ''R''), UvRead (drop 9 ''R'')] []) sample_limits no_timeouts"
  have c: "conn_clean ?c" "conn_unread ?c = ''R'' @ []" "cn_limits ?c = sample_limits" "cn_prefetched ?c = None"
    using sample_connection[of "''R''"] by (simp_all add: Connection_def)
  obtain c' where "read_response (one_head_parser ''R'' (bare_head 204)) ''GET'' ?c = (Inr (bare_response 204), c')"
    using read_bare_response[OF c(1,2,3), of True 204 "''GET''"] c(4) by (auto simp: read_response_def informational_def)
  then show ?thesis using c(4) by (rule read_response_final)
qed

text \<open>While a request waits for 100 Continue, any other interim response, such as 103, is taken for the
  answer: write_request returns without sending the body, and read_response returns the interim
  response as if it were final.\<close>

theorem interim_taken_as_answer:
  assumes "\<not> rq_chunked rq" "\<not> bad_version (rq_version_minor rq)" "rq_body rq \<noteq> []"
    "expects_continue (rq_headers (sent_request rq host))"
    and "conn_send ''request write timeout'' (request_head (sent_request rq host)) c = (Inr (), c1)"
    and "read_response_buffered parse (rq_method rq) False c1 = (Inr rs, c2)" "rs_status rs = 103"
  shows "\<exists>c3. write_request parse rq host c = (Inr (), c3) \<and> cn_stream c3 = cn_stream c2 \<and>
     fst (read_response parse (rq_method rq) c3) = Inr rs \<and> informational (rs_status rs)"
  using assms
  by (simp add: write_request_def sent_request_def outgoing_request_def Let_def await_continue_def read_response_def
      informational_def)

theorem interim_taken_as_answer_witness:
  "\<exists>c3. write_request (one_head_parser ''R'' (bare_head 103))
       (sample_request\<lparr>rq_chunked := False, rq_headers := [Header ''Expect'' ''100-continue'']\<rparr>) ''h''
       (Connection (sample_tcp [UvRead (take 9 ''R''), UvRead (drop 9 ''R'')] []) sample_limits no_timeouts) = (Inr (), c3) \<and>
     fst (read_response (one_head_parser ''R'' (bare_head 103)) ''PUT'' c3) = Inr (bare_response 103)"
proof -
  let ?c = "Connection (sample_tcp [UvRead (take 9 ''R''), UvRead (drop 9 ''R'')] []) sample_limits no_timeouts"
  let ?rq = "sample_request\<lparr>rq_chunked := False, rq_headers := [Header ''Expect'' ''100-continue'']\<rparr>"
  have c: "conn_clean ?c" "conn_unread ?c = ''R'' @ []" using sample_connection[of "''R''"] by simp_all
  have "writable (cn_stream ?c)" using c(1) by (simp add: conn_clean_def)
  then obtain c1 where c1: "conn_send ''request write timeout'' (request_head (sent_request ?rq ''h'')) ?c = (Inr (), c1)"
    "wrote (request_head (sent_request ?rq ''h'')) ?c c1" "writable (cn_stream c1)"
    using conn_send_wrote_ok by blast
  have k1: "conn_clean c1" "conn_unread c1 = ''R'' @ []" "cn_limits c1 = sample_limits"
    using wrote_clean[OF c1(2) c(1) c1(3)] c(2) c1(2) by (simp_all add: wrote_def Connection_def)
  obtain c2 where c2: "read_response_buffered (one_head_parser ''R'' (bare_head 103)) ''PUT'' False c1 =
      (Inr (bare_response 103), c2)"
    using read_bare_response[OF k1, of False 103 "''PUT''"] by auto
  have e: "expects_continue (rq_headers (sent_request ?rq ''h''))" by code_simp
  show ?thesis
    using interim_taken_as_answer[OF _ _ _ e c1(1), of "one_head_parser ''R'' (bare_head 103)" "bare_response 103" c2] c2
    by (auto simp: sample_request_def bad_version_def bare_response_def)
qed

text \<open>A response without a Content-Length and without a Transfer-Encoding on a persistent connection is
  delivered with an empty body, although such a body extends to the end of the connection; its
  bytes stay in the buffer and are read as the next response.\<close>

theorem unframed_response_body_dropped:
  assumes "conn_clean c" "cn_prefetched c = None" "conn_unread c = head @ body" "head \<noteq> []"
    and "length head \<le> max_header_bytes (cn_limits c)" "parses_head parse (max_header_count (cn_limits c)) head ps"
    and "response_of_head ps = Inr (rs, None)" "\<not> rs_chunked rs" "rs_keep_alive rs" "\<not> informational (rs_status rs)"
  shows "\<exists>c'. read_response parse m c = (Inr (rs\<lparr>rs_body := []\<rparr>), c') \<and> conn_unread c' = body"
proof -
  let ?r = "conn_reader c [] :: string reader"
  have r: "reader_clean ?r" "unread ?r = head @ body" using assms by (simp_all add: conn_reader_facts)
  obtain r1 where r1: "unread r1 = body" "rd_sink r1 = []"
    "read_response_stream_impl (response_fuel c) parse (cn_limits c) (cn_timeouts c) m append_body True ?r =
       read_response_body (cn_limits c) (cn_timeouts c) m append_body rs None r1"
    unfolding response_fuel_def
    by (rule read_response_impl_head[OF r assms(4,5,6,7)]) (use assms(10) in \<open>auto simp: conn_reader_facts\<close>)
  then show ?thesis
    using assms(2,8,9)
    by (auto simp: read_response_def read_response_buffered_def read_response_body_def conn_after_facts)
qed

theorem unframed_response_body_dropped_witness:
  "\<exists>c'. read_response (one_head_parser ''R'' (bare_head 200)) ''GET''
       (Connection (sample_tcp [UvRead (take 9 ''Rbody''), UvRead (drop 9 ''Rbody'')] []) sample_limits no_timeouts) =
       (Inr ((bare_response 200)\<lparr>rs_body := []\<rparr>), c') \<and> conn_unread c' = ''body''"
proof -
  let ?c = "Connection (sample_tcp [UvRead (take 9 ''Rbody''), UvRead (drop 9 ''Rbody'')] []) sample_limits no_timeouts"
  have "conn_clean ?c" "conn_unread ?c = ''R'' @ ''body''" "cn_limits ?c = sample_limits" "cn_prefetched ?c = None"
    using sample_connection[of "''Rbody''"] by (simp_all add: Connection_def)
  then show ?thesis
    by (intro unframed_response_body_dropped[where head = "''R''" and ps = "bare_head 200"])
      (auto simp: one_head_parser_parses response_of_bare_head sample_limits_def bare_response_def default_response_def
        informational_def)
qed

end
