(* ===== verification/Percent.thy ===== *)
theory Percent
  imports Prelude
begin

text \<open>
  Percent escapes. Three components decode them (form values in src/http.cpp,
  extended file names in src/multipart.cpp, connection URLs in src/sql.cpp);
  each has its own loop and its own exception. The locale pct_decoder states
  what the loops have in common, and shows once that such a loop inverts any
  escaping that leaves only plain characters unescaped.
\<close>

text \<open>The lambda hex_value of the three decoders; the result -1 is None.\<close>

definition hex_value :: "char \<Rightarrow> nat option" where
  "hex_value c =
     (if is_digit c then Some (ord c - 48)
      else if 97 \<le> ord c \<and> ord c \<le> 102 then Some (10 + (ord c - 97))
      else if 65 \<le> ord c \<and> ord c \<le> 70 then Some (10 + (ord c - 65))
      else None)"

text \<open>The byte (hi << 4) | lo of two hexadecimal digits.\<close>

definition hex_byte :: "nat \<Rightarrow> nat \<Rightarrow> char" where
  "hex_byte hi lo = char_of (16 * hi + lo)"

definition hex_upper :: "nat \<Rightarrow> char" where
  "hex_upper d = ''0123456789ABCDEF'' ! d"

text \<open>The escape of a byte: a percent sign and its two digits in upper case.\<close>

definition pct_escape :: "char \<Rightarrow> string" where
  "pct_escape c = [CHR ''%'', hex_upper (ord c div 16), hex_upper (ord c mod 16)]"

lemma hex_value_upper: "d < 16 \<Longrightarrow> hex_value (hex_upper d) = Some d"
proof -
  have "\<forall>d \<in> set [0..<16]. hex_value (hex_upper d) = Some d" by code_simp
  then show "d < 16 \<Longrightarrow> ?thesis" by simp
qed

lemma hex_value_less: "hex_value c = Some d \<Longrightarrow> d < 16"
  by (auto simp: hex_value_def is_digit_def split: if_splits)

lemma hex_byte_split: "hex_byte (ord c div 16) (ord c mod 16) = c"
  by (simp add: hex_byte_def)

locale pct_decoder =
  fixes dec :: "string \<Rightarrow> string result" and plain :: "char \<Rightarrow> bool"
  assumes dec_Nil: "dec [] = Inr []"
    and dec_plain: "plain c \<Longrightarrow> dec (c # s) = map_result (Cons c) (dec s)"
    and dec_hex: "hex_value h = Some hi \<Longrightarrow> hex_value l = Some lo \<Longrightarrow>
       dec (CHR ''%'' # h # l # s) = map_result (Cons (hex_byte hi lo)) (dec s)"
begin

lemma dec_escape: "dec (pct_escape c @ s) = map_result (Cons c) (dec s)"
  by (simp add: pct_escape_def dec_hex hex_value_upper less_mult_imp_div_less hex_byte_split)

text \<open>Any encoder that writes each byte plain or escaped is inverted.\<close>

lemma dec_concat:
  assumes "\<And>c. c \<in> set s \<Longrightarrow> enc c = pct_escape c \<or> (plain c \<and> enc c = [c])"
  shows "dec (concat (map enc s)) = Inr s"
  using assms
proof (induction s)
  case Nil
  then show ?case by (simp add: dec_Nil)
next
  case (Cons c s)
  then have "dec (concat (map enc s)) = Inr s" by simp
  with Cons.prems[of c] show ?case by (auto simp: dec_escape dec_plain)
qed

lemma dec_plain_all: "(\<And>c. c \<in> set s \<Longrightarrow> plain c) \<Longrightarrow> dec s = Inr s"
  using dec_concat[of s "\<lambda>c. [c]"] by simp

end

end
