(* ===== verification/Http_Form.thy ===== *)
theory Http_Form
  imports Http_Headers Percent
begin

text \<open>
  application/x-www-form-urlencoded values of src/http.cpp: encoding and
  decoding of one value, parsing and serialising a field list, lookups.
\<close>

record FormField =
  ff_name :: string
  ff_value :: string

type_synonym FormFields = "FormField list"

definition Field :: "string \<Rightarrow> string \<Rightarrow> FormField" where
  "Field n v = \<lparr>ff_name = n, ff_value = v\<rparr>"

lemma Field_sel [simp]: "ff_name (Field n v) = n" "ff_value (Field n v) = v"
  by (simp_all add: Field_def)

lemma Field_eta [simp]: "Field (ff_name f) (ff_value f) = f"
  by (simp add: Field_def)

definition is_form_urlencoded_content_type :: "string \<Rightarrow> bool" where
  "is_form_urlencoded_content_type content_type =
     iequals (trim_copy (head_to (find_char (CHR '';'') content_type) content_type))
       ''application/x-www-form-urlencoded''"

definition form_unreserved :: "char \<Rightarrow> bool" where
  "form_unreserved c \<longleftrightarrow> is_alnum c \<or> c = CHR ''-'' \<or> c = CHR ''_'' \<or> c = CHR ''.'' \<or> c = CHR ''*''"

definition form_urlencode_char :: "char \<Rightarrow> string" where
  "form_urlencode_char c =
     (if form_unreserved c then [c] else if c = CHR '' '' then ''+'' else pct_escape c)"

definition form_urlencode :: "string \<Rightarrow> string" where
  "form_urlencode v = concat (map form_urlencode_char v)"

definition form_pct_error :: exn where
  "form_pct_error = InvalidArgument ''corouv::http invalid percent-encoding in form value''"

text \<open>The test i + 2 >= size says that fewer than two characters follow the percent sign.\<close>

fun form_urldecode :: "string \<Rightarrow> string result" where
  "form_urldecode [] = Inr []"
| "form_urldecode (c # cs) =
     (if c = CHR ''+'' then map_result (Cons (CHR '' '')) (form_urldecode cs)
      else if c \<noteq> CHR ''%'' then map_result (Cons c) (form_urldecode cs)
      else case cs of
             h # l # rest \<Rightarrow>
               (case (hex_value h, hex_value l) of
                  (Some hi, Some lo) \<Rightarrow> map_result (Cons (hex_byte hi lo)) (form_urldecode rest)
                | _ \<Rightarrow> Inl form_pct_error)
           | _ \<Rightarrow> Inl form_pct_error)"

definition parse_form_token :: "string \<Rightarrow> FormField result" where
  "parse_form_token token =
     (let eq = find_char (CHR ''='') token;
          encoded_name = head_to eq token;
          encoded_value = (case eq of None \<Rightarrow> [] | Some i \<Rightarrow> drop (Suc i) token)
      in case form_urldecode encoded_name of
           Inl e \<Rightarrow> Inl e
         | Inr n \<Rightarrow> map_result (Field n) (form_urldecode encoded_value))"

text \<open>One turn of the loop per token; body is what starts at the cursor.\<close>

function parse_form_loop :: "string \<Rightarrow> nat \<Rightarrow> FormFields \<Rightarrow> FormFields result" where
  "parse_form_loop body max_fields flds =
     (let amp = find_char (CHR ''&'') body;
          token = head_to amp body;
          flds' = (if token = [] then Inr flds
                     else case parse_form_token token of
                            Inl e \<Rightarrow> Inl e
                          | Inr f \<Rightarrow>
                              if length (flds @ [f]) > max_fields
                              then Inl (RuntimeError ''corouv::http too many form fields'')
                              else Inr (flds @ [f]))
      in case flds' of
           Inl e \<Rightarrow> Inl e
         | Inr fs \<Rightarrow>
             (case amp of
                None \<Rightarrow> Inr fs
              | Some i \<Rightarrow> parse_form_loop (drop (Suc i) body) max_fields fs))"
  by pat_completeness auto
termination
  by (relation "measure (\<lambda>(body, _, _). length body)") (auto dest: find_char_length find_char_length[OF sym])

declare parse_form_loop.simps [simp del]

definition parse_form_urlencoded :: "string \<Rightarrow> nat \<Rightarrow> FormFields result" where
  "parse_form_urlencoded body max_fields = parse_form_loop body max_fields []"

definition parse_form_urlencoded_request :: "headers \<Rightarrow> string \<Rightarrow> nat \<Rightarrow> FormFields result" where
  "parse_form_urlencoded_request hs body max_fields =
     (case find_header hs ''Content-Type'' of
        None \<Rightarrow> Inl (RuntimeError ''corouv::http request missing Content-Type header'')
      | Some ct \<Rightarrow>
          if \<not> is_form_urlencoded_content_type ct
          then Inl (RuntimeError ''corouv::http request Content-Type is not application/x-www-form-urlencoded'')
          else parse_form_urlencoded body max_fields)"

definition serialize_form_field :: "FormField \<Rightarrow> string" where
  "serialize_form_field f = form_urlencode (ff_name f) @ ''='' @ form_urlencode (ff_value f)"

fun serialize_form_urlencoded :: "FormFields \<Rightarrow> string" where
  "serialize_form_urlencoded [] = []"
| "serialize_form_urlencoded [f] = serialize_form_field f"
| "serialize_form_urlencoded (f # fs) =
     serialize_form_field f @ ''&'' @ serialize_form_urlencoded fs"

primrec find_form_value :: "FormFields \<Rightarrow> string \<Rightarrow> string option" where
  "find_form_value [] name = None"
| "find_form_value (f # fs) name =
     (if ff_name f = name then Some (ff_value f) else find_form_value fs name)"

definition find_form_values :: "FormFields \<Rightarrow> string \<Rightarrow> string list" where
  "find_form_values fs name = map ff_value (filter (\<lambda>f. ff_name f = name) fs)"

section \<open>Decoding inverts encoding\<close>

interpretation form: pct_decoder form_urldecode "\<lambda>c. c \<noteq> CHR ''%'' \<and> c \<noteq> CHR ''+''"
  by unfold_locales auto

lemma form_urldecode_plus: "form_urldecode (CHR ''+'' # s) = map_result (Cons (CHR '' '')) (form_urldecode s)"
  by simp

lemma form_unreserved_plain: "form_unreserved c \<Longrightarrow> c \<noteq> CHR ''%'' \<and> c \<noteq> CHR ''+''"
  by (auto simp: form_unreserved_def char_simps)

lemma form_urldecode_urlencode: "form_urldecode (form_urlencode v) = Inr v"
proof (induction v)
  case (Cons c v)
  show ?case
  proof (cases "form_unreserved c \<or> c \<noteq> CHR '' ''")
    case True
    with Cons show ?thesis
      by (auto simp: form_urlencode_def form_urlencode_char_def form.dec_plain form.dec_escape
          simp del: form_urldecode.simps dest: form_unreserved_plain)
  next
    case False
    with Cons show ?thesis
      by (simp add: form_urlencode_def form_urlencode_char_def)
  qed
qed (simp add: form_urlencode_def)

lemma hex_upper_alnum: "d < 16 \<Longrightarrow> is_alnum (hex_upper d)"
proof -
  have "\<forall>d \<in> set [0..<16]. is_alnum (hex_upper d)" by code_simp
  then show "d < 16 \<Longrightarrow> ?thesis" by simp
qed

lemma form_urlencode_chars:
  "x \<in> set (form_urlencode v) \<Longrightarrow> form_unreserved x \<or> x = CHR ''+'' \<or> x = CHR ''%''"
  by (auto simp: form_urlencode_def form_urlencode_char_def pct_escape_def form_unreserved_def
      hex_upper_alnum less_mult_imp_div_less split: if_splits)

lemma form_urlencode_no_sep:
  "CHR ''&'' \<notin> set (form_urlencode v)" "CHR ''='' \<notin> set (form_urlencode v)"
  using form_urlencode_chars[of "CHR ''&''" v] form_urlencode_chars[of "CHR ''=''" v]
  by (auto simp: form_unreserved_def char_simps)

section \<open>Parsing inverts serialising\<close>

lemma parse_form_token_serialize: "parse_form_token (serialize_form_field f) = Inr f"
  by (simp add: parse_form_token_def serialize_form_field_def find_char_append form_urlencode_no_sep
      form_urldecode_urlencode Let_def)

lemma serialize_form_field_amp: "CHR ''&'' \<notin> set (serialize_form_field f)"
  by (simp add: serialize_form_field_def form_urlencode_no_sep)

lemma serialize_form_field_nonempty [simp]: "serialize_form_field f \<noteq> []"
  by (simp add: serialize_form_field_def)

lemma parse_form_loop_serialize:
  "length acc + length fs \<le> max_fields \<Longrightarrow>
   parse_form_loop (serialize_form_urlencoded fs) max_fields acc = Inr (acc @ fs)"
proof (induction fs arbitrary: acc rule: serialize_form_urlencoded.induct)
  case 1
  then show ?case by (simp add: parse_form_loop.simps)
next
  case (2 f)
  have "find_char (CHR ''&'') (serialize_form_field f) = None"
    by (simp add: find_char_None serialize_form_field_amp)
  with 2 show ?case
    by (simp add: parse_form_loop.simps parse_form_token_serialize)
next
  case (3 f g fs)
  let ?rest = "serialize_form_urlencoded (g # fs)"
  have "find_char (CHR ''&'') (serialize_form_field f @ CHR ''&'' # ?rest) =
      Some (length (serialize_form_field f))"
    by (rule find_char_append) (rule serialize_form_field_amp)
  moreover have "parse_form_loop ?rest max_fields (acc @ [f]) = Inr ((acc @ [f]) @ g # fs)"
    using 3 by simp
  ultimately show ?case using 3(2)
    by (simp add: parse_form_loop.simps[of "serialize_form_field f @ CHR ''&'' # ?rest"]
        parse_form_token_serialize)
qed

lemma parse_form_loop_bound:
  "parse_form_loop body max_fields acc = Inr fs \<Longrightarrow> length acc \<le> max_fields \<Longrightarrow>
   length fs \<le> max_fields"
proof (induction body max_fields acc rule: parse_form_loop.induct)
  case (1 body max_fields flds)
  from "1.prems"(1) show ?case
    apply (subst (asm) parse_form_loop.simps)
    apply (auto simp: Let_def split: if_splits sum.splits option.splits)
    using "1.IH" "1.prems"(2) by fastforce+
qed

section \<open>Properties\<close>

text \<open>Parsing inverts serialising for every list of form fields, names and values being
  arbitrary bytes, as long as the list is within the field limit.\<close>

theorem form_fields_roundtrip:
  assumes "length fs \<le> max_fields"
  shows "parse_form_urlencoded (serialize_form_urlencoded fs) max_fields = Inr fs"
  using assms by (simp add: parse_form_urlencoded_def parse_form_loop_serialize)

theorem form_fields_roundtrip_witness:
  "parse_form_urlencoded (serialize_form_urlencoded [Field ''a b'' ''x&y=z%'', Field [] []]) 2 =
     Inr [Field ''a b'' ''x&y=z%'', Field [] []]"
  by (rule form_fields_roundtrip) simp

text \<open>A form body that is accepted has at most max_fields fields.\<close>

theorem form_fields_bounded:
  assumes "parse_form_urlencoded body max_fields = Inr fs"
  shows "length fs \<le> max_fields"
  using assms parse_form_loop_bound[of body max_fields "[]" fs] by (simp add: parse_form_urlencoded_def)

theorem form_fields_bounded_witness:
  "length [Field ''a b'' ''1'', Field ''c'' []] \<le> 2"
  by (rule form_fields_bounded[of "''a+b=1&&c''"]) code_simp

end
