(* ===== verification/Multipart.thy ===== *)
theory Multipart
  imports Http_Headers Percent
begin

text \<open>
  multipart/form-data of src/multipart.cpp: the Content-Disposition parser, the
  part header block, boundary extraction, the parser and the serialiser. The
  cursor of the parser is the remaining body. The file's own iequals and
  trim_copy are the ones of src/http.cpp.
\<close>

record Part =
  p_name :: string
  p_filename :: "string option"
  p_content_type :: string
  p_headers :: headers
  p_body :: string

definition empty_part :: Part where
  "empty_part = \<lparr>p_name = [], p_filename = None, p_content_type = [], p_headers = [], p_body = []\<rparr>"

text \<open>The inside of a quoted string; a backslash before the last inner character stands for itself.\<close>

fun unescape :: "string \<Rightarrow> string" where
  "unescape [] = []"
| "unescape [c] = [c]"
| "unescape (c # d # cs) = (if c = CHR 0x5C then d # unescape cs else c # unescape (d # cs))"

definition unquote :: "string \<Rightarrow> string" where
  "unquote v =
     (if length v \<ge> 2 \<and> hd v = dquote \<and> last v = dquote then unescape (butlast (tl v)) else trim_copy v)"

definition mp_pct_error :: exn where
  "mp_pct_error = RuntimeError ''corouv::multipart invalid percent-encoding''"

fun decode_percent_escaped :: "string \<Rightarrow> string result" where
  "decode_percent_escaped [] = Inr []"
| "decode_percent_escaped (c # cs) =
     (if c \<noteq> CHR ''%'' then map_result (Cons c) (decode_percent_escaped cs)
      else case cs of
             h # l # rest \<Rightarrow>
               (case (hex_value h, hex_value l) of
                  (Some hi, Some lo) \<Rightarrow> map_result (Cons (hex_byte hi lo)) (decode_percent_escaped rest)
                | _ \<Rightarrow> Inl mp_pct_error)
           | _ \<Rightarrow> Inl mp_pct_error)"

text \<open>The walk over a header value at its semicolons.\<close>

function semi_parts :: "string \<Rightarrow> string list" where
  "semi_parts v =
     (if v = [] then []
      else case find_char (CHR '';'') v of
             None \<Rightarrow> [v]
           | Some semi \<Rightarrow> take semi v # semi_parts (drop (Suc semi) v))"
  by pat_completeness auto
termination
  by (relation "measure length") (auto dest: find_char_length)

declare semi_parts.simps [simp del]

definition semi_tokens :: "string \<Rightarrow> string list" where
  "semi_tokens v = filter (\<lambda>t. t \<noteq> []) (map trim_copy (semi_parts v))"

text \<open>The value of filename*: what follows the second quote, decoded.\<close>

definition ext_filename :: "string \<Rightarrow> string result" where
  "ext_filename v =
     decode_percent_escaped
       (case find_char (CHR 0x27) v of
          None \<Rightarrow> v
        | Some q1 \<Rightarrow>
            (case find_char (CHR 0x27) (drop (Suc q1) v) of
               None \<Rightarrow> v
             | Some q2 \<Rightarrow> drop (Suc (Suc q1 + q2)) v))"

text \<open>The parameters after the disposition type: name, filename and filename* as found so far.\<close>

fun disposition_params ::
  "string list \<Rightarrow> string \<times> string option \<times> string option \<Rightarrow> (string \<times> string option \<times> string option) result" where
  "disposition_params [] acc = Inr acc"
| "disposition_params (token # tokens) (name, filename, filename_ext) =
     (case find_char (CHR ''='') token of
        None \<Rightarrow> disposition_params tokens (name, filename, filename_ext)
      | Some eq \<Rightarrow>
          (let key = trim_copy (take eq token);
               parsed_value = unquote (drop (Suc eq) token)
           in if iequals key ''name'' then disposition_params tokens (parsed_value, filename, filename_ext)
              else if iequals key ''filename'' then disposition_params tokens (name, Some parsed_value, filename_ext)
              else if iequals key ''filename*'' then
                (case ext_filename parsed_value of
                   Inl e \<Rightarrow> Inl e
                 | Inr f \<Rightarrow> disposition_params tokens (name, filename, Some f))
              else disposition_params tokens (name, filename, filename_ext)))"

definition parse_content_disposition :: "Part \<Rightarrow> string \<Rightarrow> Part result" where
  "parse_content_disposition part v =
     (let tokens = semi_tokens v
      in if tokens \<noteq> [] \<and> \<not> iequals (hd tokens) ''form-data''
         then Inl (RuntimeError ''corouv::multipart expected form-data content disposition'')
         else map_result
                (\<lambda>(name, filename, filename_ext).
                   part\<lparr>p_name := name,
                        p_filename := (if filename_ext \<noteq> None then filename_ext
                                       else if filename \<noteq> None then filename
                                       else p_filename part)\<rparr>)
                (disposition_params (tl tokens) (p_name part, None, None)))"

function parse_headers_block :: "string \<Rightarrow> headers result" where
  "parse_headers_block block =
     (if block = [] then Inr []
      else let end = find_sub crlf block;
               line = head_to end block
           in if line = [] then Inr []
              else case find_char (CHR '':'') line of
                     None \<Rightarrow> Inl (RuntimeError ''corouv::multipart malformed part header'')
                   | Some colon \<Rightarrow>
                       (let h = Header (trim_copy (take colon line)) (trim_copy (drop (Suc colon) line))
                        in case end of
                             None \<Rightarrow> Inr [h]
                           | Some e \<Rightarrow> map_result (Cons h) (parse_headers_block (drop (e + 2) block))))"
  by pat_completeness auto
termination
  by (relation "measure length") (auto dest: find_sub_length find_sub_length[OF sym])

declare parse_headers_block.simps [simp del]

fun boundary_param :: "string list \<Rightarrow> string option" where
  "boundary_param [] = None"
| "boundary_param (token # tokens) =
     (case find_char (CHR ''='') token of
        None \<Rightarrow> boundary_param tokens
      | Some eq \<Rightarrow>
          if \<not> iequals (trim_copy (take eq token)) ''boundary'' then boundary_param tokens
          else Some (unquote (drop (Suc eq) token)))"

definition boundary_from_content_type :: "string \<Rightarrow> string option" where
  "boundary_from_content_type content_type =
     (let tokens = semi_tokens content_type
      in if tokens \<noteq> [] \<and> \<not> iequals (hd tokens) ''multipart/form-data'' then None
         else boundary_param (tl tokens))"

text \<open>The loop over a part's headers that fills in name, filename and content type.\<close>

fun part_headers :: "headers \<Rightarrow> Part \<Rightarrow> Part result" where
  "part_headers [] part = Inr part"
| "part_headers (h # hs) part =
     (if iequals (hname h) ''Content-Disposition'' then
        (case parse_content_disposition part (hvalue h) of
           Inl e \<Rightarrow> Inl e
         | Inr part' \<Rightarrow> part_headers hs part')
      else if iequals (hname h) ''Content-Type'' then part_headers hs (part\<lparr>p_content_type := hvalue h\<rparr>)
      else part_headers hs part)"

text \<open>One part, after its boundary line: the part and what follows its closing marker.\<close>

definition parse_part :: "string \<Rightarrow> nat \<Rightarrow> string \<Rightarrow> (Part \<times> string) result" where
  "parse_part boundary max_part_bytes rest =
     (case find_sub (crlf @ crlf) rest of
        None \<Rightarrow> Inl (RuntimeError ''corouv::multipart missing part headers'')
      | Some headers_end \<Rightarrow>
          (case parse_headers_block (take headers_end rest) of
             Inl e \<Rightarrow> Inl e
           | Inr hs \<Rightarrow>
               (case part_headers hs (empty_part\<lparr>p_headers := hs\<rparr>) of
                  Inl e \<Rightarrow> Inl e
                | Inr part \<Rightarrow>
                    (let content = drop (headers_end + 4) rest
                     in if p_name part = [] then
                          Inl (RuntimeError ''corouv::multipart part missing content-disposition name'')
                        else case find_sub (crlf @ ''--'' @ boundary) content of
                               None \<Rightarrow> Inl (RuntimeError ''corouv::multipart missing closing boundary'')
                             | Some nxt \<Rightarrow>
                                 if length (take nxt content) > max_part_bytes
                                 then Inl (RuntimeError ''corouv::multipart part body too large'')
                                 else Inr (part\<lparr>p_body := take nxt content\<rparr>,
                                           drop (nxt + 2 + length (''--'' @ boundary)) content)))))"

lemma parse_part_shrinks:
  "parse_part boundary mb rest = Inr (part, rest') \<Longrightarrow> length rest' < length rest"
  by (auto simp: parse_part_def Let_def dest!: find_sub_length split: option.splits sum.splits if_splits)

function parse_loop :: "string \<Rightarrow> nat \<Rightarrow> nat \<Rightarrow> string \<Rightarrow> Part list \<Rightarrow> Part list result" where
  "parse_loop boundary max_parts max_part_bytes rest parts =
     (if take 2 rest = ''--'' then Inr parts
      else if take 2 rest \<noteq> crlf then Inl (RuntimeError ''corouv::multipart malformed boundary'')
      else case parse_part boundary max_part_bytes (drop 2 rest) of
             Inl e \<Rightarrow> Inl e
           | Inr (part, rest') \<Rightarrow>
               if length (parts @ [part]) > max_parts then Inl (RuntimeError ''corouv::multipart too many parts'')
               else if take 2 rest' = ''--'' then Inr (parts @ [part])
               else parse_loop boundary max_parts max_part_bytes rest' (parts @ [part]))"
  by pat_completeness auto
termination
  by (relation "measure (\<lambda>(_, _, _, rest, _). length rest)") (auto dest!: parse_part_shrinks)

declare parse_loop.simps [simp del]

definition mp_parse :: "string \<Rightarrow> string \<Rightarrow> nat \<Rightarrow> nat \<Rightarrow> Part list result" where
  "mp_parse content_type body max_parts max_part_bytes =
     (case boundary_from_content_type content_type of
        None \<Rightarrow> Inl (RuntimeError ''corouv::multipart missing boundary in Content-Type'')
      | Some boundary \<Rightarrow>
          if boundary = [] then Inl (RuntimeError ''corouv::multipart missing boundary in Content-Type'')
          else if \<not> starts_with (''--'' @ boundary) body
          then Inl (RuntimeError ''corouv::multipart missing opening boundary'')
          else parse_loop boundary max_parts max_part_bytes (drop (length (''--'' @ boundary)) body) [])"

definition mp_parse_request :: "headers \<Rightarrow> string \<Rightarrow> nat \<Rightarrow> nat \<Rightarrow> Part list result" where
  "mp_parse_request hs body max_parts max_part_bytes =
     (case find_header hs ''Content-Type'' of
        None \<Rightarrow> Inl (RuntimeError ''corouv::multipart request missing Content-Type header'')
      | Some ct \<Rightarrow> mp_parse ct body max_parts max_part_bytes)"

definition build_content_type :: "string \<Rightarrow> string" where
  "build_content_type boundary = ''multipart/form-data; boundary='' @ boundary"

text \<open>The header lines the serialiser writes for a part.\<close>

definition disposition_value :: "Part \<Rightarrow> string" where
  "disposition_value part =
     ''form-data; name='' @ [dquote] @ p_name part @ [dquote] @
     (case p_filename part of None \<Rightarrow> [] | Some f \<Rightarrow> ''; filename='' @ [dquote] @ f @ [dquote])"

definition kept_headers :: "headers \<Rightarrow> headers" where
  "kept_headers hs =
     filter (\<lambda>h. \<not> (iequals (hname h) ''Content-Disposition'' \<or> iequals (hname h) ''Content-Type'')) hs"

definition part_header_list :: "Part \<Rightarrow> headers" where
  "part_header_list part =
     [Header ''Content-Disposition'' (disposition_value part)] @
     (if p_content_type part \<noteq> [] then [Header ''Content-Type'' (p_content_type part)] else []) @
     kept_headers (p_headers part)"

definition serialize_part :: "string \<Rightarrow> Part \<Rightarrow> string" where
  "serialize_part boundary part =
     ''--'' @ boundary @ crlf @ serialize_headers (part_header_list part) @ crlf @ p_body part @ crlf"

definition mp_serialize :: "Part list \<Rightarrow> string \<Rightarrow> string result" where
  "mp_serialize parts boundary =
     (if boundary = [] then Inl (InvalidArgument ''corouv::multipart boundary must not be empty'')
      else Inr (concat (map (serialize_part boundary) parts) @ ''--'' @ boundary @ ''--'' @ crlf))"

section \<open>Tokens of a header value\<close>

interpretation mpct: pct_decoder decode_percent_escaped "\<lambda>c. c \<noteq> CHR ''%''"
  by unfold_locales auto

lemma semi_parts_single: "v \<noteq> [] \<Longrightarrow> CHR '';'' \<notin> set v \<Longrightarrow> semi_parts v = [v]"
  by (simp add: semi_parts.simps find_char_None[THEN iffD2])

lemma semi_parts_cut: "CHR '';'' \<notin> set a \<Longrightarrow> semi_parts (a @ CHR '';'' # r) = a # semi_parts r"
  by (simp add: semi_parts.simps[of "a @ CHR '';'' # r"] find_char_append)

lemma unescape_plain: "CHR 0x5C \<notin> set s \<Longrightarrow> unescape s = s"
  by (induction s rule: unescape.induct) auto

lemma unquote_quoted: "CHR 0x5C \<notin> set s \<Longrightarrow> unquote (dquote # s @ [dquote]) = s"
  by (simp add: unquote_def unescape_plain)

lemma unquote_plain: "trimmed s \<Longrightarrow> dquote \<notin> set s \<Longrightarrow> unquote s = s"
  by (cases s) (auto simp: unquote_def trim_copy_id)

definition good_boundary :: "string \<Rightarrow> bool" where
  "good_boundary b \<longleftrightarrow> b \<noteq> [] \<and> trimmed b \<and> CHR '';'' \<notin> set b \<and> dquote \<notin> set b"

lemma trimmed_prefix: "a \<noteq> [] \<Longrightarrow> \<not> is_space (hd a) \<Longrightarrow> b \<noteq> [] \<Longrightarrow> \<not> is_space (last b) \<Longrightarrow> trimmed (a @ b)"
  by (simp add: trimmed_def)

lemma trim_space_token: "trimmed t \<Longrightarrow> trim_copy (CHR '' '' # t) = t"
  by (simp add: trim_copy_id char_simps)

lemma boundary_of_built: "good_boundary b \<Longrightarrow> boundary_from_content_type (build_content_type b) = Some b"
proof -
  assume b: "good_boundary b"
  let ?t = "''boundary='' @ b"
  have t: "trimmed ?t" using b by (intro trimmed_prefix) (auto simp: good_boundary_def trimmed_def char_simps)
  have m: "trimmed ''multipart/form-data''" "\<not> CHR '';'' \<in> set ''multipart/form-data''"
    by (simp_all add: trimmed_def char_simps)
  have "semi_parts (''multipart/form-data'' @ CHR '';'' # CHR '' '' # ?t) = [''multipart/form-data'', CHR '' '' # ?t]"
    using semi_parts_cut[OF m(2), of "CHR '' '' # ?t"] semi_parts_single[of "CHR '' '' # ?t"] b
    by (simp add: good_boundary_def)
  then have tok: "semi_tokens (build_content_type b) = [''multipart/form-data'', ?t]"
    using trim_copy_id[OF m(1)] trim_space_token[OF t]
    by (simp add: semi_tokens_def build_content_type_def)
  have "find_char (CHR ''='') (''boundary'' @ CHR ''='' # b) = Some (length ''boundary'')"
    by (rule find_char_append) simp
  then have "find_char (CHR ''='') ?t = Some 8" by simp
  moreover have "trim_copy ''boundary'' = ''boundary''"
    by (rule trim_copy_id) (simp add: trimmed_def char_simps)
  ultimately show ?thesis
    using b tok unquote_plain[of b] by (simp add: boundary_from_content_type_def good_boundary_def)
qed

text \<open>Names and file names that the serialiser's quoting carries unchanged.\<close>

definition plain_text :: "string \<Rightarrow> bool" where
  "plain_text s \<longleftrightarrow> CHR '';'' \<notin> set s \<and> CHR 0x5C \<notin> set s \<and> CR \<notin> set s"

lemma param_token:
  assumes "plain_text s" "k \<noteq> []" "\<not> is_space (hd k)"
  shows "trimmed (k @ ''='' @ dquote # s @ [dquote])"
  using assms by (simp add: trimmed_def char_simps)

lemma disposition_tokens:
  assumes "plain_text (p_name p)" "\<And>f. p_filename p = Some f \<Longrightarrow> plain_text f"
  shows "semi_tokens (disposition_value p) =
     [''form-data'', ''name='' @ dquote # p_name p @ [dquote]] @
     (case p_filename p of None \<Rightarrow> [] | Some f \<Rightarrow> [''filename='' @ dquote # f @ [dquote]])"
proof -
  let ?n = "''name='' @ dquote # p_name p @ [dquote]"
  have fd: "trimmed ''form-data''" "CHR '';'' \<notin> set ''form-data''" by (simp_all add: trimmed_def char_simps)
  have n: "trimmed ?n" "CHR '';'' \<notin> set (CHR '' '' # ?n)"
    using param_token[of "p_name p" "''name''"] assms(1) by (auto simp: plain_text_def char_simps)
  show ?thesis
  proof (cases "p_filename p")
    case None
    have "disposition_value p = ''form-data'' @ CHR '';'' # CHR '' '' # ?n"
      by (simp add: disposition_value_def None)
    then have "semi_parts (disposition_value p) = [''form-data'', CHR '' '' # ?n]"
      using semi_parts_cut[OF fd(2)] semi_parts_single[OF _ n(2)] by simp
    then show ?thesis using None trim_copy_id[OF fd(1)] trim_space_token[OF n(1)]
      by (simp add: semi_tokens_def)
  next
    case (Some f)
    let ?f = "''filename='' @ dquote # f @ [dquote]"
    have f: "trimmed ?f" "CHR '';'' \<notin> set (CHR '' '' # ?f)"
      using param_token[of f "''filename''"] assms(2)[OF Some] by (auto simp: plain_text_def char_simps)
    have "disposition_value p = ''form-data'' @ CHR '';'' # (CHR '' '' # ?n) @ CHR '';'' # CHR '' '' # ?f"
      by (simp add: disposition_value_def Some)
    then have "semi_parts (disposition_value p) = [''form-data'', CHR '' '' # ?n, CHR '' '' # ?f]"
      using semi_parts_cut[OF fd(2)] semi_parts_cut[OF n(2)] semi_parts_single[OF _ f(2)] by simp
    then show ?thesis using Some trim_copy_id[OF fd(1)] trim_space_token[OF n(1)] trim_space_token[OF f(1)]
      by (simp add: semi_tokens_def)
  qed
qed

lemma param_keys:
  "find_char (CHR ''='') (''name='' @ r) = Some 4" "find_char (CHR ''='') (''filename='' @ r) = Some 8"
  "trim_copy ''name'' = ''name''" "trim_copy ''filename'' = ''filename''" "trim_copy ''form-data'' = ''form-data''"
  "\<not> iequals ''filename'' ''name''"
  by (simp_all add: trim_copy_def char_simps iequals_def)

lemma parse_disposition:
  assumes "plain_text (p_name p)" "\<And>f. p_filename p = Some f \<Longrightarrow> plain_text f" "p_filename q = None"
  shows "parse_content_disposition q (disposition_value p) = Inr (q\<lparr>p_name := p_name p, p_filename := p_filename p\<rparr>)"
proof (cases "p_filename p")
  case None
  then show ?thesis
    using disposition_tokens[OF assms(1,2)] assms(1,3) param_keys unquote_quoted[of "p_name p"]
    by (simp add: parse_content_disposition_def Let_def plain_text_def)
next
  case (Some f)
  then show ?thesis
    using disposition_tokens[OF assms(1,2)] assms(1,3) assms(2)[OF Some] param_keys unquote_quoted[of "p_name p"]
      unquote_quoted[of f]
    by (simp add: parse_content_disposition_def Let_def plain_text_def)
qed

section \<open>Header blocks\<close>

definition header_line :: "header \<Rightarrow> string" where
  "header_line h = hname h @ '': '' @ hvalue h"

fun header_block :: "headers \<Rightarrow> string" where
  "header_block [] = []"
| "header_block [h] = header_line h"
| "header_block (h # hs) = header_line h @ crlf @ header_block hs"

definition good_header :: "header \<Rightarrow> bool" where
  "good_header h \<longleftrightarrow> trimmed (hname h) \<and> trimmed (hvalue h) \<and> CHR '':'' \<notin> set (hname h) \<and>
     CR \<notin> set (hname h) \<and> CR \<notin> set (hvalue h)"

lemma serialize_headers_block: "hs \<noteq> [] \<Longrightarrow> serialize_headers hs = header_block hs @ crlf"
proof (induction hs rule: header_block.induct)
  case (3 h g hs)
  then show ?case by (simp add: serialize_headers_def serialize_header_def header_line_def)
qed (simp_all add: serialize_headers_def serialize_header_def header_line_def)

lemma header_line_CR: "good_header h \<Longrightarrow> CR \<notin> set (header_line h)"
  by (simp add: good_header_def header_line_def)

lemma header_line_nonempty [simp]: "header_line h \<noteq> []"
  by (simp add: header_line_def)

lemma find_crlf2_line: "CR \<notin> set l \<Longrightarrow> find_sub (crlf @ crlf) (l @ crlf @ crlf @ r) = Some (length l)"
  by (induction l) auto

lemma find_crlf2_skip:
  "CR \<notin> set l \<Longrightarrow> x \<noteq> CR \<Longrightarrow>
   find_sub (crlf @ crlf) (l @ crlf @ x # r) = map_option ((+) (length l + 2)) (find_sub (crlf @ crlf) (x # r))"
  by (induction l) (auto simp: option.map_comp comp_def intro!: option.map_cong)

lemma find_header_end:
  "hs \<noteq> [] \<Longrightarrow> list_all good_header hs \<Longrightarrow>
   find_sub (crlf @ crlf) (header_block hs @ crlf @ crlf @ r) = Some (length (header_block hs))"
proof (induction hs rule: header_block.induct)
  case (2 h)
  then show ?case using find_crlf2_line[OF header_line_CR, of h r] by simp
next
  case (3 h g hs)
  obtain x xs where x: "header_block (g # hs) = x # xs" "x \<noteq> CR"
  proof (cases hs)
    case Nil
    then show thesis using that header_line_CR[of g] header_line_nonempty[of g] 3(3) by (cases "header_line g") auto
  next
    case (Cons k ks)
    then show thesis using that header_line_CR[of g] header_line_nonempty[of g] 3(3) by (cases "header_line g") auto
  qed
  have "find_sub (crlf @ crlf) (header_line h @ crlf @ x # xs @ crlf @ crlf @ r) =
      map_option ((+) (length (header_line h) + 2)) (find_sub (crlf @ crlf) (x # xs @ crlf @ crlf @ r))"
    using 3(3) x(2) header_line_CR by (intro find_crlf2_skip) auto
  moreover have "find_sub (crlf @ crlf) (x # xs @ crlf @ crlf @ r) = Some (length (x # xs))"
    using 3 x(1) by simp
  ultimately show ?case using x(1) by simp
qed simp

lemma header_of_line:
  assumes "good_header h"
  shows "find_char (CHR '':'') (header_line h) = Some (length (hname h))"
    and "Header (trim_copy (take (length (hname h)) (header_line h))) (trim_copy (drop (Suc (length (hname h))) (header_line h))) = h"
  using assms
  by (simp_all add: good_header_def header_line_def find_char_append trim_copy_id trim_space_token Header_def)

lemma find_sub_crlf_none: "CR \<notin> set l \<Longrightarrow> find_sub crlf l = None"
  by (induction l) auto

lemma parse_block: "list_all good_header hs \<Longrightarrow> parse_headers_block (header_block hs) = Inr hs"
proof (induction hs rule: header_block.induct)
  case 1
  then show ?case by (simp add: parse_headers_block.simps)
next
  case (2 h)
  then show ?case using header_of_line[of h] find_sub_crlf_none[OF header_line_CR, of h]
    by (simp add: parse_headers_block.simps Let_def)
next
  case (3 h g hs)
  then have "find_sub crlf (header_line h @ crlf @ header_block (g # hs)) = Some (length (header_line h))"
    by (intro find_sub_crlf header_line_CR) simp
  with 3 header_of_line[of h] show ?case
    by (simp add: parse_headers_block.simps[of "header_line h @ CR # LF # header_block (g # hs)"] Let_def)
qed

section \<open>Parsing inverts serialising\<close>

definition good_part :: "string \<Rightarrow> Part \<Rightarrow> bool" where
  "good_part b p \<longleftrightarrow>
     p_name p \<noteq> [] \<and> plain_text (p_name p) \<and> (case p_filename p of None \<Rightarrow> True | Some f \<Rightarrow> plain_text f) \<and>
     trimmed (p_content_type p) \<and> CR \<notin> set (p_content_type p) \<and> list_all good_header (p_headers p) \<and>
     find_sub (crlf @ ''--'' @ b) (p_body p @ crlf @ ''--'' @ b) = Some (length (p_body p))"

definition received_part :: "Part \<Rightarrow> Part" where
  "received_part p = p\<lparr>p_headers := part_header_list p\<rparr>"

lemma disposition_good:
  "plain_text (p_name p) \<Longrightarrow> (\<And>f. p_filename p = Some f \<Longrightarrow> plain_text f) \<Longrightarrow>
   good_header (Header ''Content-Disposition'' (disposition_value p))"
  by (cases "p_filename p")
    (auto simp: good_header_def disposition_value_def plain_text_def trimmed_def char_simps)

lemma part_header_list_good: "good_part b p \<Longrightarrow> list_all good_header (part_header_list p)"
  using disposition_good[of p]
  by (auto simp: part_header_list_def good_part_def kept_headers_def list_all_iff good_header_def[of "Header ''Content-Type'' _"]
      trimmed_def[of "''Content-Type''"] char_simps split: option.splits)

lemma part_headers_kept:
  "part_headers (kept_headers hs) q = Inr q"
  by (induction hs) (auto simp: kept_headers_def)

lemma part_headers_list:
  assumes "good_part b p" "p_filename q = None" "p_content_type q = []"
  shows "part_headers (part_header_list p) q =
     Inr (q\<lparr>p_name := p_name p, p_filename := p_filename p, p_content_type := p_content_type p\<rparr>)"
proof -
  have "parse_content_disposition q (disposition_value p) = Inr (q\<lparr>p_name := p_name p, p_filename := p_filename p\<rparr>)"
    using assms by (intro parse_disposition) (auto simp: good_part_def)
  moreover have "\<not> iequals ''Content-Type'' ''Content-Disposition''" by (simp add: iequals_def)
  ultimately show ?thesis using assms(3) by (auto simp: part_header_list_def part_headers_kept)
qed

lemma drop_marker: "drop (4 + n) (a # b # c # d # xs) = drop n xs"
  by (simp add: numeral_eq_Suc)

lemma parse_part_serialized:
  assumes "good_part b p" "length (p_body p) \<le> mb"
  shows "parse_part b mb (serialize_headers (part_header_list p) @ crlf @ p_body p @ crlf @ ''--'' @ b @ rest) =
     Inr (received_part p, rest)"
proof -
  let ?hs = "part_header_list p" and ?content = "p_body p @ crlf @ ''--'' @ b @ rest"
  have ne: "?hs \<noteq> []" by (simp add: part_header_list_def)
  have he: "find_sub (crlf @ crlf) (serialize_headers ?hs @ crlf @ ?content) = Some (length (header_block ?hs))"
    using find_header_end[OF ne part_header_list_good[OF assms(1)], of ?content] serialize_headers_block[OF ne] by simp
  have ph: "part_headers ?hs (empty_part\<lparr>p_headers := ?hs\<rparr>) = Inr ((received_part p)\<lparr>p_body := []\<rparr>)"
    using part_headers_list[OF assms(1), of "empty_part\<lparr>p_headers := ?hs\<rparr>"]
    by (simp add: empty_part_def received_part_def)
  have "find_sub (crlf @ ''--'' @ b) ?content = Some (length (p_body p))"
    using assms(1) find_sub_append[of "crlf @ ''--'' @ b" "p_body p @ crlf @ ''--'' @ b" _ rest]
    by (simp add: good_part_def)
  then show ?thesis
    using he ph parse_block[OF part_header_list_good[OF assms(1)]] assms serialize_headers_block[OF ne]
    by (simp add: parse_part_def Let_def received_part_def good_part_def drop_marker)
qed

text \<open>What follows the opening boundary.\<close>

fun form_tail :: "string \<Rightarrow> Part list \<Rightarrow> string" where
  "form_tail b [] = ''--'' @ crlf"
| "form_tail b (p # ps) =
     crlf @ serialize_headers (part_header_list p) @ crlf @ p_body p @ crlf @ ''--'' @ b @ form_tail b ps"

lemma serialize_tail: "concat (map (serialize_part b) ps) @ ''--'' @ b @ ''--'' @ crlf = ''--'' @ b @ form_tail b ps"
  by (induction ps) (auto simp: serialize_part_def)

lemma parse_loop_tail:
  "list_all (\<lambda>p. good_part b p \<and> length (p_body p) \<le> mb) ps \<Longrightarrow> length acc + length ps \<le> mp \<Longrightarrow>
   parse_loop b mp mb (form_tail b ps) acc = Inr (acc @ map received_part ps)"
proof (induction ps arbitrary: acc)
  case Nil
  then show ?case by (simp add: parse_loop.simps)
next
  case (Cons p ps)
  have "parse_part b mb (drop 2 (form_tail b (p # ps))) = Inr (received_part p, form_tail b ps)"
    using parse_part_serialized[of b p mb "form_tail b ps"] Cons.prems(1) by simp
  moreover have "take 2 (form_tail b (p # ps)) = crlf" by simp
  moreover have "parse_loop b mp mb (form_tail b ps) (acc @ [received_part p]) = Inr ((acc @ [received_part p]) @ map received_part ps)"
    using Cons by (intro Cons.IH) auto
  moreover from this have "take 2 (form_tail b ps) = ''--'' \<Longrightarrow> ps = []"
    by (cases ps) auto
  ultimately show ?case
    using Cons.prems(2) by (auto simp: parse_loop.simps[of b mp mb "form_tail b (p # ps)"] simp del: form_tail.simps)
qed


section \<open>Properties\<close>

text \<open>C13: Parsing inverts serialising for every list of well-formed parts: names, file names, content types,
  extra headers and bodies come back, each part with the header lines that were written, as long as
  no body contains the boundary marker and the limits are kept.\<close>

theorem multipart_roundtrip:
  assumes "good_boundary b" "list_all (\<lambda>p. good_part b p \<and> length (p_body p) \<le> max_bytes) parts"
    "length parts \<le> max_parts" "mp_serialize parts b = Inr body"
  shows "mp_parse (build_content_type b) body max_parts max_bytes = Inr (map received_part parts)"
proof -
  have "body = ''--'' @ b @ form_tail b parts"
    using assms(1,4) serialize_tail[of b parts] by (simp add: mp_serialize_def good_boundary_def split: if_splits)
  moreover have "parse_loop b max_parts max_bytes (form_tail b parts) [] = Inr (map received_part parts)"
    using parse_loop_tail[OF assms(2), of "[]" max_parts] assms(3) by simp
  moreover have "starts_with (''--'' @ b) (''--'' @ b @ form_tail b parts)"
    by (simp add: starts_with_iff)
  ultimately show ?thesis
    using assms(1) boundary_of_built[OF assms(1)] by (simp add: mp_parse_def good_boundary_def)
qed

definition sample_part :: Part where
  "sample_part = \<lparr>p_name = ''file'', p_filename = Some ''a b.txt'', p_content_type = ''text/plain'',
     p_headers = [Header ''X-A'' ''1''], p_body = ''line'' @ crlf @ ''--x''\<rparr>"

theorem multipart_roundtrip_witness:
  "mp_parse (build_content_type ''BOUND'')
     (''--BOUND'' @ form_tail ''BOUND'' [sample_part, sample_part]) 2 20 = Inr [received_part sample_part, received_part sample_part]"
proof -
  have "good_boundary ''BOUND''" by (simp add: good_boundary_def trimmed_def char_simps)
  moreover have "good_part ''BOUND'' sample_part"
    by (simp add: good_part_def sample_part_def plain_text_def trimmed_def good_header_def char_simps)
  moreover have "mp_serialize [sample_part, sample_part] ''BOUND'' = Inr (''--BOUND'' @ form_tail ''BOUND'' [sample_part, sample_part])"
    using serialize_tail[of "''BOUND''" "[sample_part, sample_part]"] by (simp add: mp_serialize_def)
  ultimately show ?thesis
    using multipart_roundtrip[of "''BOUND''" 20 "[sample_part, sample_part]" 2] by (simp add: sample_part_def)
qed

lemma parse_part_bounds:
  "parse_part b mb rest = Inr (p, rest') \<Longrightarrow> p_name p \<noteq> [] \<and> length (p_body p) \<le> mb"
  by (auto simp: parse_part_def Let_def split: option.splits sum.splits if_splits)

lemma parse_loop_bounds:
  "parse_loop b mp mb rest acc = Inr parts \<Longrightarrow> length acc \<le> mp \<Longrightarrow>
   list_all (\<lambda>p. p_name p \<noteq> [] \<and> length (p_body p) \<le> mb) acc \<Longrightarrow>
   length parts \<le> mp \<and> list_all (\<lambda>p. p_name p \<noteq> [] \<and> length (p_body p) \<le> mb) parts"
proof (induction b mp mb rest acc rule: parse_loop.induct)
  case (1 b mp mb rest acc)
  show ?case
  proof (cases "take 2 rest = ''--''")
    case True
    with "1.prems" show ?thesis by (subst (asm) parse_loop.simps) simp
  next
    case False
    with "1.prems"(1) obtain p rest' where c: "\<not> take 2 rest \<noteq> crlf"
      and pp: "parse_part b mb (drop 2 rest) = Inr (p, rest')" and le: "\<not> mp < length (acc @ [p])"
      and l: "if take 2 rest' = ''--'' then parts = acc @ [p] else parse_loop b mp mb rest' (acc @ [p]) = Inr parts"
      by (subst (asm) parse_loop.simps) (auto split: if_splits sum.splits prod.splits)
    have all: "list_all (\<lambda>p. p_name p \<noteq> [] \<and> length (p_body p) \<le> mb) (acc @ [p])"
      using "1.prems"(3) parse_part_bounds[OF pp] by simp
    show ?thesis
    proof (cases "take 2 rest' = ''--''")
      case True
      with l le all show ?thesis by simp
    next
      case more: False
      show ?thesis by (rule "1.IH"[OF False c pp refl le more]) (use l more le all in auto)
    qed
  qed
qed

text \<open>A form that is accepted has at most max_parts parts, each with a non-empty name and a body of at
  most max_part_bytes bytes.\<close>

theorem multipart_bounds:
  assumes "mp_parse content_type body max_parts max_bytes = Inr parts"
  shows "length parts \<le> max_parts \<and> list_all (\<lambda>p. p_name p \<noteq> [] \<and> length (p_body p) \<le> max_bytes) parts"
  using assms parse_loop_bounds[of _ max_parts max_bytes _ "[]" parts]
  by (auto simp: mp_parse_def split: option.splits if_splits)

theorem multipart_bounds_witness:
  "length [received_part sample_part] \<le> 1"
proof -
  have "mp_parse (build_content_type ''B'') (''--B'' @ form_tail ''B'' [sample_part]) 1 20 = Inr [received_part sample_part]"
    by code_simp
  then show ?thesis using multipart_bounds by blast
qed

text \<open>The serialiser does not escape what it quotes and the parser splits at semicolons inside quotes. A
  file name with a semicolon is not read back, and a part name can add a file name of its own.\<close>

theorem multipart_quoting_broken:
  "map_result (map p_filename)
     (mp_parse (build_content_type ''B'')
       (''--B'' @ form_tail ''B'' [empty_part\<lparr>p_name := ''f'', p_filename := Some ''a;b.txt''\<rparr>]) 9 9) =
     Inr [Some (dquote # ''a'')] \<and>
   map_result (map (\<lambda>p. (p_name p, p_filename p)))
     (mp_parse (build_content_type ''B'')
       (''--B'' @ form_tail ''B'' [empty_part\<lparr>p_name := ''f'' @ [dquote] @ ''; filename='' @ [dquote] @ ''evil''\<rparr>]) 9 9) =
     Inr [(''f'', Some ''evil'')]"
  by code_simp

end
