(* ===== verification/Web_Router.thy ===== *)
theory Web_Router
  imports Http_Connection Http_Form Multipart
begin

text \<open>
  The router and the server builder of include/corouv/web.h. Handlers and
  middleware are the caller's: functions of a request context and of a world
  'w they may change. A router's state is shared between the routers that hold
  a pointer to it, so states live in a store and a mounted route names one.
  Routers may be mounted in a cycle, so handling takes fuel; it counts mount
  levels.
\<close>

section \<open>Paths and patterns\<close>

type_synonym Params = "(string \<times> string) list"

record RequestContext =
  cx_request :: Request
  cx_params :: Params

definition ctx_param :: "RequestContext \<Rightarrow> string \<Rightarrow> string option" where
  "ctx_param ctx name = map_of (cx_params ctx) name"

definition has_param :: "RequestContext \<Rightarrow> string \<Rightarrow> bool" where
  "has_param ctx name \<longleftrightarrow> ctx_param ctx name \<noteq> None"

definition request_path :: "string \<Rightarrow> string" where
  "request_path target = head_to (find_char (CHR ''?'') target) target"

definition ctx_path :: "RequestContext \<Rightarrow> string" where
  "ctx_path ctx = request_path (rq_target (cx_request ctx))"

definition parse_form :: "RequestContext \<Rightarrow> nat \<Rightarrow> FormFields result" where
  "parse_form ctx max_fields =
     parse_form_urlencoded_request (rq_headers (cx_request ctx)) (rq_body (cx_request ctx)) max_fields"

definition parse_multipart :: "RequestContext \<Rightarrow> nat \<Rightarrow> nat \<Rightarrow> Part list result" where
  "parse_multipart ctx max_parts max_part_bytes =
     mp_parse_request (rq_headers (cx_request ctx)) (rq_body (cx_request ctx)) max_parts max_part_bytes"

function split_path_segments :: "string \<Rightarrow> string list" where
  "split_path_segments path =
     (let p = dropWhile (\<lambda>c. c = CHR ''/'') path
      in if p = [] then []
         else takeWhile (\<lambda>c. c \<noteq> CHR ''/'') p # split_path_segments (dropWhile (\<lambda>c. c \<noteq> CHR ''/'') p))"
  by pat_completeness auto

lemma segment_shrinks:
  "dropWhile (\<lambda>c. c = CHR ''/'') path \<noteq> [] \<Longrightarrow>
   length (dropWhile (\<lambda>c. c \<noteq> CHR ''/'') (dropWhile (\<lambda>c. c = CHR ''/'') path)) < length path"
proof -
  let ?p = "dropWhile (\<lambda>c. c = CHR ''/'') path"
  assume ne: "?p \<noteq> []"
  then obtain c p where p: "?p = c # p" by (cases ?p) auto
  then have c: "c \<noteq> CHR ''/''" using hd_dropWhile[OF ne] by simp
  have "length (dropWhile (\<lambda>c. c \<noteq> CHR ''/'') p) \<le> length p" by (rule length_dropWhile_le)
  also have "\<dots> < length ?p" by (simp add: p)
  also have "\<dots> \<le> length path" by (rule length_dropWhile_le)
  finally show ?thesis using p c by simp
qed

termination split_path_segments
proof (relation "measure length", goal_cases)
  case (2 path p)
  then have "length (dropWhile (\<lambda>c. c \<noteq> CHR ''/'') (dropWhile (\<lambda>c. c = CHR ''/'') path)) < length path"
    by (intro segment_shrinks) blast
  then show ?case using 2(1) by (simp only: in_measure)
qed simp

declare split_path_segments.simps [simp del]

record MatchResult =
  m_params :: Params
  m_segments :: nat

primrec wildcard_index :: "string list \<Rightarrow> nat option" where
  "wildcard_index [] = None"
| "wildcard_index (p # ps) = (if p = ''*'' then Some 0 else map_option Suc (wildcard_index ps))"

text \<open>The remaining segments joined by slashes, as the loop over j builds them.\<close>

definition join_tail :: "string list \<Rightarrow> string" where
  "join_tail segs = foldl (\<lambda>tail seg. (if tail \<noteq> [] then tail @ ''/'' else tail) @ seg) [] segs"

definition is_param :: "string \<Rightarrow> bool" where
  "is_param pat \<longleftrightarrow> pat \<noteq> [] \<and> hd pat = CHR '':'' \<and> length pat > 1"

text \<open>The loop over the pattern: i is its index, segs the path segments from i on, n the pattern's length.\<close>

fun match_loop :: "string list \<Rightarrow> string list \<Rightarrow> nat \<Rightarrow> nat \<Rightarrow> Params \<Rightarrow> MatchResult option" where
  "match_loop [] segs i n params = Some \<lparr>m_params = params, m_segments = n\<rparr>"
| "match_loop (pat # pats) segs i n params =
     (if pat = ''*'' then Some \<lparr>m_params = params @ [(''*'', join_tail segs)], m_segments = i\<rparr>
      else case segs of
             [] \<Rightarrow> None
           | seg # segs' \<Rightarrow>
               if is_param pat then match_loop pats segs' (Suc i) n (params @ [(tl pat, seg)])
               else if pat \<noteq> seg then None
               else match_loop pats segs' (Suc i) n params)"

definition match_route :: "string \<Rightarrow> string \<Rightarrow> bool \<Rightarrow> MatchResult option" where
  "match_route path pattern prefix =
     (let path_parts = split_path_segments path;
          pattern_parts = split_path_segments pattern;
          w = wildcard_index pattern_parts
      in if (case w of None \<Rightarrow> False | Some i \<Rightarrow> i + 1 \<noteq> length pattern_parts) then None
         else if (case w of
                    Some i \<Rightarrow> length path_parts < i
                  | None \<Rightarrow> if prefix then length path_parts < length pattern_parts
                            else length path_parts \<noteq> length pattern_parts) then None
         else match_loop pattern_parts path_parts 0 (length pattern_parts) [])"

definition strip_matched_prefix :: "string \<Rightarrow> nat \<Rightarrow> string" where
  "strip_matched_prefix target matched_segments =
     (let path = request_path target;
          suffix = drop (length path) target;
          parts = split_path_segments path
      in (if matched_segments < length parts
          then concat (map (\<lambda>p. CHR ''/'' # p) (drop matched_segments parts)) else ''/'') @ suffix)"

section \<open>Routers\<close>

type_synonym 'w handler = "RequestContext \<Rightarrow> 'w \<Rightarrow> Response result \<times> 'w"
type_synonym 'w middleware = "RequestContext \<Rightarrow> 'w handler \<Rightarrow> 'w \<Rightarrow> Response result \<times> 'w"
type_synonym router = nat

datatype 'w route_handler = User "'w handler" | Mounted router

record 'w Route =
  rt_method :: "string option"
  rt_path :: string
  rt_handler :: "'w route_handler"
  rt_prefix :: bool
  rt_strip_prefix :: bool

record 'w router_state =
  rs_routes :: "'w Route list"
  rs_middlewares :: "'w middleware list"
  rs_not_found :: "'w handler option"

type_synonym 'w store = "router \<Rightarrow> 'w router_state"

definition new_state :: "'w router_state" where
  "new_state = \<lparr>rs_routes = [], rs_middlewares = [], rs_not_found = None\<rparr>"

definition add_route ::
  "string option \<Rightarrow> string \<Rightarrow> 'w route_handler \<Rightarrow> bool \<Rightarrow> bool \<Rightarrow> router \<Rightarrow> 'w store \<Rightarrow> 'w store" where
  "add_route method path h prefix strip r st =
     st(r := (st r)\<lparr>rs_routes := rs_routes (st r) @
       [\<lparr>rt_method = method, rt_path = path, rt_handler = h, rt_prefix = prefix, rt_strip_prefix = strip\<rparr>]\<rparr>)"

definition route :: "string option \<Rightarrow> string \<Rightarrow> 'w handler \<Rightarrow> bool \<Rightarrow> router \<Rightarrow> 'w store \<Rightarrow> 'w store" where
  "route method path fn prefix = add_route method path (User fn) prefix False"

definition route_any :: "string \<Rightarrow> 'w handler \<Rightarrow> router \<Rightarrow> 'w store \<Rightarrow> 'w store" where
  "route_any path fn = route None path fn False"

definition route_get :: "string \<Rightarrow> 'w handler \<Rightarrow> router \<Rightarrow> 'w store \<Rightarrow> 'w store" where
  "route_get path fn = route (Some ''GET'') path fn False"

definition route_post :: "string \<Rightarrow> 'w handler \<Rightarrow> router \<Rightarrow> 'w store \<Rightarrow> 'w store" where
  "route_post path fn = route (Some ''POST'') path fn False"

definition route_put :: "string \<Rightarrow> 'w handler \<Rightarrow> router \<Rightarrow> 'w store \<Rightarrow> 'w store" where
  "route_put path fn = route (Some ''PUT'') path fn False"

definition route_patch :: "string \<Rightarrow> 'w handler \<Rightarrow> router \<Rightarrow> 'w store \<Rightarrow> 'w store" where
  "route_patch path fn = route (Some ''PATCH'') path fn False"

definition route_delete :: "string \<Rightarrow> 'w handler \<Rightarrow> router \<Rightarrow> 'w store \<Rightarrow> 'w store" where
  "route_delete path fn = route (Some ''DELETE'') path fn False"

definition route_prefix :: "string \<Rightarrow> 'w handler \<Rightarrow> router \<Rightarrow> 'w store \<Rightarrow> 'w store" where
  "route_prefix path fn = route None path fn True"

definition mount :: "string \<Rightarrow> router \<Rightarrow> router \<Rightarrow> 'w store \<Rightarrow> 'w store" where
  "mount path mounted = add_route None path (Mounted mounted) True True"

definition use_middleware :: "'w middleware \<Rightarrow> router \<Rightarrow> 'w store \<Rightarrow> 'w store" where
  "use_middleware fn r st = st(r := (st r)\<lparr>rs_middlewares := rs_middlewares (st r) @ [fn]\<rparr>)"

definition not_found :: "'w handler \<Rightarrow> router \<Rightarrow> 'w store \<Rightarrow> 'w store" where
  "not_found fn r st = st(r := (st r)\<lparr>rs_not_found := Some fn\<rparr>)"

definition add_allowed_method :: "string \<Rightarrow> string list \<Rightarrow> string list" where
  "add_allowed_method m allowed = (if list_ex (\<lambda>e. iequals e m) allowed then allowed else allowed @ [m])"

fun join_methods :: "string list \<Rightarrow> string" where
  "join_methods [] = []"
| "join_methods [m] = m"
| "join_methods (m # ms) = m @ '', '' @ join_methods ms"

definition method_not_allowed :: "string list \<Rightarrow> Response" where
  "method_not_allowed allowed =
     (error_response 405 ''method not allowed'')\<lparr>rs_headers := set_header [] ''Allow'' (join_methods allowed)\<rparr>"

definition not_found_response :: Response where
  "not_found_response = error_response 404 ''not found''"

text \<open>The context a route's handler gets: its parameters appended, and for a mounted router the matched
  prefix cut off the target.\<close>

definition enter_route :: "'w Route \<Rightarrow> MatchResult \<Rightarrow> RequestContext \<Rightarrow> RequestContext" where
  "enter_route rt m ctx =
     (let ctx' = ctx\<lparr>cx_params := cx_params ctx @ m_params m\<rparr>
      in if rt_strip_prefix rt
         then ctx'\<lparr>cx_request := (cx_request ctx')\<lparr>rq_target :=
                strip_matched_prefix (rq_target (cx_request ctx')) (m_segments m)\<rparr>\<rparr>
         else ctx')"

text \<open>The loop of dispatch: the first route that matches and allows the method, with its context, or the
  methods the matching routes allow.\<close>

fun select_route ::
  "'w Route list \<Rightarrow> RequestContext \<Rightarrow> string list \<Rightarrow> ('w route_handler \<times> RequestContext) + string list" where
  "select_route [] ctx allowed = Inr allowed"
| "select_route (rt # rts) ctx allowed =
     (case match_route (request_path (rq_target (cx_request ctx))) (rt_path rt) (rt_prefix rt) of
        None \<Rightarrow> select_route rts ctx allowed
      | Some m \<Rightarrow>
          (case rt_method rt of
             Some x \<Rightarrow>
               if \<not> iequals (rq_method (cx_request ctx)) x
               then select_route rts ctx (add_allowed_method x allowed)
               else Inl (rt_handler rt, enter_route rt m ctx)
           | None \<Rightarrow> Inl (rt_handler rt, enter_route rt m ctx)))"

text \<open>dispatch; run handles a context in a mounted router.\<close>

definition dispatch :: "(router \<Rightarrow> 'w handler) \<Rightarrow> 'w router_state \<Rightarrow> 'w handler" where
  "dispatch run state ctx w =
     (case select_route (rs_routes state) ctx [] of
        Inl (User h, ctx') \<Rightarrow> h ctx' w
      | Inl (Mounted r, ctx') \<Rightarrow> run r ctx' w
      | Inr allowed \<Rightarrow>
          if allowed \<noteq> [] then (Inr (method_not_allowed allowed), w)
          else case rs_not_found state of
                 Some h \<Rightarrow> h ctx w
               | None \<Rightarrow> (Inr not_found_response, w))"

text \<open>The middleware chain, the first one added outermost.\<close>

definition chain :: "'w middleware list \<Rightarrow> 'w handler \<Rightarrow> 'w handler" where
  "chain middlewares next = foldr (\<lambda>middleware prev inner. middleware inner prev) middlewares next"

primrec handle_context :: "nat \<Rightarrow> 'w store \<Rightarrow> router \<Rightarrow> 'w handler" where
  "handle_context 0 = (\<lambda>st r ctx w. (Inl OutOfFuel, w))"
| "handle_context (Suc fuel) =
     (\<lambda>st r. chain (rs_middlewares (st r)) (dispatch (handle_context fuel st) (st r)))"

definition router_handle :: "nat \<Rightarrow> 'w store \<Rightarrow> router \<Rightarrow> Request \<Rightarrow> 'w \<Rightarrow> Response result \<times> 'w" where
  "router_handle fuel st r request w = handle_context fuel st r \<lparr>cx_request = request, cx_params = []\<rparr> w"

section \<open>The server builder\<close>

record 'tls ServerOptions =
  so_host :: string
  so_port :: nat
  so_backlog :: int
  so_limits :: Limits
  so_tls :: "'tls option"
  so_timeouts :: IoTimeouts

text \<open>A server's handler: given by the caller or the one of a router.\<close>

datatype 'h server_handler = GivenHandler 'h | RouterHandler router

record ('h, 'tls) server_builder =
  sb_options :: "'tls ServerOptions"
  sb_handler :: "'h option"
  sb_router :: "router option"

datatype ('h, 'tls) built_server =
    HttpServer "'h server_handler" "'tls ServerOptions"
  | HttpsServer "'h server_handler" "'tls ServerOptions" 'tls

definition default_limits :: Limits where
  "default_limits = \<lparr>max_header_bytes = 64 * 1024, max_header_count = 100, max_body_bytes = 8 * 1024 * 1024\<rparr>"

definition ServerBuilder :: "('h, 'tls) server_builder" where
  "ServerBuilder =
     \<lparr>sb_options = \<lparr>so_host = ''127.0.0.1'', so_port = 0, so_backlog = 128, so_limits = default_limits, so_tls = None,
        so_timeouts = \<lparr>to_read_headers = False, to_read_body = False, to_write = False\<rparr>\<rparr>,
      sb_handler = None, sb_router = None\<rparr>"

definition sb_listen_on :: "string \<Rightarrow> nat \<Rightarrow> ('h, 'tls) server_builder \<Rightarrow> ('h, 'tls) server_builder" where
  "sb_listen_on host port b = b\<lparr>sb_options := (sb_options b)\<lparr>so_host := host, so_port := port\<rparr>\<rparr>"

definition sb_set_limits :: "Limits \<Rightarrow> ('h, 'tls) server_builder \<Rightarrow> ('h, 'tls) server_builder" where
  "sb_set_limits v b = b\<lparr>sb_options := (sb_options b)\<lparr>so_limits := v\<rparr>\<rparr>"

definition sb_clear_timeouts :: "('h, 'tls) server_builder \<Rightarrow> ('h, 'tls) server_builder" where
  "sb_clear_timeouts b =
     b\<lparr>sb_options := (sb_options b)\<lparr>so_timeouts := \<lparr>to_read_headers = False, to_read_body = False, to_write = False\<rparr>\<rparr>\<rparr>"

definition sb_handle :: "'h \<Rightarrow> ('h, 'tls) server_builder \<Rightarrow> ('h, 'tls) server_builder" where
  "sb_handle h b = b\<lparr>sb_handler := Some h\<rparr>"

definition sb_routes :: "router \<Rightarrow> ('h, 'tls) server_builder \<Rightarrow> ('h, 'tls) server_builder" where
  "sb_routes r b = b\<lparr>sb_router := Some r\<rparr>"

text \<open>ensure_router: a builder without a router gets a fresh one, whose state is new in the store.\<close>

definition ensure_router ::
  "router \<Rightarrow> ('h, 'tls) server_builder \<Rightarrow> 'w store \<Rightarrow> router \<times> ('h, 'tls) server_builder \<times> 'w store" where
  "ensure_router fresh b st =
     (case sb_router b of
        Some r \<Rightarrow> (r, b, st)
      | None \<Rightarrow> (fresh, b\<lparr>sb_router := Some fresh\<rparr>, st(fresh := new_state)))"

definition sb_tls :: "'tls \<Rightarrow> ('h, 'tls) server_builder \<Rightarrow> ('h, 'tls) server_builder" where
  "sb_tls config b = b\<lparr>sb_options := (sb_options b)\<lparr>so_tls := Some config\<rparr>\<rparr>"

definition sb_clear_tls :: "('h, 'tls) server_builder \<Rightarrow> ('h, 'tls) server_builder" where
  "sb_clear_tls b = b\<lparr>sb_options := (sb_options b)\<lparr>so_tls := None\<rparr>\<rparr>"

definition sb_build :: "('h, 'tls) server_builder \<Rightarrow> ('h, 'tls) built_server result" where
  "sb_build b =
     (let handler = (case sb_handler b of
                       Some h \<Rightarrow> Some (GivenHandler h)
                     | None \<Rightarrow> map_option RouterHandler (sb_router b))
      in case handler of
           None \<Rightarrow> Inl (LogicError ''corouv::web::ServerBuilder requires a handler'')
         | Some h \<Rightarrow>
             (case so_tls (sb_options b) of
                Some tls \<Rightarrow> Inr (HttpsServer h (sb_options b) tls)
              | None \<Rightarrow> Inr (HttpServer h (sb_options b))))"

section \<open>Segments\<close>

definition seg_wf :: "string \<Rightarrow> bool" where
  "seg_wf p \<longleftrightarrow> p \<noteq> [] \<and> CHR ''/'' \<notin> set p"

lemma split_segments_wf: "list_all seg_wf (split_path_segments s)"
proof (induction s rule: split_path_segments.induct)
  case (1 s)
  let ?p = "dropWhile (\<lambda>c. c = CHR ''/'') s"
  show ?case
  proof (cases "?p = []")
    case True
    then show ?thesis by (simp add: split_path_segments.simps[of s] del: dropWhile_eq_Nil_conv)
  next
    case False
    then obtain c p where p: "?p = c # p" by (cases ?p) auto
    moreover have "c \<noteq> CHR ''/''" using hd_dropWhile[OF False] p by simp
    ultimately have "seg_wf (takeWhile (\<lambda>c. c \<noteq> CHR ''/'') ?p)"
      by (auto simp: seg_wf_def dest: set_takeWhileD)
    with 1[OF refl False] False show ?thesis
      by (simp add: split_path_segments.simps[of s] Let_def del: dropWhile_eq_Nil_conv)
  qed
qed

lemma split_segments_set: "p \<in> set (split_path_segments s) \<Longrightarrow> set p \<subseteq> set s"
proof (induction s rule: split_path_segments.induct)
  case (1 s)
  let ?p = "dropWhile (\<lambda>c. c = CHR ''/'') s"
  have "set ?p \<subseteq> set s" by (auto dest: set_dropWhileD)
  moreover have "set (dropWhile (\<lambda>c. c \<noteq> CHR ''/'') ?p) \<subseteq> set ?p" "set (takeWhile (\<lambda>c. c \<noteq> CHR ''/'') ?p) \<subseteq> set ?p"
    by (auto dest: set_dropWhileD set_takeWhileD)
  ultimately show ?case
    using 1(1)[OF refl] 1(2)
    by (subst (asm) (2) split_path_segments.simps) (auto simp: Let_def split: if_splits)
qed

lemma split_segments_cons:
  assumes "seg_wf p" "s = [] \<or> hd s = CHR ''/''"
  shows "split_path_segments (CHR ''/'' # p @ s) = p # split_path_segments s"
proof -
  obtain c q where p: "p = c # q" "c \<noteq> CHR ''/''" using assms(1) by (cases p) (auto simp: seg_wf_def)
  have "takeWhile (\<lambda>c. c \<noteq> CHR ''/'') (p @ s) = p" "dropWhile (\<lambda>c. c \<noteq> CHR ''/'') (p @ s) = s"
    using assms by (cases s; auto simp: seg_wf_def takeWhile_append dropWhile_append)+
  with p show ?thesis by (simp add: split_path_segments.simps[of "CHR ''/'' # c # q @ s"])
qed

lemma split_segments_join:
  "list_all seg_wf ps \<Longrightarrow> split_path_segments (concat (map (\<lambda>p. CHR ''/'' # p) ps)) = ps"
proof (induction ps)
  case Nil
  then show ?case by (simp add: split_path_segments.simps)
next
  case (Cons p ps)
  then show ?case
    using split_segments_cons[of p "concat (map (\<lambda>p. CHR ''/'' # p) ps)"] by (cases ps) auto
qed

lemma request_path_takeWhile: "request_path t = takeWhile (\<lambda>c. c \<noteq> CHR ''?'') t"
  unfolding request_path_def
proof (induction t)
  case (Cons c t)
  then show ?case by (cases "find_char (CHR ''?'') t") auto
qed simp

lemma request_path_append:
  "CHR ''?'' \<notin> set p \<Longrightarrow> suf = [] \<or> hd suf = CHR ''?'' \<Longrightarrow> request_path (p @ suf) = p"
  by (cases suf) (auto simp: request_path_takeWhile takeWhile_append)

lemma query_part: "drop (length (request_path t)) t = dropWhile (\<lambda>c. c \<noteq> CHR ''?'') t"
  by (simp add: request_path_takeWhile dropWhile_eq_drop)

lemma strip_prefix_path:
  "request_path (strip_matched_prefix t n) =
     (if n < length (split_path_segments (request_path t))
      then concat (map (\<lambda>p. CHR ''/'' # p) (drop n (split_path_segments (request_path t)))) else ''/'')"
proof -
  let ?parts = "split_path_segments (request_path t)"
  let ?new = "if n < length ?parts then concat (map (\<lambda>p. CHR ''/'' # p) (drop n ?parts)) else ''/''"
  have "CHR ''?'' \<notin> set (request_path t)"
    by (auto simp: request_path_takeWhile dest: set_takeWhileD)
  then have "CHR ''?'' \<notin> set p" if "p \<in> set ?parts" for p using split_segments_set[OF that] by blast
  then have "CHR ''?'' \<notin> set ?new" by (auto dest: in_set_dropD)
  moreover have "drop (length (request_path t)) t = [] \<or> hd (drop (length (request_path t)) t) = CHR ''?''"
    unfolding query_part using hd_dropWhile[of "\<lambda>c. c \<noteq> CHR ''?''" t] by blast
  ultimately show ?thesis
    using request_path_append[of ?new "drop (length (request_path t)) t"] by (simp add: strip_matched_prefix_def Let_def)
qed

section \<open>Matching\<close>

definition seg_matches :: "string \<Rightarrow> string \<Rightarrow> bool" where
  "seg_matches pat seg \<longleftrightarrow> is_param pat \<or> pat = seg"

primrec bindings :: "string list \<Rightarrow> string list \<Rightarrow> Params" where
  "bindings [] segs = []"
| "bindings (pat # pats) segs =
     (case segs of
        [] \<Rightarrow> []
      | seg # segs' \<Rightarrow> (if is_param pat then [(tl pat, seg)] else []) @ bindings pats segs')"

lemma match_loop_plain:
  "''*'' \<notin> set pats \<Longrightarrow>
   match_loop pats segs i n ps =
     (if length pats \<le> length segs \<and> list_all2 seg_matches pats (take (length pats) segs)
      then Some \<lparr>m_params = ps @ bindings pats segs, m_segments = n\<rparr> else None)"
proof (induction pats arbitrary: segs i ps)
  case (Cons pat pats)
  then show ?case by (cases segs) (auto simp: seg_matches_def)
qed simp

lemma match_loop_wild:
  "''*'' \<notin> set qs \<Longrightarrow>
   match_loop (qs @ [''*'']) segs i n ps =
     (if length qs \<le> length segs \<and> list_all2 seg_matches qs (take (length qs) segs)
      then Some \<lparr>m_params = ps @ bindings qs segs @ [(''*'', join_tail (drop (length qs) segs))], m_segments = i + length qs\<rparr>
      else None)"
proof (induction qs arbitrary: segs i ps)
  case (Cons q qs)
  then show ?case by (cases segs) (auto simp: seg_matches_def)
qed simp

lemma wildcard_index_None: "wildcard_index ps = None \<longleftrightarrow> ''*'' \<notin> set ps"
  by (induction ps) auto

lemma wildcard_index_last:
  "wildcard_index ps = Some i \<Longrightarrow> i + 1 = length ps \<Longrightarrow> \<exists>qs. ps = qs @ [''*''] \<and> ''*'' \<notin> set qs"
proof (induction ps arbitrary: i)
  case (Cons p ps)
  show ?case
  proof (cases "p = ''*''")
    case True
    with Cons.prems have "p # ps = [] @ [''*''] \<and> ''*'' \<notin> set []" by simp
    then show ?thesis by blast
  next
    case False
    with Cons obtain qs where "ps = qs @ [''*'']" "''*'' \<notin> set qs" by auto
    with False have "p # ps = (p # qs) @ [''*''] \<and> ''*'' \<notin> set (p # qs)" by simp
    then show ?thesis by blast
  qed
qed simp

lemma wildcard_index_append: "''*'' \<notin> set qs \<Longrightarrow> wildcard_index (qs @ ''*'' # r) = Some (length qs)"
  by (induction qs) auto

text \<open>What a pattern means: literal segments, parameters, and a wildcard that may only come last.\<close>

definition route_spec :: "string list \<Rightarrow> string list \<Rightarrow> bool \<Rightarrow> MatchResult \<Rightarrow> bool" where
  "route_spec ps ss prefix m \<longleftrightarrow>
     (''*'' \<notin> set ps \<and> (if prefix then length ps \<le> length ss else length ps = length ss) \<and>
      list_all2 seg_matches ps (take (length ps) ss) \<and> m = \<lparr>m_params = bindings ps ss, m_segments = length ps\<rparr>) \<or>
     (\<exists>qs. ps = qs @ [''*''] \<and> ''*'' \<notin> set qs \<and> length qs \<le> length ss \<and>
      list_all2 seg_matches qs (take (length qs) ss) \<and>
      m = \<lparr>m_params = bindings qs ss @ [(''*'', join_tail (drop (length qs) ss))], m_segments = length qs\<rparr>)"

section \<open>Choosing a route\<close>

definition matches :: "RequestContext \<Rightarrow> 'w Route \<Rightarrow> bool" where
  "matches ctx rt \<longleftrightarrow> match_route (request_path (rq_target (cx_request ctx))) (rt_path rt) (rt_prefix rt) \<noteq> None"

definition allows :: "RequestContext \<Rightarrow> 'w Route \<Rightarrow> bool" where
  "allows ctx rt \<longleftrightarrow> (case rt_method rt of None \<Rightarrow> True | Some x \<Rightarrow> iequals (rq_method (cx_request ctx)) x)"

definition entered :: "RequestContext \<Rightarrow> 'w Route \<Rightarrow> RequestContext" where
  "entered ctx rt =
     (case match_route (request_path (rq_target (cx_request ctx))) (rt_path rt) (rt_prefix rt) of
        None \<Rightarrow> ctx | Some m \<Rightarrow> enter_route rt m ctx)"

text \<open>The methods of the routes that match the path.\<close>

definition offered :: "RequestContext \<Rightarrow> 'w Route list \<Rightarrow> string list" where
  "offered ctx rts = concat (map (\<lambda>rt. case rt_method rt of None \<Rightarrow> [] | Some x \<Rightarrow> [x]) (filter (matches ctx) rts))"

definition merge_methods :: "string list \<Rightarrow> string list \<Rightarrow> string list" where
  "merge_methods ms acc = foldl (\<lambda>a x. add_allowed_method x a) acc ms"

lemma select_route_find:
  "select_route rts ctx acc =
     (case find (\<lambda>rt. matches ctx rt \<and> allows ctx rt) rts of
        Some rt \<Rightarrow> Inl (rt_handler rt, entered ctx rt)
      | None \<Rightarrow> Inr (merge_methods (offered ctx rts) acc))"
proof (induction rts arbitrary: acc)
  case Nil
  then show ?case by (simp add: offered_def merge_methods_def)
next
  case (Cons rt rts)
  then show ?case
    by (auto simp: matches_def allows_def entered_def offered_def merge_methods_def split: option.splits)
qed

lemma merge_methods_Cons: "merge_methods (m # ms) acc = merge_methods ms (add_allowed_method m acc)"
  by (simp add: merge_methods_def)

lemma add_allowed_method_set: "set acc \<subseteq> set (add_allowed_method m acc)" "set (add_allowed_method m acc) \<subseteq> insert m (set acc)"
  by (auto simp: add_allowed_method_def)

lemma merge_methods_keeps: "set acc \<subseteq> set (merge_methods ms acc)"
proof (induction ms arbitrary: acc)
  case (Cons m ms)
  then show ?case using add_allowed_method_set(1)[of acc m] unfolding merge_methods_Cons by blast
qed (simp add: merge_methods_def)

lemma merge_methods_from: "set (merge_methods ms acc) \<subseteq> set acc \<union> set ms"
proof (induction ms arbitrary: acc)
  case (Cons m ms)
  then show ?case using add_allowed_method_set(2)[of m acc] unfolding merge_methods_Cons by fastforce
qed (simp add: merge_methods_def)

lemma merge_methods_covers: "x \<in> set ms \<Longrightarrow> \<exists>y \<in> set (merge_methods ms acc). iequals y x"
proof (induction ms arbitrary: acc)
  case (Cons m ms)
  show ?case
  proof (cases "x = m")
    case True
    have "\<exists>y \<in> set (add_allowed_method m acc). iequals y m"
      by (auto simp: add_allowed_method_def list_ex_iff)
    then obtain y where y: "y \<in> set (add_allowed_method m acc)" "iequals y m" by blast
    then have "y \<in> set (merge_methods (m # ms) acc)"
      using merge_methods_keeps[of "add_allowed_method m acc" ms] by (auto simp: merge_methods_def)
    with y(2) True show ?thesis by blast
  next
    case False
    with Cons show ?thesis by (auto simp: merge_methods_def)
  qed
qed simp

lemma merge_methods_distinct:
  "distinct (map (map to_lower) acc) \<Longrightarrow> distinct (map (map to_lower) (merge_methods ms acc))"
proof (induction ms arbitrary: acc)
  case (Cons m ms)
  have "distinct (map (map to_lower) (add_allowed_method m acc))"
    using Cons.prems by (auto simp: add_allowed_method_def list_ex_iff iequals_map)
  with Cons.IH show ?case by (simp add: merge_methods_def)
qed (simp add: merge_methods_def)

lemma merge_methods_empty: "merge_methods ms [] = [] \<longleftrightarrow> ms = []"
  using merge_methods_covers[of "hd ms" ms "[]"] by (cases ms) (auto simp: merge_methods_def)

section \<open>Mount levels\<close>

definition mounts :: "'w router_state \<Rightarrow> router set" where
  "mounts s = {r. \<exists>rt \<in> set (rs_routes s). rt_handler rt = Mounted r}"

text \<open>An acyclic store: a rank that falls along every mount.\<close>

definition ranked :: "(router \<Rightarrow> nat) \<Rightarrow> 'w store \<Rightarrow> bool" where
  "ranked rank st \<longleftrightarrow> (\<forall>r. \<forall>r' \<in> mounts (st r). rank r' < rank r)"

lemma select_route_mounted: "select_route rts ctx acc = Inl (Mounted r, ctx') \<Longrightarrow> \<exists>rt \<in> set rts. rt_handler rt = Mounted r"
  by (auto simp: select_route_find find_Some_iff split: option.splits)

lemma dispatch_cong:
  assumes "\<And>r. r \<in> mounts s \<Longrightarrow> run r = run' r"
  shows "dispatch run s = dispatch run' s"
proof (intro ext)
  fix ctx w
  show "dispatch run s ctx w = dispatch run' s ctx w"
  proof (cases "select_route (rs_routes s) ctx []")
    case (Inl p)
    obtain h c where p: "p = (h, c)" by fastforce
    show ?thesis
    proof (cases h)
      case (Mounted r)
      then have "r \<in> mounts s" using select_route_mounted Inl p by (auto simp: mounts_def)
      with assms Inl p Mounted show ?thesis by (simp add: dispatch_def)
    qed (use Inl p in \<open>simp add: dispatch_def\<close>)
  qed (simp add: dispatch_def)
qed

lemma handle_context_fuel:
  "ranked rank st \<Longrightarrow> rank r < f \<Longrightarrow> handle_context f st r = handle_context (Suc (rank r)) st r"
proof (induction "rank r" arbitrary: r f rule: less_induct)
  case less
  obtain g where f: "f = Suc g" using less.prems(2) by (cases f) auto
  have "handle_context g st r' = handle_context (rank r) st r'" if "r' \<in> mounts (st r)" for r'
  proof -
    have lt: "rank r' < rank r" using less.prems(1) that by (auto simp: ranked_def)
    moreover have "rank r' < g" using lt less.prems(2) f by linarith
    ultimately show ?thesis
      using less.hyps[OF lt less.prems(1), of g] less.hyps[OF lt less.prems(1), of "rank r"] by metis
  qed
  then have "dispatch (handle_context g st) (st r) = dispatch (handle_context (rank r) st) (st r)"
    by (rule dispatch_cong)
  then show ?case by (simp only: f handle_context.simps)
qed

section \<open>Properties\<close>

text \<open>C8: A route pattern matches a path exactly when its literal segments are equal to the path's, its
  parameters stand for one segment each and a wildcard, only allowed last, stands for the rest; the
  parameters are bound in order. A plain route must cover the whole path, a prefix route its front.\<close>

theorem match_route_meaning:
  "match_route path pattern prefix = Some m \<longleftrightarrow>
     route_spec (split_path_segments pattern) (split_path_segments path) prefix m"
proof -
  let ?ps = "split_path_segments pattern" and ?ss = "split_path_segments path"
  consider (plain) "''*'' \<notin> set ?ps" | (wild) qs where "?ps = qs @ [''*'']" "''*'' \<notin> set qs"
    | (inner) i where "wildcard_index ?ps = Some i" "i + 1 \<noteq> length ?ps"
    using wildcard_index_None[of ?ps] wildcard_index_last[of ?ps] by (metis not_Some_eq)
  then show ?thesis
  proof cases
    case plain
    then have "wildcard_index ?ps = None" by (simp add: wildcard_index_None)
    with plain show ?thesis
      by (auto simp: match_route_def Let_def match_loop_plain route_spec_def)
  next
    case (wild qs)
    then show ?thesis
      by (auto simp: match_route_def Let_def match_loop_wild wildcard_index_append route_spec_def)
  next
    case (inner i)
    then have "''*'' \<in> set ?ps" "\<not> (\<exists>qs. ?ps = qs @ [''*''] \<and> ''*'' \<notin> set qs)"
      using wildcard_index_None[of ?ps] wildcard_index_append by fastforce+
    with inner show ?thesis by (auto simp: match_route_def Let_def route_spec_def)
  qed
qed

text \<open>C3: dispatch runs the handler of the first route that matches the path and allows the method. If
  routes match but none allows the method, it answers 405 and the Allow header lists each method of
  the matching routes exactly once, up to case. If no route matches, the not_found handler runs, or
  the answer is 404.\<close>

theorem dispatch_meaning:
  "(\<forall>rt. find (\<lambda>rt. matches ctx rt \<and> allows ctx rt) (rs_routes s) = Some rt \<longrightarrow>
      dispatch run s ctx w =
        (case rt_handler rt of User h \<Rightarrow> h (entered ctx rt) w | Mounted r \<Rightarrow> run r (entered ctx rt) w)) \<and>
   (find (\<lambda>rt. matches ctx rt \<and> allows ctx rt) (rs_routes s) = None \<longrightarrow>
      (if offered ctx (rs_routes s) \<noteq> [] then
         \<exists>ms. dispatch run s ctx w = (Inr (method_not_allowed ms), w) \<and> set ms \<subseteq> set (offered ctx (rs_routes s)) \<and>
           (\<forall>x \<in> set (offered ctx (rs_routes s)). \<exists>y \<in> set ms. iequals y x) \<and> distinct (map (map to_lower) ms)
       else dispatch run s ctx w =
         (case rs_not_found s of Some h \<Rightarrow> h ctx w | None \<Rightarrow> (Inr not_found_response, w))))"
proof -
  have "\<exists>ms. dispatch run s ctx w = (Inr (method_not_allowed ms), w) \<and> set ms \<subseteq> set (offered ctx (rs_routes s)) \<and>
      (\<forall>x \<in> set (offered ctx (rs_routes s)). \<exists>y \<in> set ms. iequals y x) \<and> distinct (map (map to_lower) ms)"
    if "find (\<lambda>rt. matches ctx rt \<and> allows ctx rt) (rs_routes s) = None" "offered ctx (rs_routes s) \<noteq> []"
    using that merge_methods_from[of "offered ctx (rs_routes s)" "[]"] merge_methods_covers[of _ "offered ctx (rs_routes s)" "[]"]
      merge_methods_distinct[of "[]" "offered ctx (rs_routes s)"] merge_methods_empty[of "offered ctx (rs_routes s)"]
    by (intro exI[of _ "merge_methods (offered ctx (rs_routes s)) []"])
      (auto simp: dispatch_def select_route_find)
  then show ?thesis
    by (auto simp: dispatch_def select_route_find merge_methods_empty split: route_handler.splits)
qed

definition sample_context :: RequestContext where
  "sample_context = \<lparr>cx_request = sample_request\<lparr>rq_target := ''/a/7?q''\<rparr>, cx_params = []\<rparr>"

definition sample_router :: "unit router_state" where
  "sample_router =
     \<lparr>rs_routes =
        [\<lparr>rt_method = Some ''GET'', rt_path = ''/a/:id'', rt_handler = Mounted 1, rt_prefix = False, rt_strip_prefix = False\<rparr>,
         \<lparr>rt_method = Some ''get'', rt_path = ''/a/*'', rt_handler = Mounted 2, rt_prefix = False, rt_strip_prefix = False\<rparr>],
      rs_middlewares = [], rs_not_found = None\<rparr>"

theorem dispatch_meaning_witness:
  "\<exists>ms. dispatch (handle_context 0 (\<lambda>_. new_state)) sample_router sample_context () = (Inr (method_not_allowed ms), ()) \<and>
     set ms \<subseteq> {''GET'', ''get''} \<and> distinct (map (map to_lower) ms)"
proof -
  have r: "match_route ''/a/7'' ''/a/:id'' False \<noteq> None" "match_route ''/a/7'' ''/a/*'' False \<noteq> None"
    "request_path ''/a/7?q'' = ''/a/7''" "\<not> iequals ''PUT'' ''GET''" "\<not> iequals ''PUT'' ''get''" by code_simp+
  then have "find (\<lambda>rt. matches sample_context rt \<and> allows sample_context rt) (rs_routes sample_router) = None"
    "offered sample_context (rs_routes sample_router) = [''GET'', ''get'']"
    by (simp_all add: sample_router_def sample_context_def sample_request_def matches_def allows_def offered_def)
  then show ?thesis
    using dispatch_meaning[of sample_context sample_router "handle_context 0 (\<lambda>_. new_state)" "()"] by auto
qed

text \<open>A mounted router sees the target without the segments its mount path matched, and with the query
  string unchanged.\<close>

theorem strip_prefix_meaning:
  "split_path_segments (request_path (strip_matched_prefix target n)) = drop n (split_path_segments (request_path target)) \<and>
   drop (length (request_path (strip_matched_prefix target n))) (strip_matched_prefix target n) =
     drop (length (request_path target)) target"
proof -
  let ?parts = "split_path_segments (request_path target)"
  have wf: "list_all seg_wf (drop n ?parts)"
    using split_segments_wf[of "request_path target"] by (auto simp: list_all_iff dest: in_set_dropD)
  have "split_path_segments ''/'' = []" by (simp add: split_path_segments.simps)
  then have "split_path_segments (request_path (strip_matched_prefix target n)) = drop n ?parts"
    using split_segments_join[OF wf] by (simp add: strip_prefix_path)
  moreover have "drop (length (request_path (strip_matched_prefix target n))) (strip_matched_prefix target n) =
     drop (length (request_path target)) target"
    by (simp add: strip_prefix_path) (simp add: strip_matched_prefix_def Let_def)
  ultimately show ?thesis by simp
qed

text \<open>C32: When no router is mounted below itself, handling a request ends after at most as many mount levels
  as the longest chain of mounts: more fuel changes nothing.\<close>

theorem mounts_bounded:
  assumes "ranked rank st" "rank r < f"
  shows "router_handle f st r request w = router_handle (Suc (rank r)) st r request w"
  using handle_context_fuel[OF assms] by (simp add: router_handle_def)

theorem mounts_bounded_witness:
  "router_handle 9 (mount ''/api'' 1 0 (\<lambda>_. new_state :: unit router_state)) 0 sample_request () =
     router_handle 2 (mount ''/api'' 1 0 (\<lambda>_. new_state)) 0 sample_request ()"
proof -
  have "ranked (\<lambda>r. if r = 0 then 1 else 0) (mount ''/api'' 1 0 (\<lambda>_. new_state :: unit router_state))"
    by (auto simp: ranked_def mounts_def mount_def add_route_def new_state_def split: if_splits)
  from mounts_bounded[OF this, of 0 9 sample_request "()"] show ?thesis by (simp add: numeral_2_eq_2)
qed

end
