(* ===== verification/Transition.thy ===== *)
theory Transition
  imports Main
begin

text \<open>
  Step relations: the states reached from an initial state, and the interface
  every concurrent component of the development uses to prove an invariant of
  its step relation.  The concurrent components (semaphore, mutex, queue,
  event, task group, executor, blocking work, file, listener, UDP socket, server)
  describe each critical section, each access to an atomic flag and each run
  of a coroutine up to its next suspension as one step.  Tasks are numbered.
\<close>

type_synonym task = nat

inductive reachable :: "('s \<Rightarrow> bool) \<Rightarrow> ('s \<Rightarrow> 's \<Rightarrow> bool) \<Rightarrow> 's \<Rightarrow> bool"
  for init step where
  start: "init s \<Longrightarrow> reachable init step s"
| next_state: "reachable init step s \<Longrightarrow> step s s' \<Longrightarrow> reachable init step s'"

lemma reachable_run:
  assumes "reachable init step s" "step\<^sup>*\<^sup>* s s'"
  shows "reachable init step s'"
  using assms(2,1) by (induction rule: rtranclp_induct) (auto intro: next_state)

locale invariant_system =
  fixes init :: "'s \<Rightarrow> bool" and step :: "'s \<Rightarrow> 's \<Rightarrow> bool" and good :: "'s \<Rightarrow> bool"
  assumes init_good: "init s \<Longrightarrow> good s"
    and step_good: "good s \<Longrightarrow> step s s' \<Longrightarrow> good s'"
begin

lemma reachable_good: "reachable init step s \<Longrightarrow> good s"
  by (induction rule: reachable.induct) (auto intro: init_good step_good)

lemma run_good: "step\<^sup>*\<^sup>* s s' \<Longrightarrow> good s \<Longrightarrow> good s'"
  by (induction rule: rtranclp_induct) (auto intro: step_good)

end

end
