(* ===== verification/Reset_Event.thy ===== *)
theory Reset_Event
  imports Prelude Transition
begin

text \<open>
  ManualResetEvent (src/include/corouv/event.h): an event that coroutines wait
  for, set and reset from any thread.  The operations are translated over a
  store of waiter records as for the semaphore; the step relation interleaves
  them.  A waiter is never left asleep on a set event; but a cancellation that
  arrives while the waiter registers on an event that has just been set
  resumes a coroutine that is already running.
\<close>

section \<open>Operations\<close>

type_synonym op_addr = nat

record ManualResetEventOp =
  op_continuation :: "task option"
  op_done :: bool
  op_abandoned :: bool

record event =
  signaled :: bool
  ev_waiters :: "op_addr list"
  ev_heap :: "op_addr \<Rightarrow> ManualResetEventOp"
  ev_next :: op_addr
  ev_resumed :: "task list"

definition new_op :: "task \<Rightarrow> ManualResetEventOp" where
  "new_op t = \<lparr>op_continuation = Some t, op_done = False, op_abandoned = False\<rparr>"

definition ManualResetEvent :: "bool \<Rightarrow> event" where
  "ManualResetEvent initially = \<lparr>signaled = initially, ev_waiters = [], ev_heap = (\<lambda>_. new_op 0), ev_next = 0,
     ev_resumed = []\<rparr>"

definition ev_upd :: "op_addr \<Rightarrow> (ManualResetEventOp \<Rightarrow> ManualResetEventOp) \<Rightarrow> event \<Rightarrow> event" where
  "ev_upd w f e = e\<lparr>ev_heap := (ev_heap e)(w := f (ev_heap e w))\<rparr>"

definition ev_live :: "event \<Rightarrow> op_addr list" where
  "ev_live e = filter (\<lambda>w. \<not> op_done (ev_heap e w)) (ev_waiters e)"

definition ev_compact :: "event \<Rightarrow> event" where
  "ev_compact e = e\<lparr>ev_waiters := ev_live e\<rparr>"

text \<open>The critical section of set returns the waiters whose request_resume is due.\<close>

definition set_locked :: "event \<Rightarrow> op_addr list \<times> event" where
  "set_locked e = (let e1 = ev_compact (e\<lparr>signaled := True\<rparr>) in (ev_waiters e1, e1\<lparr>ev_waiters := []\<rparr>))"

definition ev_reset :: "event \<Rightarrow> event" where
  "ev_reset e = ev_compact (e\<lparr>signaled := False\<rparr>)"

definition register_waiter :: "op_addr \<Rightarrow> event \<Rightarrow> bool \<times> event" where
  "register_waiter w e = (let e1 = ev_compact e in
     if signaled e1 then (False, e1) else (True, e1\<lparr>ev_waiters := ev_waiters e1 @ [w]\<rparr>))"

definition ev_remove_waiter :: "op_addr \<Rightarrow> event \<Rightarrow> event" where
  "ev_remove_waiter w e = e\<lparr>ev_waiters := filter (\<lambda>x. x \<noteq> w \<and> \<not> op_done (ev_heap e x)) (ev_waiters e)\<rparr>"

text \<open>request_resume: the flag is taken, the waiter unlinked, its handle given to the executor.\<close>

definition mark_op :: "op_addr \<Rightarrow> event \<Rightarrow> bool \<times> event" where
  "mark_op w e = (op_done (ev_heap e w), ev_upd w (\<lambda>x. x\<lparr>op_done := True\<rparr>) e)"

definition resume_op :: "op_addr \<Rightarrow> event \<Rightarrow> event" where
  "resume_op w e = (if op_abandoned (ev_heap e w) then e else
     (case op_continuation (ev_heap e w) of
        None \<Rightarrow> e
      | Some t \<Rightarrow> (ev_upd w (\<lambda>x. x\<lparr>op_continuation := None\<rparr>) e)\<lparr>ev_resumed := ev_resumed e @ [t]\<rparr>))"

definition request_resume :: "op_addr \<Rightarrow> event \<Rightarrow> event" where
  "request_resume w e = (case mark_op w e of
     (True, e1) \<Rightarrow> e1
   | (False, e1) \<Rightarrow> resume_op w (ev_remove_waiter w e1))"

definition ev_set :: "event \<Rightarrow> event" where
  "ev_set e = (case set_locked e of (ws, e1) \<Rightarrow> fold request_resume ws e1)"

definition ev_await_ready :: "bool \<Rightarrow> event \<Rightarrow> bool" where
  "ev_await_ready canceled e \<longleftrightarrow> signaled e \<or> canceled"

definition make_op :: "task \<Rightarrow> event \<Rightarrow> op_addr \<times> event" where
  "make_op t e = (ev_next e, e\<lparr>ev_heap := (ev_heap e)(ev_next e := new_op t), ev_next := ev_next e + 1\<rparr>)"

definition ev_await_resume :: "bool \<Rightarrow> unit result" where
  "ev_await_resume canceled = (if canceled then Inl (SignalException ''corouv event canceled'') else Inr ())"

definition destroy_op :: "op_addr \<Rightarrow> event \<Rightarrow> event" where
  "destroy_op w e =
     ev_remove_waiter w (ev_upd w (\<lambda>x. x\<lparr>op_abandoned := True, op_continuation := None, op_done := True\<rparr>) e)"

section \<open>Running the operations concurrently\<close>

text \<open>
  Where a task is in its call of wait; EvResuming is the moment before
  await_resume, with the waiter record if one was made.
\<close>

datatype ev_pc =
    EvIdle
  | EvSuspending
  | EvRegistering op_addr
  | EvSuspended op_addr
  | EvResuming "op_addr option"
  | EvDone "unit result"
  | EvDestroyed

text \<open>
  requested are the calls of request_resume that have not yet taken the flag,
  marked those that took it and have not yet unlinked the waiter, unlinked
  those that have still to hand the handle over.
\<close>

record ev_sys =
  ev :: event
  ev_pcs :: "task \<Rightarrow> ev_pc"
  requested :: "op_addr list"
  marked :: "op_addr list"
  unlinked :: "op_addr list"
  ev_handlers :: "op_addr list"
  ev_homes :: "op_addr \<Rightarrow> task"

definition ev_pc_set :: "task \<Rightarrow> ev_pc \<Rightarrow> ev_sys \<Rightarrow> ev_sys" where
  "ev_pc_set t p \<sigma> = \<sigma>\<lparr>ev_pcs := (ev_pcs \<sigma>)(t := p)\<rparr>"

definition ev_init :: "ev_sys \<Rightarrow> bool" where
  "ev_init \<sigma> \<longleftrightarrow> (\<exists>b. ev \<sigma> = ManualResetEvent b) \<and> ev_pcs \<sigma> = (\<lambda>_. EvIdle) \<and> requested \<sigma> = [] \<and>
     marked \<sigma> = [] \<and> unlinked \<sigma> = [] \<and> ev_handlers \<sigma> = []"

definition close_op :: "op_addr option \<Rightarrow> event \<Rightarrow> event" where
  "close_op op e = (case op of None \<Rightarrow> e | Some w \<Rightarrow> destroy_op w e)"

text \<open>
  The cancellation handler runs on the thread that cancels, at any moment
  after it was emplaced (ev_cancel).  A handle given to the executor runs when
  its task is suspended (ev_run).  The stores of the awaiter's destructor are
  one step, with await_resume (ev_finish) or alone (ev_destroy).
\<close>

inductive ev_step :: "ev_sys \<Rightarrow> ev_sys \<Rightarrow> bool" where
  ev_ready: "\<lbrakk>ev_pcs \<sigma> t = EvIdle; ev_await_ready canceled (ev \<sigma>) = rd\<rbrakk> \<Longrightarrow>
    ev_step \<sigma> (ev_pc_set t (if rd then EvResuming None else EvSuspending) \<sigma>)"
| ev_emplace: "\<lbrakk>ev_pcs \<sigma> t = EvSuspending; make_op t (ev \<sigma>) = (w, e)\<rbrakk> \<Longrightarrow>
    ev_step \<sigma> (ev_pc_set t (EvRegistering w)
      (\<sigma>\<lparr>ev := e, ev_homes := (ev_homes \<sigma>)(w := t), ev_handlers := w # ev_handlers \<sigma>\<rparr>))"
| ev_emplace_refused: "\<lbrakk>ev_pcs \<sigma> t = EvSuspending; make_op t (ev \<sigma>) = (w, e)\<rbrakk> \<Longrightarrow>
    ev_step \<sigma> (ev_pc_set t (EvResuming (Some w)) (\<sigma>\<lparr>ev := e, ev_homes := (ev_homes \<sigma>)(w := t)\<rparr>))"
| ev_register: "\<lbrakk>ev_pcs \<sigma> t = EvRegistering w; register_waiter w (ev \<sigma>) = (sus, e)\<rbrakk> \<Longrightarrow>
    ev_step \<sigma> (ev_pc_set t (if sus then EvSuspended w else EvResuming (Some w)) (\<sigma>\<lparr>ev := e\<rparr>))"
| ev_run: "\<lbrakk>t \<in> set (ev_resumed (ev \<sigma>)); ev_pcs \<sigma> t = EvSuspended w\<rbrakk> \<Longrightarrow>
    ev_step \<sigma> (ev_pc_set t (EvResuming (Some w))
      (\<sigma>\<lparr>ev := (ev \<sigma>)\<lparr>ev_resumed := remove1 t (ev_resumed (ev \<sigma>))\<rparr>\<rparr>))"
| ev_finish: "ev_pcs \<sigma> t = EvResuming op \<Longrightarrow>
    ev_step \<sigma> (ev_pc_set t (EvDone (ev_await_resume canceled)) (\<sigma>\<lparr>ev := close_op op (ev \<sigma>)\<rparr>))"
| ev_again: "ev_pcs \<sigma> t = EvDone r \<Longrightarrow> ev_step \<sigma> (ev_pc_set t EvIdle \<sigma>)"
| ev_destroy: "\<lbrakk>ev_pcs \<sigma> t = EvSuspended w; t \<notin> set (ev_resumed (ev \<sigma>))\<rbrakk> \<Longrightarrow>
    ev_step \<sigma> (ev_pc_set t EvDestroyed (\<sigma>\<lparr>ev := destroy_op w (ev \<sigma>)\<rparr>))"
| ev_set_step: "set_locked (ev \<sigma>) = (ws, e) \<Longrightarrow>
    ev_step \<sigma> (\<sigma>\<lparr>ev := e, requested := requested \<sigma> @ ws\<rparr>)"
| ev_reset_step: "ev_step \<sigma> (\<sigma>\<lparr>ev := ev_reset (ev \<sigma>)\<rparr>)"
| ev_cancel: "w \<in> set (ev_handlers \<sigma>) \<Longrightarrow> ev_step \<sigma> (\<sigma>\<lparr>requested := w # requested \<sigma>\<rparr>)"
| ev_mark: "\<lbrakk>w \<in> set (requested \<sigma>); mark_op w (ev \<sigma>) = (was_done, e)\<rbrakk> \<Longrightarrow>
    ev_step \<sigma> (\<sigma>\<lparr>ev := e, requested := remove1 w (requested \<sigma>),
      marked := (if was_done then marked \<sigma> else w # marked \<sigma>)\<rparr>)"
| ev_unlink: "w \<in> set (marked \<sigma>) \<Longrightarrow>
    ev_step \<sigma> (\<sigma>\<lparr>ev := ev_remove_waiter w (ev \<sigma>), marked := remove1 w (marked \<sigma>), unlinked := w # unlinked \<sigma>\<rparr>)"
| ev_resume: "w \<in> set (unlinked \<sigma>) \<Longrightarrow>
    ev_step \<sigma> (\<sigma>\<lparr>ev := resume_op w (ev \<sigma>), unlinked := remove1 w (unlinked \<sigma>)\<rparr>)"

section \<open>The invariant\<close>

fun ev_op_of :: "ev_pc \<Rightarrow> op_addr option" where
  "ev_op_of (EvRegistering w) = Some w"
| "ev_op_of (EvSuspended w) = Some w"
| "ev_op_of (EvResuming op) = op"
| "ev_op_of _ = None"

definition ev_addrs :: "ev_sys \<Rightarrow> bool" where
  "ev_addrs \<sigma> \<longleftrightarrow> (\<forall>w\<in>set (ev_handlers \<sigma>) \<union> set (requested \<sigma>) \<union> set (marked \<sigma>) \<union> set (unlinked \<sigma>) \<union>
     set (ev_waiters (ev \<sigma>)). w < ev_next (ev \<sigma>))"

definition ev_owners :: "ev_sys \<Rightarrow> bool" where
  "ev_owners \<sigma> \<longleftrightarrow> (\<forall>t w. ev_op_of (ev_pcs \<sigma> t) = Some w \<longrightarrow> w < ev_next (ev \<sigma>) \<and> ev_homes \<sigma> w = t) \<and>
     (\<forall>w<ev_next (ev \<sigma>). \<forall>t. op_continuation (ev_heap (ev \<sigma>) w) = Some t \<longrightarrow> ev_homes \<sigma> w = t)"

text \<open>The waiter of a task that registers or sleeps still leads to its resumption.\<close>

definition ev_attached :: "ev_sys \<Rightarrow> task \<Rightarrow> op_addr \<Rightarrow> bool" where
  "ev_attached \<sigma> t w \<longleftrightarrow> \<not> op_abandoned (ev_heap (ev \<sigma>) w) \<and>
     (if op_done (ev_heap (ev \<sigma>) w)
      then t \<in> set (ev_resumed (ev \<sigma>)) \<or>
           (op_continuation (ev_heap (ev \<sigma>) w) = Some t \<and> w \<in> set (marked \<sigma>) \<union> set (unlinked \<sigma>))
      else op_continuation (ev_heap (ev \<sigma>) w) = Some t)"

definition ev_waiting :: "ev_sys \<Rightarrow> bool" where
  "ev_waiting \<sigma> \<longleftrightarrow> (\<forall>t w. ev_pcs \<sigma> t = EvRegistering w \<longrightarrow> ev_attached \<sigma> t w) \<and>
     (\<forall>t w. ev_pcs \<sigma> t = EvSuspended w \<longrightarrow> ev_attached \<sigma> t w \<and>
       (\<not> op_done (ev_heap (ev \<sigma>) w) \<longrightarrow> w \<in> set (ev_waiters (ev \<sigma>)) \<union> set (requested \<sigma>)))"

definition ev_marks :: "ev_sys \<Rightarrow> bool" where
  "ev_marks \<sigma> \<longleftrightarrow> (\<forall>w\<in>set (marked \<sigma>) \<union> set (unlinked \<sigma>). op_done (ev_heap (ev \<sigma>) w)) \<and>
     (signaled (ev \<sigma>) \<longrightarrow> ev_live (ev \<sigma>) = [])"

definition ev_inv :: "ev_sys \<Rightarrow> bool" where
  "ev_inv \<sigma> \<longleftrightarrow> ev_addrs \<sigma> \<and> ev_owners \<sigma> \<and> ev_waiting \<sigma> \<and> ev_marks \<sigma>"

lemma ev_pc_set_simps [simp]:
  "ev (ev_pc_set t p \<sigma>) = ev \<sigma>" "ev_pcs (ev_pc_set t p \<sigma>) = (ev_pcs \<sigma>)(t := p)"
  "requested (ev_pc_set t p \<sigma>) = requested \<sigma>" "marked (ev_pc_set t p \<sigma>) = marked \<sigma>"
  "unlinked (ev_pc_set t p \<sigma>) = unlinked \<sigma>" "ev_handlers (ev_pc_set t p \<sigma>) = ev_handlers \<sigma>"
  "ev_homes (ev_pc_set t p \<sigma>) = ev_homes \<sigma>"
  by (simp_all add: ev_pc_set_def)

lemma ev_upd_simps [simp]:
  "signaled (ev_upd w f e) = signaled e" "ev_waiters (ev_upd w f e) = ev_waiters e"
  "ev_heap (ev_upd w f e) = (ev_heap e)(w := f (ev_heap e w))" "ev_next (ev_upd w f e) = ev_next e"
  "ev_resumed (ev_upd w f e) = ev_resumed e"
  by (simp_all add: ev_upd_def)

lemma ev_remove_simps [simp]:
  "signaled (ev_remove_waiter w e) = signaled e" "ev_heap (ev_remove_waiter w e) = ev_heap e"
  "ev_next (ev_remove_waiter w e) = ev_next e" "ev_resumed (ev_remove_waiter w e) = ev_resumed e"
  "set (ev_waiters (ev_remove_waiter w e)) = set (ev_live e) - {w}"
  by (auto simp: ev_remove_waiter_def ev_live_def)

lemma ev_reset_simps [simp]:
  "\<not> signaled (ev_reset e)" "ev_heap (ev_reset e) = ev_heap e" "ev_next (ev_reset e) = ev_next e"
  "ev_resumed (ev_reset e) = ev_resumed e" "ev_waiters (ev_reset e) = ev_live e"
  by (simp_all add: ev_reset_def ev_compact_def ev_live_def)

lemma destroy_op_simps [simp]:
  "signaled (destroy_op w e) = signaled e" "ev_next (destroy_op w e) = ev_next e"
  "ev_resumed (destroy_op w e) = ev_resumed e" "x \<noteq> w \<Longrightarrow> ev_heap (destroy_op w e) x = ev_heap e x"
  "op_done (ev_heap (destroy_op w e) w)" "op_continuation (ev_heap (destroy_op w e) w) = None"
  "set (ev_waiters (destroy_op w e)) = set (ev_live e) - {w}"
  by (auto simp: destroy_op_def ev_live_def)

lemma set_locked_facts:
  assumes "set_locked e = (ws, e')"
  shows "ws = ev_live e" "e' = e\<lparr>signaled := True, ev_waiters := []\<rparr>"
  using assms by (auto simp: set_locked_def ev_compact_def ev_live_def Let_def)

lemma register_facts:
  assumes "register_waiter w e = (sus, e')"
  shows "sus \<longleftrightarrow> \<not> signaled e" "e' = e\<lparr>ev_waiters := ev_live e @ (if sus then [w] else [])\<rparr>"
  using assms by (auto simp: register_waiter_def ev_compact_def ev_live_def Let_def split: if_splits)

lemma make_op_facts:
  assumes "make_op t e = (w, e')"
  shows "w = ev_next e" "e' = e\<lparr>ev_heap := (ev_heap e)(w := new_op t), ev_next := Suc w\<rparr>"
  using assms by (auto simp: make_op_def)

lemma mark_op_facts:
  assumes "mark_op w e = (was_done, e')"
  shows "was_done = op_done (ev_heap e w)" "e' = ev_upd w (\<lambda>x. x\<lparr>op_done := True\<rparr>) e"
  using assms by (auto simp: mark_op_def)

lemma ev_live_sub: "set (ev_live e) \<subseteq> set (ev_waiters e)"
  by (auto simp: ev_live_def)

lemma ev_ownersI:
  assumes "\<And>t w. ev_op_of (ev_pcs \<sigma> t) = Some w \<Longrightarrow> w < ev_next (ev \<sigma>) \<and> ev_homes \<sigma> w = t"
    "\<And>w t. w < ev_next (ev \<sigma>) \<Longrightarrow> op_continuation (ev_heap (ev \<sigma>) w) = Some t \<Longrightarrow> ev_homes \<sigma> w = t"
  shows "ev_owners \<sigma>"
  using assms by (simp add: ev_owners_def)

lemma ev_ownersD:
  assumes "ev_owners \<sigma>"
  shows "ev_op_of (ev_pcs \<sigma> t) = Some w \<Longrightarrow> w < ev_next (ev \<sigma>) \<and> ev_homes \<sigma> w = t"
    "w < ev_next (ev \<sigma>) \<Longrightarrow> op_continuation (ev_heap (ev \<sigma>) w) = Some t \<Longrightarrow> ev_homes \<sigma> w = t"
  using assms by (auto simp: ev_owners_def)

lemma ev_addrs_step:
  assumes "ev_step \<sigma> \<sigma>'" "ev_addrs \<sigma>" "ev_owners \<sigma>"
  shows "ev_addrs \<sigma>'"
  using assms
proof (induction rule: ev_step.induct)
  case (ev_emplace \<sigma> t w e)
  then show ?case by (auto simp: ev_addrs_def make_op_facts[OF ev_emplace(2)] less_Suc_eq)
next
  case (ev_emplace_refused \<sigma> t w e)
  then show ?case by (auto simp: ev_addrs_def make_op_facts[OF ev_emplace_refused(2)] less_Suc_eq)
next
  case (ev_register \<sigma> t w sus e)
  have "w < ev_next (ev \<sigma>)" using ev_ownersD(1)[OF ev_register(4), of t w] ev_register(1) by simp
  then show ?case using ev_register(3) ev_live_sub[of "ev \<sigma>"]
    by (auto simp: ev_addrs_def register_facts(2)[OF ev_register(2)] split: if_splits)
next
  case (ev_set_step \<sigma> ws e)
  then show ?case using ev_live_sub[of "ev \<sigma>"]
    by (auto simp: ev_addrs_def set_locked_facts[OF ev_set_step(1)])
next
  case (ev_mark w \<sigma> was_done e)
  then show ?case
    by (auto simp: ev_addrs_def mark_op_facts(2)[OF ev_mark(2)] dest: set_remove1_subset[THEN subsetD] split: if_splits)
next
  case (ev_resume w \<sigma>)
  then show ?case
    by (auto simp: ev_addrs_def resume_op_def dest: set_remove1_subset[THEN subsetD] split: if_splits option.splits)
next
  case (ev_finish \<sigma> t op canceled)
  then show ?case using ev_live_sub[of "ev \<sigma>"] by (auto simp: ev_addrs_def close_op_def split: option.splits)
qed (use ev_live_sub in \<open>fastforce simp: ev_addrs_def dest: set_remove1_subset[THEN subsetD]\<close>)+

lemma ev_owners_keep:
  assumes "ev_owners \<sigma>" "ev_homes \<sigma>' = ev_homes \<sigma>" "ev_next (ev \<sigma>') = ev_next (ev \<sigma>)"
    "\<And>t w. ev_op_of (ev_pcs \<sigma>' t) = Some w \<Longrightarrow> ev_op_of (ev_pcs \<sigma> t) = Some w"
    "\<And>w t. op_continuation (ev_heap (ev \<sigma>') w) = Some t \<Longrightarrow> op_continuation (ev_heap (ev \<sigma>) w) = Some t"
  shows "ev_owners \<sigma>'"
proof (rule ev_ownersI)
  fix t w
  assume "ev_op_of (ev_pcs \<sigma>' t) = Some w"
  from ev_ownersD(1)[OF assms(1) assms(4)[OF this]] assms(2,3)
  show "w < ev_next (ev \<sigma>') \<and> ev_homes \<sigma>' w = t" by simp
next
  fix w t
  assume "w < ev_next (ev \<sigma>')" "op_continuation (ev_heap (ev \<sigma>') w) = Some t"
  with ev_ownersD(2)[OF assms(1) _ assms(5)] assms(2,3) show "ev_homes \<sigma>' w = t" by simp
qed

lemma ev_owners_new:
  assumes "ev_owners \<sigma>" "make_op t (ev \<sigma>) = (w, e)" "ev_op_of p = Some w" "ev_op_of (ev_pcs \<sigma> t) = None"
    "ev \<sigma>' = e" "ev_homes \<sigma>' = (ev_homes \<sigma>)(w := t)" "ev_pcs \<sigma>' = (ev_pcs \<sigma>)(t := p)"
  shows "ev_owners \<sigma>'"
proof (rule ev_ownersI)
  note f = make_op_facts[OF assms(2)]
  fix t' w'
  assume a: "ev_op_of (ev_pcs \<sigma>' t') = Some w'"
  show "w' < ev_next (ev \<sigma>') \<and> ev_homes \<sigma>' w' = t'"
  proof (cases "t' = t")
    case True
    with a assms(3) f show ?thesis by (simp add: assms(5-7))
  next
    case False
    with a have "ev_op_of (ev_pcs \<sigma> t') = Some w'" by (simp add: assms(7))
    from ev_ownersD(1)[OF assms(1) this] f show ?thesis by (simp add: assms(5,6))
  qed
next
  note f = make_op_facts[OF assms(2)]
  fix w' t'
  assume "w' < ev_next (ev \<sigma>')" "op_continuation (ev_heap (ev \<sigma>') w') = Some t'"
  then show "ev_homes \<sigma>' w' = t'"
    using ev_ownersD(2)[OF assms(1), of w' t'] f by (auto simp: assms(5,6) new_op_def less_Suc_eq split: if_splits)
qed

lemma ev_owners_step:
  assumes "ev_step \<sigma> \<sigma>'" "ev_owners \<sigma>"
  shows "ev_owners \<sigma>'"
  using assms
proof (induction rule: ev_step.induct)
  case (ev_emplace \<sigma> t w e)
  show ?case by (rule ev_owners_new[OF ev_emplace(3,2), of "EvRegistering w"]) (simp_all add: ev_emplace(1))
next
  case (ev_emplace_refused \<sigma> t w e)
  show ?case by (rule ev_owners_new[OF ev_emplace_refused(3,2), of "EvResuming (Some w)"])
    (simp_all add: ev_emplace_refused(1))
next
  case (ev_register \<sigma> t w sus e)
  show ?case by (rule ev_owners_keep[OF ev_register(3)])
    (use ev_register(1) in \<open>auto simp: register_facts(2)[OF ev_register(2)] split: if_splits\<close>)
next
  case (ev_set_step \<sigma> ws e)
  show ?case by (rule ev_owners_keep[OF ev_set_step(2)]) (auto simp: set_locked_facts[OF ev_set_step(1)])
next
  case (ev_mark w \<sigma> was_done e)
  show ?case by (rule ev_owners_keep[OF ev_mark(3)]) (auto simp: mark_op_facts(2)[OF ev_mark(2)] split: if_splits)
next
  case (ev_resume w \<sigma>)
  show ?case by (rule ev_owners_keep[OF ev_resume(2)]) (auto simp: resume_op_def split: if_splits option.splits)
next
  case (ev_finish \<sigma> t op canceled)
  show ?case by (rule ev_owners_keep[OF ev_finish(2)])
    (auto simp: close_op_def destroy_op_def split: if_splits option.splits)
next
  case (ev_destroy \<sigma> t w)
  show ?case by (rule ev_owners_keep[OF ev_destroy(3)]) (auto simp: destroy_op_def split: if_splits)
qed (erule ev_owners_keep; auto split: if_splits)+

lemma ev_marks_step:
  assumes "ev_step \<sigma> \<sigma>'" "ev_marks \<sigma>" "ev_addrs \<sigma>"
  shows "ev_marks \<sigma>'"
  using assms
proof (induction rule: ev_step.induct)
  case (ev_emplace \<sigma> t w e)
  then show ?case by (auto simp: ev_marks_def ev_addrs_def ev_live_def make_op_facts[OF ev_emplace(2)] filter_empty_conv)
next
  case (ev_emplace_refused \<sigma> t w e)
  then show ?case
    by (auto simp: ev_marks_def ev_addrs_def ev_live_def make_op_facts[OF ev_emplace_refused(2)] filter_empty_conv)
next
  case (ev_register \<sigma> t w sus e)
  have "sus \<longrightarrow> \<not> signaled (ev \<sigma>)" using register_facts(1)[OF ev_register(2)] by simp
  then show ?case using ev_register(3)
    by (auto simp: ev_marks_def ev_live_def register_facts(2)[OF ev_register(2)])
next
  case (ev_set_step \<sigma> ws e)
  then show ?case by (simp add: ev_marks_def ev_live_def set_locked_facts[OF ev_set_step(1)])
next
  case (ev_mark w \<sigma> was_done e)
  then show ?case
    by (auto simp: ev_marks_def ev_live_def mark_op_facts[OF ev_mark(2)] filter_empty_conv
      dest: set_remove1_subset[THEN subsetD] split: if_splits)
next
  case (ev_unlink w \<sigma>)
  then show ?case
    by (auto simp: ev_marks_def ev_live_def ev_remove_waiter_def filter_empty_conv dest: set_remove1_subset[THEN subsetD])
next
  case (ev_resume w \<sigma>)
  then show ?case
    by (auto simp: ev_marks_def ev_live_def resume_op_def filter_empty_conv dest: set_remove1_subset[THEN subsetD]
      split: if_splits option.splits)
next
  case (ev_finish \<sigma> t op canceled)
  then show ?case
    by (auto simp: ev_marks_def ev_live_def close_op_def destroy_op_def ev_remove_waiter_def filter_empty_conv
      split: if_splits option.splits)
next
  case (ev_destroy \<sigma> t w)
  then show ?case by (auto simp: ev_marks_def ev_live_def destroy_op_def ev_remove_waiter_def filter_empty_conv split: if_splits)
qed (auto simp: ev_marks_def ev_live_def)

text \<open>A step that leaves the waiter of a task alone, or moves it on towards its resumption.\<close>

definition ev_same :: "ev_sys \<Rightarrow> ev_sys \<Rightarrow> task \<Rightarrow> op_addr \<Rightarrow> bool" where
  "ev_same \<sigma> \<sigma>' t w \<longleftrightarrow> ev_heap (ev \<sigma>') w = ev_heap (ev \<sigma>) w \<and>
     (t \<in> set (ev_resumed (ev \<sigma>)) \<longrightarrow> t \<in> set (ev_resumed (ev \<sigma>'))) \<and>
     (w \<in> set (marked \<sigma>) \<union> set (unlinked \<sigma>) \<longrightarrow> w \<in> set (marked \<sigma>') \<union> set (unlinked \<sigma>')) \<and>
     (\<not> op_done (ev_heap (ev \<sigma>) w) \<and> w \<in> set (ev_waiters (ev \<sigma>)) \<union> set (requested \<sigma>) \<longrightarrow>
        w \<in> set (ev_waiters (ev \<sigma>')) \<union> set (requested \<sigma>'))"

definition ev_asleep :: "ev_sys \<Rightarrow> task \<Rightarrow> op_addr \<Rightarrow> bool" where
  "ev_asleep \<sigma> t w \<longleftrightarrow> ev_attached \<sigma> t w \<and>
     (\<not> op_done (ev_heap (ev \<sigma>) w) \<longrightarrow> w \<in> set (ev_waiters (ev \<sigma>)) \<union> set (requested \<sigma>))"

lemma ev_waiting_alt:
  "ev_waiting \<sigma> \<longleftrightarrow> (\<forall>t w. ev_pcs \<sigma> t = EvRegistering w \<longrightarrow> ev_attached \<sigma> t w) \<and>
     (\<forall>t w. ev_pcs \<sigma> t = EvSuspended w \<longrightarrow> ev_asleep \<sigma> t w)"
  by (simp add: ev_waiting_def ev_asleep_def)

lemma ev_same_keeps:
  assumes "ev_same \<sigma> \<sigma>' t w"
  shows "ev_attached \<sigma> t w \<Longrightarrow> ev_attached \<sigma>' t w" "ev_asleep \<sigma> t w \<Longrightarrow> ev_asleep \<sigma>' t w"
  using assms by (auto simp: ev_same_def ev_attached_def ev_asleep_def split: if_splits)

lemma ev_waiting_keep:
  assumes "ev_waiting \<sigma>"
    "\<And>t w. ev_pcs \<sigma>' t = EvRegistering w \<Longrightarrow> (ev_pcs \<sigma> t = EvRegistering w \<and> ev_same \<sigma> \<sigma>' t w) \<or> ev_attached \<sigma>' t w"
    "\<And>t w. ev_pcs \<sigma>' t = EvSuspended w \<Longrightarrow> (ev_pcs \<sigma> t = EvSuspended w \<and> ev_same \<sigma> \<sigma>' t w) \<or> ev_asleep \<sigma>' t w"
  shows "ev_waiting \<sigma>'"
proof -
  have a: "ev_attached \<sigma>' t w" if "ev_pcs \<sigma>' t = EvRegistering w" for t w
    using assms(2)[OF that] assms(1) ev_same_keeps(1) by (auto simp: ev_waiting_alt)
  have "ev_asleep \<sigma>' t w" if "ev_pcs \<sigma>' t = EvSuspended w" for t w
    using assms(3)[OF that] assms(1) ev_same_keeps(2) by (auto simp: ev_waiting_alt)
  with a show ?thesis by (simp add: ev_waiting_alt)
qed

text \<open>A step in which every task that waits afterwards waited before with the same waiter.\<close>

lemma ev_waiting_same:
  assumes "ev_waiting \<sigma>"
    "\<And>t w. ev_pcs \<sigma>' t = EvRegistering w \<or> ev_pcs \<sigma>' t = EvSuspended w \<Longrightarrow>
       ev_pcs \<sigma>' t = ev_pcs \<sigma> t \<and> ev_same \<sigma> \<sigma>' t w"
  shows "ev_waiting \<sigma>'"
proof (rule ev_waiting_keep[OF assms(1)])
  show "(ev_pcs \<sigma> t = EvRegistering w \<and> ev_same \<sigma> \<sigma>' t w) \<or> ev_attached \<sigma>' t w"
    if "ev_pcs \<sigma>' t = EvRegistering w" for t w using assms(2)[of t w] that by simp
  show "(ev_pcs \<sigma> t = EvSuspended w \<and> ev_same \<sigma> \<sigma>' t w) \<or> ev_asleep \<sigma>' t w"
    if "ev_pcs \<sigma>' t = EvSuspended w" for t w using assms(2)[of t w] that by simp
qed

lemma ev_other_op:
  assumes "ev_owners \<sigma>" "ev_op_of (ev_pcs \<sigma> t) = Some w" "ev_op_of (ev_pcs \<sigma> t') = Some w'" "t' \<noteq> t"
  shows "w' \<noteq> w"
  using ev_ownersD(1)[OF assms(1,2)] ev_ownersD(1)[OF assms(1,3)] assms(4) by auto

lemma ev_waiting_new:
  assumes "ev_waiting \<sigma>" "ev_owners \<sigma>" "make_op t (ev \<sigma>) = (w, e)" "ev \<sigma>' = e" "requested \<sigma>' = requested \<sigma>"
    "marked \<sigma>' = marked \<sigma>" "unlinked \<sigma>' = unlinked \<sigma>" "ev_pcs \<sigma>' = (ev_pcs \<sigma>)(t := p)"
    "p = EvRegistering w \<or> p = EvResuming (Some w)"
  shows "ev_waiting \<sigma>'"
proof (rule ev_waiting_keep[OF assms(1)])
  note f = make_op_facts[OF assms(3)]
  have s: "ev_same \<sigma> \<sigma>' t' w'" if "ev_op_of (ev_pcs \<sigma> t') = Some w'" for t' w'
    using ev_ownersD(1)[OF assms(2) that] f by (simp add: ev_same_def assms(4-7))
  show "(ev_pcs \<sigma> t' = EvRegistering w' \<and> ev_same \<sigma> \<sigma>' t' w') \<or> ev_attached \<sigma>' t' w'"
    if "ev_pcs \<sigma>' t' = EvRegistering w'" for t' w'
    using that s[of t' w'] assms(9) f by (auto simp: assms(4,8) ev_attached_def new_op_def split: if_splits)
  show "(ev_pcs \<sigma> t' = EvSuspended w' \<and> ev_same \<sigma> \<sigma>' t' w') \<or> ev_asleep \<sigma>' t' w'"
    if "ev_pcs \<sigma>' t' = EvSuspended w'" for t' w'
    using that s[of t' w'] assms(9) by (auto simp: assms(8) split: if_splits)
qed

lemma ev_waiting_step:
  assumes "ev_step \<sigma> \<sigma>'" "ev_waiting \<sigma>" "ev_owners \<sigma>" "ev_addrs \<sigma>" "ev_marks \<sigma>"
  shows "ev_waiting \<sigma>'"
  using assms
proof (induction rule: ev_step.induct)
  case (ev_ready \<sigma> t canceled rd)
  show ?case by (rule ev_waiting_same[OF ev_ready(3)]) (auto simp: ev_same_def split: if_splits)
next
  case (ev_emplace \<sigma> t w e)
  show ?case by (rule ev_waiting_new[OF ev_emplace(3,4,2), where p = "EvRegistering w"]) simp_all
next
  case (ev_emplace_refused \<sigma> t w e)
  show ?case by (rule ev_waiting_new[OF ev_emplace_refused(3,4,2), where p = "EvResuming (Some w)"]) simp_all
next
  case (ev_register \<sigma> t w sus e)
  note f = register_facts(2)[OF ev_register(2)]
  have a: "ev_attached \<sigma> t w" using ev_register(1,3) by (simp add: ev_waiting_def)
  show ?case
    by (rule ev_waiting_keep[OF ev_register(3)])
       (use a in \<open>auto simp: f ev_same_def ev_asleep_def ev_attached_def ev_live_def split: if_splits\<close>)
next
  case (ev_run t \<sigma> w)
  show ?case by (rule ev_waiting_same[OF ev_run(3)]) (auto simp: ev_same_def split: if_splits)
next
  case (ev_finish \<sigma> t op canceled)
  have o: "w' \<noteq> w"
    if "op = Some w" "ev_pcs \<sigma> t' = EvRegistering w' \<or> ev_pcs \<sigma> t' = EvSuspended w'" "t' \<noteq> t" for t' w w'
  proof -
    have "ev_op_of (ev_pcs \<sigma> t') = Some w'" using that(2) by auto
    then show ?thesis using ev_other_op[OF ev_finish(3), of t w t' w'] that(1,3) ev_finish(1) by simp
  qed
  show ?case
    by (rule ev_waiting_same[OF ev_finish(2)])
       (use o in \<open>auto simp: ev_same_def close_op_def ev_live_def split: if_splits option.splits\<close>)
next
  case (ev_again \<sigma> t r)
  show ?case by (rule ev_waiting_same[OF ev_again(2)]) (auto simp: ev_same_def split: if_splits)
next
  case (ev_destroy \<sigma> t w)
  have o: "w' \<noteq> w"
    if "ev_pcs \<sigma> t' = EvRegistering w' \<or> ev_pcs \<sigma> t' = EvSuspended w'" "t' \<noteq> t" for t' w'
  proof -
    have "ev_op_of (ev_pcs \<sigma> t') = Some w'" using that(1) by auto
    then show ?thesis using ev_other_op[OF ev_destroy(4), of t w t' w'] that(2) ev_destroy(1) by simp
  qed
  show ?case
    by (rule ev_waiting_same[OF ev_destroy(3)])
       (use o in \<open>auto simp: ev_same_def ev_live_def split: if_splits\<close>)
next
  case (ev_set_step \<sigma> ws e)
  show ?case
    by (rule ev_waiting_same[OF ev_set_step(2)])
       (auto simp: ev_same_def set_locked_facts[OF ev_set_step(1)] ev_live_def)
next
  case (ev_reset_step \<sigma>)
  show ?case by (rule ev_waiting_same[OF ev_reset_step(1)]) (auto simp: ev_same_def ev_live_def)
next
  case (ev_cancel w \<sigma>)
  show ?case by (rule ev_waiting_same[OF ev_cancel(2)]) (auto simp: ev_same_def)
next
  case (ev_mark w \<sigma> was_done e)
  note f = mark_op_facts[OF ev_mark(2)]
  have a: "ev_attached \<sigma> t w'" if "ev_pcs \<sigma> t = EvRegistering w' \<or> ev_pcs \<sigma> t = EvSuspended w'" for t w'
    using ev_mark(3) that by (auto simp: ev_waiting_def)
  show ?case
    by (rule ev_waiting_keep[OF ev_mark(3)])
       (use a in \<open>fastforce simp: f ev_same_def ev_attached_def ev_asleep_def split: if_splits\<close>)+
next
  case (ev_unlink w \<sigma>)
  have "op_done (ev_heap (ev \<sigma>) w)" using ev_unlink(1,5) by (simp add: ev_marks_def)
  then show ?case
    by (intro ev_waiting_same[OF ev_unlink(2)]) (auto simp: ev_same_def ev_live_def)
next
  case (ev_resume w \<sigma>)
  have a: "ev_attached \<sigma> t w'" if "ev_pcs \<sigma> t = EvRegistering w' \<or> ev_pcs \<sigma> t = EvSuspended w'" for t w'
    using ev_resume(2) that by (auto simp: ev_waiting_def)
  have d: "op_done (ev_heap (ev \<sigma>) w)" using ev_resume(1,5) by (simp add: ev_marks_def)
  show ?case
    by (rule ev_waiting_keep[OF ev_resume(2)])
       (use a d in \<open>fastforce simp: resume_op_def ev_same_def ev_attached_def ev_asleep_def split: if_splits option.splits\<close>)+
qed

interpretation event_run: invariant_system ev_init ev_step ev_inv
proof unfold_locales
  fix \<sigma>
  assume "ev_init \<sigma>"
  then show "ev_inv \<sigma>"
    by (auto simp: ev_init_def ev_inv_def ev_addrs_def ev_owners_def ev_waiting_def ev_marks_def ManualResetEvent_def
      ev_live_def)
next
  fix \<sigma> \<sigma>'
  assume "ev_inv \<sigma>" "ev_step \<sigma> \<sigma>'"
  then show "ev_inv \<sigma>'"
    using ev_addrs_step ev_owners_step ev_waiting_step ev_marks_step unfolding ev_inv_def by meson
qed

text \<open>C17: No wake-up is lost: when no call of set, no cancellation and no resumption is under way, a task is left
  suspended only if the event is not set, and then it is registered for the next call of set.\<close>

theorem event_no_lost_wakeup:
  assumes "reachable ev_init ev_step \<sigma>" "ev_pcs \<sigma> t = EvSuspended w"
    and "requested \<sigma> = []" "marked \<sigma> = []" "unlinked \<sigma> = []" "ev_resumed (ev \<sigma>) = []"
  shows "\<not> signaled (ev \<sigma>) \<and> w \<in> set (ev_live (ev \<sigma>))"
proof -
  have i: "ev_inv \<sigma>" by (rule event_run.reachable_good[OF assms(1)])
  then have "w \<in> set (ev_live (ev \<sigma>))"
    using assms(2-) by (auto simp: ev_inv_def ev_waiting_def ev_attached_def ev_live_def split: if_splits)
  then show ?thesis using i by (auto simp: ev_inv_def ev_marks_def)
qed

definition sample_event :: ev_sys where
  "sample_event = \<lparr>ev = ManualResetEvent False, ev_pcs = (\<lambda>_. EvIdle), requested = [], marked = [], unlinked = [],
     ev_handlers = [], ev_homes = (\<lambda>_. 0)\<rparr>"

definition sample_registering :: ev_sys where
  "sample_registering = sample_event\<lparr>ev := (ManualResetEvent False)\<lparr>ev_next := 1\<rparr>,
     ev_pcs := (\<lambda>_. EvIdle)(0 := EvRegistering 0), ev_handlers := [0]\<rparr>"

lemma sample_registering_reached: "reachable ev_init ev_step sample_registering"
proof -
  have r0: "reachable ev_init ev_step sample_event"
    by (rule start) (auto simp: ev_init_def sample_event_def)
  have s1: "ev_step sample_event (ev_pc_set 0 (if False then EvResuming None else EvSuspending) sample_event)"
    by (rule ev_ready[where canceled = False]) (simp_all add: sample_event_def ev_await_ready_def ManualResetEvent_def)
  note r1 = next_state[OF r0 s1]
  have m: "make_op 0 (ManualResetEvent False) = (0, (ManualResetEvent False)\<lparr>ev_next := 1\<rparr>)"
    by (simp add: make_op_def ManualResetEvent_def fun_eq_iff)
  have "ev_step (ev_pc_set 0 (if False then EvResuming None else EvSuspending) sample_event) sample_registering"
    using ev_emplace[of "ev_pc_set 0 EvSuspending sample_event" 0 0 "(ManualResetEvent False)\<lparr>ev_next := 1\<rparr>"] m
    by (simp add: sample_event_def sample_registering_def ev_pc_set_def fun_upd_idem)
  then show ?thesis by (rule next_state[OF r1])
qed

theorem event_no_lost_wakeup_witness:
  "\<exists>\<sigma>. reachable ev_init ev_step \<sigma> \<and> ev_pcs \<sigma> 0 = EvSuspended 0 \<and> \<not> signaled (ev \<sigma>) \<and> 0 \<in> set (ev_live (ev \<sigma>))"
proof -
  let ?e = "(ManualResetEvent False)\<lparr>ev_next := 1, ev_waiters := [0]\<rparr>"
  let ?\<sigma> = "ev_pc_set 0 (if True then EvSuspended 0 else EvResuming (Some 0)) (sample_registering\<lparr>ev := ?e\<rparr>)"
  have "ev_step sample_registering ?\<sigma>"
    by (rule ev_register)
       (simp_all add: sample_registering_def sample_event_def register_waiter_def ev_compact_def ev_live_def
         ManualResetEvent_def)
  then have r: "reachable ev_init ev_step ?\<sigma>" by (rule next_state[OF sample_registering_reached])
  have "\<not> signaled (ev ?\<sigma>) \<and> 0 \<in> set (ev_live (ev ?\<sigma>))"
    by (rule event_no_lost_wakeup[OF r, of 0])
       (simp_all add: sample_registering_def sample_event_def ManualResetEvent_def)
  with r show ?thesis by (intro exI[of _ ?\<sigma>]) simp
qed

text \<open>C35: A cancellation that arrives while a task registers on an event that is being set hands the task's
  handle to the executor although the task was not suspended: the handle is resumed while the task is
  already running on, or after it has returned.\<close>

theorem event_resumed_while_running:
  "\<exists>\<sigma>. reachable ev_init ev_step \<sigma> \<and> 0 \<in> set (ev_resumed (ev \<sigma>)) \<and> ev_pcs \<sigma> 0 = EvDone (ev_await_resume True)"
proof -
  let ?s0 = sample_registering
  let ?s1 = "?s0\<lparr>requested := 0 # requested ?s0\<rparr>"
  obtain b1 e1 where m1: "mark_op 0 (ev ?s1) = (b1, e1)" by force
  let ?s2 = "?s1\<lparr>ev := e1, requested := remove1 0 (requested ?s1), marked := (if b1 then marked ?s1 else 0 # marked ?s1)\<rparr>"
  let ?s3 = "?s2\<lparr>ev := ev_remove_waiter 0 (ev ?s2), marked := remove1 0 (marked ?s2), unlinked := 0 # unlinked ?s2\<rparr>"
  let ?s4 = "?s3\<lparr>ev := resume_op 0 (ev ?s3), unlinked := remove1 0 (unlinked ?s3)\<rparr>"
  obtain ws e5 where m5: "set_locked (ev ?s4) = (ws, e5)" by force
  let ?s5 = "?s4\<lparr>ev := e5, requested := requested ?s4 @ ws\<rparr>"
  obtain sus e6 where m6: "register_waiter 0 (ev ?s5) = (sus, e6)" by force
  let ?s6 = "ev_pc_set 0 (if sus then EvSuspended 0 else EvResuming (Some 0)) (?s5\<lparr>ev := e6\<rparr>)"
  let ?s7 = "ev_pc_set 0 (EvDone (ev_await_resume True)) (?s6\<lparr>ev := close_op (Some 0) (ev ?s6)\<rparr>)"
  note d = sample_registering_def sample_event_def ManualResetEvent_def new_op_def
  note f1 = mark_op_facts[OF m1] and f5 = set_locked_facts[OF m5] and f6 = register_facts[OF m6]
  have b1: "\<not> b1" using f1 by (simp add: d)
  have res: "ev_resumed (ev ?s4) = [0]" using f1 by (simp add: d resume_op_def)
  have sus: "\<not> sus" using f5 f6 by simp
  have "ev_step ?s0 ?s1" by (rule ev_cancel) (simp add: d)
  then have r1: "reachable ev_init ev_step ?s1" by (rule next_state[OF sample_registering_reached])
  have "ev_step ?s1 ?s2" by (rule ev_mark[OF _ m1]) simp
  then have r2: "reachable ev_init ev_step ?s2" by (rule next_state[OF r1])
  have "ev_step ?s2 ?s3" by (rule ev_unlink) (simp add: b1)
  then have r3: "reachable ev_init ev_step ?s3" by (rule next_state[OF r2])
  have "ev_step ?s3 ?s4" by (rule ev_resume) simp
  then have r4: "reachable ev_init ev_step ?s4" by (rule next_state[OF r3])
  have "ev_step ?s4 ?s5" by (rule ev_set_step[OF m5])
  then have r5: "reachable ev_init ev_step ?s5" by (rule next_state[OF r4])
  have "ev_step ?s5 ?s6" by (rule ev_register[OF _ m6]) (simp add: d)
  then have r6: "reachable ev_init ev_step ?s6" by (rule next_state[OF r5])
  have "ev_step ?s6 ?s7" by (rule ev_finish) (simp add: sus)
  then have r7: "reachable ev_init ev_step ?s7" by (rule next_state[OF r6])
  have "ev_resumed (ev ?s7) = [0]" using res f5(2) f6(2) by (simp add: close_op_def)
  with r7 show ?thesis by (intro exI[of _ ?s7]) simp
qed

end
