(* ===== verification/Task_Group.thy ===== *)
theory Task_Group
  imports Reset_Event
begin

text \<open>
  TaskGroup (src/include/corouv/task_group.h): children spawned into a group,
  counted in pending; the event drained is set while no child is pending, and
  the first error of a child cancels the group and is rethrown by wait.  The
  cancellation source is its flag.  Run on the loop thread the group is
  drained exactly when no child is pending; with a spawn from another thread
  a late drained.set() can announce a group that has a child.
\<close>

section \<open>Operations\<close>

record task_group =
  cancel_flag :: bool
  drained :: event
  pending :: nat
  first_error :: "exn option"

definition TaskGroup :: task_group where
  "TaskGroup = \<lparr>cancel_flag = False, drained = ManualResetEvent True, pending = 0, first_error = None\<rparr>"

fun is_signal_exception :: "exn \<Rightarrow> bool" where
  "is_signal_exception (SignalException _) = True"
| "is_signal_exception _ = False"

definition try_to_exception :: "'a result \<Rightarrow> exn option" where
  "try_to_exception t = (case t of Inl e \<Rightarrow> Some e | Inr _ \<Rightarrow> None)"

text \<open>The critical section of spawn; a refused task is not started.\<close>

definition spawn_locked :: "task_group \<Rightarrow> bool \<times> task_group" where
  "spawn_locked s = (if cancel_flag s then (False, s)
     else let s1 = (if pending s = 0 then s\<lparr>drained := ev_reset (drained s)\<rparr> else s)
          in (True, s1\<lparr>pending := pending s1 + 1\<rparr>))"

text \<open>
  The critical section of finish says whether the group is to be canceled and
  whether drained is to be set afterwards.
\<close>

definition finish_locked :: "exn option \<Rightarrow> task_group \<Rightarrow> (bool \<times> bool) \<times> task_group" where
  "finish_locked ep s =
     (let should_cancel = (case ep of
            None \<Rightarrow> False
          | Some e \<Rightarrow> first_error s = None \<and> \<not> (cancel_flag s \<and> is_signal_exception e));
          s1 = (if should_cancel then s\<lparr>first_error := ep\<rparr> else s);
          s2 = (if pending s1 > 0 then s1\<lparr>pending := pending s1 - 1\<rparr> else s1)
      in ((should_cancel, pending s2 = 0), s2))"

definition tg_cancel :: "task_group \<Rightarrow> task_group" where
  "tg_cancel s = s\<lparr>cancel_flag := True\<rparr>"

definition set_drained :: "task_group \<Rightarrow> task_group" where
  "set_drained s = s\<lparr>drained := ev_set (drained s)\<rparr>"

definition finish :: "exn option \<Rightarrow> task_group \<Rightarrow> task_group" where
  "finish ep s = (case finish_locked ep s of
     ((should_cancel, signal_drained), s1) \<Rightarrow>
       (let s2 = (if should_cancel then tg_cancel s1 else s1)
        in if signal_drained then set_drained s2 else s2))"

text \<open>wait after drained.wait() has returned: the stored error is taken and rethrown.\<close>

definition wait_drained :: "task_group \<Rightarrow> unit result \<times> task_group" where
  "wait_drained s = (case first_error s of
     Some e \<Rightarrow> (Inl e, s\<lparr>first_error := None\<rparr>)
   | None \<Rightarrow> (Inr (), s))"

section \<open>The first error\<close>

lemma finish_simps:
  "first_error (finish ep s) = (case ep of
     None \<Rightarrow> first_error s
   | Some e \<Rightarrow> if first_error s = None \<and> \<not> (cancel_flag s \<and> is_signal_exception e) then Some e else first_error s)"
  "pending (finish ep s) = pending s - 1"
  by (auto simp: finish_def finish_locked_def tg_cancel_def set_drained_def Let_def split: option.splits)

lemma finish_all_error:
  "first_error s = Some e \<Longrightarrow> first_error (fold finish eps s) = Some e"
  by (induction eps arbitrary: s) (auto simp: finish_simps split: option.splits)

lemma finish_all_canceled:
  "first_error s = None \<Longrightarrow> cancel_flag s = c \<Longrightarrow>
     first_error (fold finish eps s) = find (\<lambda>e. \<not> (c \<and> is_signal_exception e)) (List.map_filter id eps)"
proof (induction eps arbitrary: s)
  case (Cons ep eps)
  show ?case
  proof (cases "first_error (finish ep s)")
    case None
    then have "cancel_flag (finish ep s) = c" using Cons.prems
      by (auto simp: finish_def finish_locked_def tg_cancel_def set_drained_def Let_def split: option.splits if_splits)
    with None Cons show ?thesis
      by (auto simp: finish_simps map_filter_simps split: option.splits if_splits)
  next
    case (Some e)
    with Cons.prems have "ep = Some e" "\<not> (c \<and> is_signal_exception e)"
      by (auto simp: finish_simps split: option.splits if_splits)
    with Some show ?thesis by (simp add: finish_all_error map_filter_simps)
  qed
qed (simp add: map_filter_simps)

text \<open>Wait rethrows the first error of the children: when a group has collected the results of its children
  in some order, the error it keeps is the first one, and once the group was canceled from outside the
  first that is not the cancellation itself.\<close>

theorem first_error_kept:
  assumes "first_error s = None"
  shows "fst (wait_drained (fold finish (map try_to_exception results) s)) =
    (case find (\<lambda>e. \<not> (cancel_flag s \<and> is_signal_exception e)) [e. Inl e \<leftarrow> results] of
       None \<Rightarrow> Inr () | Some e \<Rightarrow> Inl e)"
proof -
  have m: "List.map_filter id (map try_to_exception results) = [e. Inl e \<leftarrow> results]"
    by (induction results) (auto simp: map_filter_simps try_to_exception_def split: sum.splits)
  have "first_error (fold finish (map try_to_exception results) s) =
    find (\<lambda>e. \<not> (cancel_flag s \<and> is_signal_exception e)) [e. Inl e \<leftarrow> results]"
    using finish_all_canceled[OF assms refl, of "map try_to_exception results"] unfolding m .
  then show ?thesis by (simp add: wait_drained_def split: option.splits)
qed

theorem first_error_kept_witness:
  "fst (wait_drained (fold finish (map try_to_exception
     [Inr (), Inl (SignalException ''stop''), Inl (RuntimeError ''late''), Inr ()]) (tg_cancel TaskGroup)))
   = Inl (RuntimeError ''late'')"
proof -
  have "first_error (tg_cancel TaskGroup) = None" "cancel_flag (tg_cancel TaskGroup)"
    by (simp_all add: TaskGroup_def tg_cancel_def)
  with first_error_kept[OF this(1), of "[Inr (), Inl (SignalException ''stop''), Inl (RuntimeError ''late''), Inr ()]"]
  show ?thesis by simp
qed

section \<open>Running the group\<close>

text \<open>
  running counts the children that have not ended; after holds what the calls
  of finish that left their critical section have still to do.
\<close>

record tg_sys =
  tg :: task_group
  running :: nat
  after :: "(bool \<times> bool) list"

definition tg_init :: "tg_sys \<Rightarrow> bool" where
  "tg_init \<sigma> \<longleftrightarrow> tg \<sigma> = TaskGroup \<and> running \<sigma> = 0 \<and> after \<sigma> = []"

text \<open>Every operation on the loop thread: finish runs to its end before the next operation.\<close>

inductive tg_loop_step :: "tg_sys \<Rightarrow> tg_sys \<Rightarrow> bool" where
  loop_spawn: "spawn_locked (tg \<sigma>) = (True, s) \<Longrightarrow> tg_loop_step \<sigma> (\<sigma>\<lparr>tg := s, running := running \<sigma> + 1\<rparr>)"
| loop_end: "running \<sigma> = Suc n \<Longrightarrow> tg_loop_step \<sigma> (\<sigma>\<lparr>tg := finish ep (tg \<sigma>), running := n\<rparr>)"
| loop_cancel: "tg_loop_step \<sigma> (\<sigma>\<lparr>tg := tg_cancel (tg \<sigma>)\<rparr>)"
| loop_wait: "\<lbrakk>signaled (drained (tg \<sigma>)); wait_drained (tg \<sigma>) = (r, s)\<rbrakk> \<Longrightarrow> tg_loop_step \<sigma> (\<sigma>\<lparr>tg := s\<rparr>)"

text \<open>With spawn on other threads: finish drops the lock before it cancels and sets drained.\<close>

inductive tg_step :: "tg_sys \<Rightarrow> tg_sys \<Rightarrow> bool" where
  tg_spawn: "spawn_locked (tg \<sigma>) = (True, s) \<Longrightarrow> tg_step \<sigma> (\<sigma>\<lparr>tg := s, running := running \<sigma> + 1\<rparr>)"
| tg_end: "\<lbrakk>running \<sigma> = Suc n; finish_locked ep (tg \<sigma>) = (todo, s)\<rbrakk> \<Longrightarrow>
    tg_step \<sigma> (\<sigma>\<lparr>tg := s, running := n, after := todo # after \<sigma>\<rparr>)"
| tg_after_cancel: "(True, d) \<in> set (after \<sigma>) \<Longrightarrow>
    tg_step \<sigma> (\<sigma>\<lparr>tg := tg_cancel (tg \<sigma>), after := (False, d) # remove1 (True, d) (after \<sigma>)\<rparr>)"
| tg_after_drain: "(False, True) \<in> set (after \<sigma>) \<Longrightarrow>
    tg_step \<sigma> (\<sigma>\<lparr>tg := set_drained (tg \<sigma>), after := remove1 (False, True) (after \<sigma>)\<rparr>)"
| tg_after_none: "(False, False) \<in> set (after \<sigma>) \<Longrightarrow>
    tg_step \<sigma> (\<sigma>\<lparr>after := remove1 (False, False) (after \<sigma>)\<rparr>)"
| tg_user_cancel: "tg_step \<sigma> (\<sigma>\<lparr>tg := tg_cancel (tg \<sigma>)\<rparr>)"
| tg_wait: "\<lbrakk>signaled (drained (tg \<sigma>)); wait_drained (tg \<sigma>) = (r, s)\<rbrakk> \<Longrightarrow> tg_step \<sigma> (\<sigma>\<lparr>tg := s\<rparr>)"

lemma request_resume_signaled [simp]: "signaled (request_resume w e) = signaled e"
proof -
  have "signaled (resume_op w e') = signaled e'" for e' by (simp add: resume_op_def split: option.splits)
  then show ?thesis by (simp add: request_resume_def mark_op_def split: bool.splits)
qed

lemma ev_set_signaled [simp]: "signaled (ev_set e)"
proof -
  have "signaled (fold request_resume ws e') = signaled e'" for ws e' by (induction ws arbitrary: e') simp_all
  then show ?thesis by (simp add: ev_set_def set_locked_def ev_compact_def Let_def)
qed

lemma finish_drained:
  assumes "0 < pending s"
  shows "signaled (drained (finish ep s)) \<longleftrightarrow> signaled (drained s) \<or> pending s = 1"
  using assms
  by (auto simp: finish_def finish_locked_def tg_cancel_def set_drained_def Let_def split: option.splits)

definition tg_good :: "tg_sys \<Rightarrow> bool" where
  "tg_good \<sigma> \<longleftrightarrow> pending (tg \<sigma>) = running \<sigma> \<and> (signaled (drained (tg \<sigma>)) \<longleftrightarrow> pending (tg \<sigma>) = 0)"

interpretation tg_loop: invariant_system tg_init tg_loop_step tg_good
proof unfold_locales
  fix \<sigma>
  show "tg_good \<sigma>" if "tg_init \<sigma>"
    using that by (simp add: tg_init_def tg_good_def TaskGroup_def ManualResetEvent_def)
next
  fix \<sigma> \<sigma>'
  assume "tg_good \<sigma>" "tg_loop_step \<sigma> \<sigma>'"
  from this(2,1) show "tg_good \<sigma>'"
  proof (induction rule: tg_loop_step.induct)
    case (loop_spawn \<sigma> s)
    then show ?case by (auto simp: tg_good_def spawn_locked_def Let_def split: if_splits)
  next
    case (loop_end \<sigma> n ep)
    then show ?case using finish_drained[of "tg \<sigma>" ep] by (simp add: tg_good_def finish_simps)
  next
    case (loop_cancel \<sigma>)
    then show ?case by (simp add: tg_good_def tg_cancel_def)
  next
    case (loop_wait \<sigma> r s)
    then show ?case by (auto simp: tg_good_def wait_drained_def split: option.splits)
  qed
qed


text \<open>With other threads, the last child still leads to drained being set.\<close>

definition tg_announced :: "tg_sys \<Rightarrow> bool" where
  "tg_announced \<sigma> \<longleftrightarrow> pending (tg \<sigma>) = running \<sigma> \<and>
     (running \<sigma> = 0 \<longrightarrow> signaled (drained (tg \<sigma>)) \<or> list_ex snd (after \<sigma>))"

lemma remove1_drain: "list_ex snd xs \<Longrightarrow> \<not> snd y \<Longrightarrow> list_ex snd (remove1 y xs)"
  by (induction xs) auto

interpretation tg_threads: invariant_system tg_init tg_step tg_announced
proof unfold_locales
  fix \<sigma>
  show "tg_announced \<sigma>" if "tg_init \<sigma>"
    using that by (simp add: tg_init_def tg_announced_def TaskGroup_def ManualResetEvent_def)
next
  fix \<sigma> \<sigma>'
  assume "tg_announced \<sigma>" "tg_step \<sigma> \<sigma>'"
  from this(2,1) show "tg_announced \<sigma>'"
  proof (induction rule: tg_step.induct)
    case (tg_spawn \<sigma> s)
    then show ?case by (auto simp: tg_announced_def spawn_locked_def Let_def split: if_splits)
  next
    case (tg_end \<sigma> n ep todo s)
    then show ?case
      by (auto simp: tg_announced_def finish_locked_def Let_def split: option.splits if_splits)
  next
    case (tg_after_cancel d \<sigma>)
    then show ?case using remove1_drain[of "after \<sigma>" "(True, d)"]
      by (cases d) (auto simp: tg_announced_def tg_cancel_def)
  next
    case (tg_after_drain \<sigma>)
    then show ?case by (simp add: tg_announced_def set_drained_def)
  next
    case (tg_after_none \<sigma>)
    then show ?case using remove1_drain[of "after \<sigma>" "(False, False)"] by (auto simp: tg_announced_def)
  next
    case (tg_user_cancel \<sigma>)
    then show ?case by (simp add: tg_announced_def tg_cancel_def)
  next
    case (tg_wait \<sigma> r s)
    then show ?case by (auto simp: tg_announced_def wait_drained_def split: option.splits)
  qed
qed

lemma last_child_announced:
  assumes "reachable tg_init tg_step \<sigma>" "running \<sigma> = 0" "after \<sigma> = []"
  shows "signaled (drained (tg \<sigma>))"
  using tg_threads.reachable_good[OF assms(1)] assms(2,3) by (simp add: tg_announced_def)

definition sample_group :: tg_sys where
  "sample_group = \<lparr>tg = TaskGroup, running = 0, after = []\<rparr>"

definition one_child :: task_group where
  "one_child = TaskGroup\<lparr>drained := ManualResetEvent False, pending := 1\<rparr>"

lemma spawn_sample: "spawn_locked TaskGroup = (True, one_child)"
  by (simp add: spawn_locked_def one_child_def TaskGroup_def ev_reset_def ev_compact_def ev_live_def ManualResetEvent_def)


text \<open>C36: finish sets drained after it has dropped the lock: a spawn on another thread in between leaves the event
  set while a child is running, and wait returns without waiting for it.\<close>

theorem drained_with_running_child:
  "\<exists>\<sigma>. reachable tg_init tg_step \<sigma> \<and> signaled (drained (tg \<sigma>)) \<and> running \<sigma> = 1 \<and> after \<sigma> = []"
proof -
  let ?s1 = "sample_group\<lparr>tg := one_child, running := running sample_group + 1\<rparr>"
  let ?empty = "one_child\<lparr>pending := 0\<rparr>"
  let ?s2 = "?s1\<lparr>tg := ?empty, running := 0, after := (False, True) # after ?s1\<rparr>"
  let ?s3 = "?s2\<lparr>tg := one_child, running := running ?s2 + 1\<rparr>"
  let ?s4 = "?s3\<lparr>tg := set_drained (tg ?s3), after := remove1 (False, True) (after ?s3)\<rparr>"
  have r0: "reachable tg_init tg_step sample_group" by (rule start) (simp add: tg_init_def sample_group_def)
  have "tg_step sample_group ?s1" by (rule tg_spawn) (simp add: sample_group_def spawn_sample)
  then have r1: "reachable tg_init tg_step ?s1" by (rule next_state[OF r0])
  have "tg_step ?s1 ?s2"
    by (rule tg_end[where ep = None]) (simp_all add: sample_group_def one_child_def finish_locked_def TaskGroup_def)
  then have r2: "reachable tg_init tg_step ?s2" by (rule next_state[OF r1])
  have "spawn_locked ?empty = (True, one_child)"
    by (simp add: spawn_locked_def one_child_def TaskGroup_def ev_reset_def ev_compact_def ev_live_def ManualResetEvent_def)
  then have "tg_step ?s2 ?s3" by (intro tg_spawn) simp
  then have r3: "reachable tg_init tg_step ?s3" by (rule next_state[OF r2])
  have "tg_step ?s3 ?s4" by (rule tg_after_drain) simp
  then have r4: "reachable tg_init tg_step ?s4" by (rule next_state[OF r3])
  then show ?thesis by (intro exI[of _ ?s4]) (simp add: sample_group_def set_drained_def)
qed

end
