(* ===== verification/Tcp_Listener.thy ===== *)
theory Tcp_Listener
  imports Prelude Transition
begin

text \<open>
  The TCP listener of net.cpp: its queue of accepted connections, the one
  coroutine that may wait in accept, and close.  The events of libuv (a new
  connection, a failed one, the end of uv_close) are steps, and so is every
  critical section of a coroutine; a woken coroutine runs in a later step, as
  resume_handle schedules it.  Connections are numbered.  connect and listen
  try the resolved addresses in turn.
\<close>

section \<open>The state and libuv's callbacks\<close>

record listener =
  ls_pending :: "nat list"
  ls_waiter :: "task option"
  ls_error :: "uv_err option"
  ls_initialized :: bool
  ls_closing :: bool
  ls_closed :: bool

definition ls_open :: "listener \<Rightarrow> bool" where
  "ls_open s \<longleftrightarrow> ls_initialized s \<and> \<not> ls_closing s \<and> \<not> ls_closed s"

text \<open>A connection event: its status is an error, or the new stream could not
  be set up or accepted, or it was.\<close>

datatype conn_event = ConnError uv_err | AcceptError uv_err | Connected nat

definition on_connection :: "conn_event \<Rightarrow> listener \<Rightarrow> task option \<times> listener" where
  "on_connection ev s =
     (case ev of
        ConnError status \<Rightarrow> (ls_waiter s, s\<lparr>ls_error := Some status, ls_waiter := None\<rparr>)
      | Connected child \<Rightarrow> (ls_waiter s, s\<lparr>ls_pending := ls_pending s @ [child], ls_waiter := None\<rparr>)
      | AcceptError rc \<Rightarrow> (ls_waiter s, s\<lparr>ls_error := Some rc, ls_waiter := None\<rparr>))"

definition ls_close_on_loop :: "listener \<Rightarrow> task option \<times> listener" where
  "ls_close_on_loop s =
     (if \<not> ls_initialized s then (None, s\<lparr>ls_closed := True\<rparr>)
      else if ls_closing s then (None, s)
      else (ls_waiter s, s\<lparr>ls_closing := True, ls_error := Some UV_ECANCELED, ls_waiter := None\<rparr>))"

definition ls_on_close :: "listener \<Rightarrow> listener" where
  "ls_on_close s = s\<lparr>ls_closed := True\<rparr>"

section \<open>accept\<close>

datatype registration = Suspended | Ready | ConcurrentCall | StartFailed uv_err

definition accept_register :: "task \<Rightarrow> listener \<Rightarrow> registration \<times> listener" where
  "accept_register t s =
     (if ls_pending s \<noteq> [] \<or> \<not> ls_open s \<or> ls_error s \<noteq> None then (Ready, s)
      else if ls_waiter s \<noteq> None then (ConcurrentCall, s)
      else (Suspended, s\<lparr>ls_waiter := Some t\<rparr>))"

definition accept_resume :: "registration \<Rightarrow> listener \<Rightarrow> nat result \<times> listener" where
  "accept_resume reg s =
     (case reg of
        ConcurrentCall \<Rightarrow> (Inl (LogicError ''corouv::net::TcpListener does not support concurrent accept calls''), s)
      | StartFailed e \<Rightarrow> (Inl (UvError e ''uv_listen/uv_accept''), s)
      | _ \<Rightarrow>
          (case ls_pending s of
             child # rest \<Rightarrow> (Inr child, s\<lparr>ls_pending := rest\<rparr>)
           | [] \<Rightarrow>
               (case ls_error s of
                  Some e \<Rightarrow>
                    if e \<noteq> UV_ECANCELED then (Inl (UvError e ''uv_listen/uv_accept''), s)
                    else (Inl (LogicError ''corouv::net::TcpListener is closed''), s)
                | None \<Rightarrow> (Inl (LogicError ''corouv::net::TcpListener is closed''), s))))"

section \<open>connect and listen\<close>

text \<open>
  The outcome of each resolved address: 0, or the error of the step that
  failed.  The messages of uv_strerror are a parameter.
\<close>

fun connect_loop :: "(int \<Rightarrow> string) \<Rightarrow> string \<Rightarrow> nat \<Rightarrow> nat \<Rightarrow> int list \<Rightarrow> string option \<Rightarrow> nat result" where
  "connect_loop strerror host port i [] last_error =
     (case last_error of
        Some m \<Rightarrow> Inl (RuntimeError m)
      | None \<Rightarrow> Inl (RuntimeError ''corouv::net::connect failed''))"
| "connect_loop strerror host port i (status # rest) last_error =
     (if status = 0 then Inr i
      else connect_loop strerror host port (Suc i) rest
             (Some (''corouv::net::connect '' @ host @ '':'' @ dec_string port @ '' failed: '' @ strerror status)))"

definition net_connect :: "(int \<Rightarrow> string) \<Rightarrow> string \<Rightarrow> nat \<Rightarrow> int list \<Rightarrow> nat result" where
  "net_connect strerror host port statuses = connect_loop strerror host port 0 statuses None"

datatype listen_outcome = InitFailed int | BindFailed int | ListenFailed int | Listening

fun listen_message :: "(int \<Rightarrow> string) \<Rightarrow> listen_outcome \<Rightarrow> string" where
  "listen_message strerror (InitFailed e) = ''uv_tcp_init: '' @ strerror e"
| "listen_message strerror (BindFailed e) = ''uv_tcp_bind: '' @ strerror e"
| "listen_message strerror (ListenFailed e) = ''uv_listen: '' @ strerror e"
| "listen_message strerror Listening = []"

fun listen_loop :: "(int \<Rightarrow> string) \<Rightarrow> nat \<Rightarrow> listen_outcome list \<Rightarrow> string option \<Rightarrow> nat result" where
  "listen_loop strerror i [] last_error =
     (case last_error of
        Some m \<Rightarrow> Inl (RuntimeError (''corouv::net::listen failed: '' @ m))
      | None \<Rightarrow> Inl (RuntimeError ''corouv::net::listen failed''))"
| "listen_loop strerror i (r # rest) last_error =
     (if r = Listening then Inr i else listen_loop strerror (Suc i) rest (Some (listen_message strerror r)))"

definition net_listen :: "(int \<Rightarrow> string) \<Rightarrow> listen_outcome list \<Rightarrow> nat result" where
  "net_listen strerror outcomes = listen_loop strerror 0 outcomes None"

lemma connect_loop_first:
  "connect_loop strerror host port i statuses m = Inr k \<longleftrightarrow>
   (\<exists>j < length statuses. k = i + j \<and> statuses ! j = 0 \<and> (\<forall>l < j. statuses ! l \<noteq> 0))"
proof (induction statuses arbitrary: i m)
  case (Cons s ss)
  show ?case
  proof (cases "s = 0")
    case True
    have "j = 0" if "\<forall>l < j. (s # ss) ! l \<noteq> 0" for j using that True by (cases j) auto
    with True show ?thesis by (auto intro: exI[of _ 0])
  next
    case False
    have "(\<exists>j < length (s # ss). k = i + j \<and> (s # ss) ! j = 0 \<and> (\<forall>l < j. (s # ss) ! l \<noteq> 0)) \<longleftrightarrow>
        (\<exists>j < length ss. k = Suc i + j \<and> ss ! j = 0 \<and> (\<forall>l < j. ss ! l \<noteq> 0))"
      using False by (auto simp: less_Suc_eq_0_disj) force+
    with Cons.IH False show ?thesis by simp
  qed
qed (auto split: option.splits)

section \<open>Interleaved calls\<close>

text \<open>
  Beside the listener: the coroutines scheduled to run with the outcome of
  their registration, the connections libuv handed over and those accept
  returned, in order.
\<close>

record accept_sys =
  ac_listener :: listener
  ac_ready :: "(task \<times> registration) list"
  ac_arrived :: "nat list"
  ac_accepted :: "nat list"

definition wake :: "task option \<Rightarrow> (task \<times> registration) list" where
  "wake w = (case w of None \<Rightarrow> [] | Some t \<Rightarrow> [(t, Suspended)])"

definition arrives :: "conn_event \<Rightarrow> nat list" where
  "arrives ev = (case ev of Connected c \<Rightarrow> [c] | _ \<Rightarrow> [])"

inductive accept_step :: "accept_sys \<Rightarrow> accept_sys \<Rightarrow> bool" where
  accept_call: "ls_open (ac_listener y) \<Longrightarrow> accept_register t (ac_listener y) = (reg, s') \<Longrightarrow>
    accept_step y (y\<lparr>ac_listener := s', ac_ready := (if reg = Suspended then [] else [(t, reg)]) @ ac_ready y\<rparr>)"
| connection: "\<not> ls_closing (ac_listener y) \<Longrightarrow> on_connection ev (ac_listener y) = (w, s') \<Longrightarrow>
    accept_step y (y\<lparr>ac_listener := s', ac_ready := ac_ready y @ wake w, ac_arrived := ac_arrived y @ arrives ev\<rparr>)"
| resumed: "ac_ready y = a @ (t, reg) # b \<Longrightarrow> accept_resume reg (ac_listener y) = (r, s') \<Longrightarrow>
    accept_step y (y\<lparr>ac_listener := s', ac_ready := a @ b,
      ac_accepted := ac_accepted y @ (case r of Inr c \<Rightarrow> [c] | Inl _ \<Rightarrow> [])\<rparr>)"
| close_call: "ls_close_on_loop (ac_listener y) = (w, s') \<Longrightarrow>
    accept_step y (y\<lparr>ac_listener := s', ac_ready := ac_ready y @ wake w\<rparr>)"
| close_ended: "ls_closing (ac_listener y) \<Longrightarrow> accept_step y (y\<lparr>ac_listener := ls_on_close (ac_listener y)\<rparr>)"

inductive_cases accept_stepE: "accept_step y y'"

definition fresh_listener :: "accept_sys \<Rightarrow> bool" where
  "fresh_listener y \<longleftrightarrow> ls_open (ac_listener y) \<and> ls_pending (ac_listener y) = [] \<and> ls_waiter (ac_listener y) = None \<and>
     ls_error (ac_listener y) = None \<and> ac_ready y = [] \<and> ac_arrived y = [] \<and> ac_accepted y = []"

definition accept_good :: "accept_sys \<Rightarrow> bool" where
  "accept_good y \<longleftrightarrow> ac_arrived y = ac_accepted y @ ls_pending (ac_listener y) \<and>
     (ls_waiter (ac_listener y) \<noteq> None \<longrightarrow>
        ls_pending (ac_listener y) = [] \<and> ls_error (ac_listener y) = None \<and> ls_open (ac_listener y))"

lemma accept_resume_cases:
  "accept_resume reg s = (r, s') \<Longrightarrow>
   (\<exists>c. r = Inr c \<and> ls_pending s = c # ls_pending s' \<and> s' = s\<lparr>ls_pending := tl (ls_pending s)\<rparr>) \<or> (\<exists>e. r = Inl e) \<and> s' = s"
  by (auto simp: accept_resume_def split: registration.splits list.splits option.splits if_splits)

lemma accept_good_resumed:
  assumes "accept_good y" "accept_resume reg (ac_listener y) = (r, s')"
  shows "accept_good (y\<lparr>ac_listener := s', ac_ready := q, ac_accepted := ac_accepted y @ (case r of Inr c \<Rightarrow> [c] | Inl _ \<Rightarrow> [])\<rparr>)"
  using accept_resume_cases[OF assms(2)]
proof (elim disjE exE conjE)
  fix c assume c: "r = Inr c" "ls_pending (ac_listener y) = c # ls_pending s'"
    and s': "s' = ac_listener y\<lparr>ls_pending := tl (ls_pending (ac_listener y))\<rparr>"
  have "ls_waiter (ac_listener y) = None" using assms(1) c(2) by (auto simp: accept_good_def)
  then have "ls_waiter s' = None" by (subst s') simp
  then show ?thesis using assms(1) c by (simp add: accept_good_def)
next
  fix e assume "r = Inl e" "s' = ac_listener y"
  then show ?thesis using assms(1) by (simp add: accept_good_def)
qed

lemma accept_good_step:
  assumes "accept_good y" "accept_step y y'"
  shows "accept_good y'"
  using assms(2)
proof (cases rule: accept_step.cases)
  case (accept_call t reg s')
  then show ?thesis using assms(1)
    by (cases "ls_pending (ac_listener y) \<noteq> [] \<or> \<not> ls_open (ac_listener y) \<or> ls_error (ac_listener y) \<noteq> None";
        cases "ls_waiter (ac_listener y)") (auto simp: accept_good_def accept_register_def ls_open_def)
next
  case (connection ev w s')
  then show ?thesis using assms(1)
    by (cases ev) (auto simp: accept_good_def on_connection_def arrives_def)
next
  case (resumed a t reg b r s')
  show ?thesis unfolding resumed(1) using assms(1) resumed(3) by (rule accept_good_resumed)
next
  case (close_call w s')
  then show ?thesis using assms(1)
    by (auto simp: accept_good_def ls_close_on_loop_def ls_open_def split: if_splits)
next
  case close_ended
  then show ?thesis using assms(1) by (auto simp: accept_good_def ls_on_close_def ls_open_def)
qed

interpretation accept_run: invariant_system fresh_listener accept_step accept_good
proof unfold_locales
  show "fresh_listener s \<Longrightarrow> accept_good s" for s by (simp add: fresh_listener_def accept_good_def)
qed (rule accept_good_step)

text \<open>
  C27: however accept calls, connections and close interleave, every connection
  libuv hands over is returned by accept at most once and in order, the others
  are still queued, and a coroutine waits in accept only while there is
  neither a connection nor an error to report and the listener is open.
\<close>

theorem accept_in_order:
  assumes "reachable fresh_listener accept_step y"
  shows "ac_arrived y = ac_accepted y @ ls_pending (ac_listener y) \<and>
    (ls_waiter (ac_listener y) \<noteq> None \<longrightarrow>
       ls_pending (ac_listener y) = [] \<and> ls_error (ac_listener y) = None \<and> ls_open (ac_listener y))"
  using accept_run.reachable_good[OF assms] by (simp add: accept_good_def)

definition sample_listener :: "listener" where
  "sample_listener = \<lparr>ls_pending = [], ls_waiter = None, ls_error = None, ls_initialized = True, ls_closing = False,
     ls_closed = False\<rparr>"

definition sample_accept :: "listener \<Rightarrow> nat list \<Rightarrow> accept_sys" where
  "sample_accept s arrived = \<lparr>ac_listener = s, ac_ready = [], ac_arrived = arrived, ac_accepted = []\<rparr>"

theorem accept_in_order_witness:
  "ac_arrived (sample_accept (sample_listener\<lparr>ls_pending := [7]\<rparr>) [7]) =
   ac_accepted (sample_accept (sample_listener\<lparr>ls_pending := [7]\<rparr>) [7]) @ [7]"
proof -
  let ?y = "sample_accept sample_listener []"
  have r: "reachable fresh_listener accept_step ?y"
    by (rule reachable.start) (simp add: fresh_listener_def sample_accept_def sample_listener_def ls_open_def)
  have "on_connection (Connected 7) (ac_listener ?y) = (None, sample_listener\<lparr>ls_pending := [7]\<rparr>)"
    by (simp add: on_connection_def sample_accept_def sample_listener_def)
  from accept_step.connection[OF _ this]
  have "accept_step ?y (sample_accept (sample_listener\<lparr>ls_pending := [7]\<rparr>) [7])"
    by (simp add: sample_accept_def sample_listener_def wake_def arrives_def)
  with r have "reachable fresh_listener accept_step (sample_accept (sample_listener\<lparr>ls_pending := [7]\<rparr>) [7])"
    by (rule reachable.next_state)
  from accept_in_order[OF this] show ?thesis by (simp add: sample_accept_def)
qed

section \<open>One failed connection ends the listener\<close>

definition accept_failed :: "accept_sys \<Rightarrow> bool" where
  "accept_failed y \<longleftrightarrow> ls_error (ac_listener y) \<noteq> None"

lemma accept_failed_step: "accept_failed y \<Longrightarrow> accept_step y y' \<Longrightarrow> accept_failed y'"
  by (erule accept_stepE)
    (auto simp: accept_failed_def accept_register_def on_connection_def ls_close_on_loop_def ls_on_close_def
      dest!: accept_resume_cases split: conn_event.splits if_splits)

interpretation accept_stuck: invariant_system accept_failed accept_step accept_failed
  by unfold_locales (assumption, rule accept_failed_step)

text \<open>The error of one connection is never cleared: afterwards, whatever
  happens, accept never waits again, and with no connection queued it throws,
  although the listener may be open and connections may still come.\<close>

theorem accept_error_is_final:
  assumes "on_connection (ConnError e) (ac_listener y) = (w, s)" "accept_step\<^sup>*\<^sup>* (y\<lparr>ac_listener := s\<rparr>) y'"
  shows "fst (accept_register t (ac_listener y')) \<noteq> Suspended \<and>
    (ls_pending (ac_listener y') = [] \<longrightarrow> (\<exists>x. fst (accept_resume Ready (ac_listener y')) = Inl x))"
proof -
  have "accept_failed (y\<lparr>ac_listener := s\<rparr>)" using assms(1) by (auto simp: accept_failed_def on_connection_def)
  with assms(2) have "accept_failed y'" by (rule accept_stuck.run_good)
  then show ?thesis by (auto simp: accept_failed_def accept_register_def accept_resume_def)
qed

theorem accept_error_is_final_witness:
  "fst (accept_register 1 (sample_listener\<lparr>ls_error := Some (UV_CODE (- 24))\<rparr>)) \<noteq> Suspended \<and>
   ls_open (sample_listener\<lparr>ls_error := Some (UV_CODE (- 24))\<rparr>)"
proof -
  let ?y = "sample_accept sample_listener []"
  have "on_connection (ConnError (UV_CODE (- 24))) (ac_listener ?y) =
      (None, sample_listener\<lparr>ls_error := Some (UV_CODE (- 24))\<rparr>)"
    by (simp add: on_connection_def sample_accept_def sample_listener_def)
  from accept_error_is_final[OF this rtranclp.rtrancl_refl, of 1] show ?thesis
    by (simp add: sample_listener_def ls_open_def)
qed

end
