(* ===== verification/Http_Server.thy ===== *)
theory Http_Server
  imports Http_Connection Task_Group Tcp_Listener
begin

text \<open>
  Server::serve and Server::close of src/http.cpp: the loop that accepts
  connections and spawns a handle_client for each into a task group, its
  clauses for the ways accept fails, and the wait for the group at the end.
  The steps are those of the loop thread; the connections' coroutines end in
  any order, each as handle_client ends for it.  The server of src/https.cpp
  has the same loop.
\<close>

section \<open>The server\<close>

text \<open>
  Where serve stands: at the test of its loop, suspended in accept, woken from
  it, waiting for the connections, or ended.
\<close>

datatype serve_pc = AtLoop | InAccept | Woken registration | Draining | Ended "unit result"

text \<open>Connections are numbered as by the listener. sv_started lists those a handle_client was spawned for.\<close>

record server =
  sv_listener :: listener
  sv_connections :: task_group
  sv_clients :: "nat list"
  sv_started :: "nat list"
  sv_failure :: "exn option"
  sv_pc :: serve_pc

definition sv_close :: "server \<Rightarrow> server" where
  "sv_close s =
     (case ls_close_on_loop (sv_listener s) of
        (w, l) \<Rightarrow> s\<lparr>sv_listener := l, sv_pc := (if w = None then sv_pc s else Woken Tcp_Listener.Suspended)\<rparr>)"

text \<open>std::invalid_argument and std::out_of_range are logic errors too.\<close>

fun is_logic_error :: "exn \<Rightarrow> bool" where
  "is_logic_error (LogicError _) = True"
| "is_logic_error (InvalidArgument _) = True"
| "is_logic_error (OutOfRange _) = True"
| "is_logic_error _ = False"

definition serve_failed :: "exn \<Rightarrow> server \<Rightarrow> server" where
  "serve_failed e s =
     s\<lparr>sv_failure := Some e, sv_connections := tg_cancel (sv_connections s), sv_pc := Draining\<rparr>"

text \<open>One turn of the loop from the return of accept on.\<close>

definition serve_turn :: "nat result \<Rightarrow> server \<Rightarrow> server" where
  "serve_turn accepted s =
     (case accepted of
        Inr stream \<Rightarrow>
          (case spawn_locked (sv_connections s) of
             (True, g) \<Rightarrow> s\<lparr>sv_connections := g, sv_clients := sv_clients s @ [stream],
                sv_started := sv_started s @ [stream], sv_pc := AtLoop\<rparr>
           | (False, g) \<Rightarrow> serve_failed (RuntimeError ''corouv::http::Server spawn failed'') s)
      | Inl e \<Rightarrow>
          if is_signal_exception e
          then (let s1 = sv_close s in s1\<lparr>sv_connections := tg_cancel (sv_connections s1), sv_pc := Draining\<rparr>)
          else if is_logic_error e \<and> \<not> ls_open (sv_listener s) then s\<lparr>sv_pc := Draining\<rparr>
          else serve_failed e s)"

text \<open>The end of serve, when connections.wait() has ended with waited.\<close>

definition serve_return :: "unit result \<Rightarrow> server \<Rightarrow> server" where
  "serve_return waited s =
     (let failure = (case sv_failure s of
            Some e \<Rightarrow> Some e
          | None \<Rightarrow> (case waited of Inl e \<Rightarrow> Some e | Inr _ \<Rightarrow> None))
      in s\<lparr>sv_failure := failure, sv_pc := Ended (case failure of Some e \<Rightarrow> Inl e | None \<Rightarrow> Inr ())\<rparr>)"

text \<open>listen, where net::listen gives opened; a listener that is open is kept.\<close>

definition sv_listen :: "listener result \<Rightarrow> server \<Rightarrow> unit result \<times> server" where
  "sv_listen opened s =
     (if ls_open (sv_listener s) then (Inr (), s)
      else case opened of
             Inl e \<Rightarrow> (Inl e, s)
           | Inr l \<Rightarrow> (Inr (), s\<lparr>sv_listener := l\<rparr>))"

text \<open>serve up to its loop.\<close>

definition serve_start :: "listener result \<Rightarrow> server \<Rightarrow> unit result \<times> server" where
  "serve_start opened s =
     (case sv_listen opened s of
        (Inl e, s') \<Rightarrow> (Inl e, s'\<lparr>sv_pc := Ended (Inl e)\<rparr>)
      | (Inr _, s') \<Rightarrow>
          (Inr (), s'\<lparr>sv_connections := TaskGroup, sv_clients := [], sv_started := [], sv_failure := None, sv_pc := AtLoop\<rparr>))"

text \<open>
  ends says how handle_client ends for each connection; a connection of a
  canceled group may also end with the cancellation.  serve itself may be
  canceled while it waits for the group; the group goes with it, which cancels
  the connections.
\<close>

inductive serve_step :: "(nat \<Rightarrow> unit result) \<Rightarrow> server \<Rightarrow> server \<Rightarrow> bool"
  for ends where
  accept_called: "\<lbrakk>sv_pc s = AtLoop; ls_open (sv_listener s); accept_register 0 (sv_listener s) = (reg, l)\<rbrakk> \<Longrightarrow>
    serve_step ends s (s\<lparr>sv_listener := l, sv_pc := (if reg = Tcp_Listener.Suspended then InAccept else Woken reg)\<rparr>)"
| loop_left: "\<lbrakk>sv_pc s = AtLoop; \<not> ls_open (sv_listener s)\<rbrakk> \<Longrightarrow> serve_step ends s (s\<lparr>sv_pc := Draining\<rparr>)"
| connected: "\<lbrakk>\<not> ls_closing (sv_listener s); on_connection event (sv_listener s) = (w, l)\<rbrakk> \<Longrightarrow>
    serve_step ends s (s\<lparr>sv_listener := l, sv_pc := (if w = None then sv_pc s else Woken Tcp_Listener.Suspended)\<rparr>)"
| accept_returned: "\<lbrakk>sv_pc s = Woken reg; accept_resume reg (sv_listener s) = (r, l)\<rbrakk> \<Longrightarrow>
    serve_step ends s (serve_turn r (s\<lparr>sv_listener := l\<rparr>))"
| client_ended: "\<lbrakk>sv_clients s = a @ c # b; res = ends c \<or> cancel_flag (sv_connections s) \<and> res = Inl (SignalException m)\<rbrakk> \<Longrightarrow>
    serve_step ends s (s\<lparr>sv_connections := finish (try_to_exception res) (sv_connections s), sv_clients := a @ b\<rparr>)"
| server_closed: "serve_step ends s (sv_close s)"
| handle_closed: "ls_closing (sv_listener s) \<Longrightarrow> serve_step ends s (s\<lparr>sv_listener := ls_on_close (sv_listener s)\<rparr>)"
| drained_waited: "\<lbrakk>sv_pc s = Draining; signaled (drained (sv_connections s)); wait_drained (sv_connections s) = (r, g)\<rbrakk> \<Longrightarrow>
    serve_step ends s (serve_return r (s\<lparr>sv_connections := g\<rparr>))"
| wait_canceled: "sv_pc s = Draining \<Longrightarrow>
    serve_step ends s (serve_return (Inl (SignalException m)) (s\<lparr>sv_connections := tg_cancel (sv_connections s)\<rparr>))"

inductive_cases serve_stepE: "serve_step ends s s'"

text \<open>serve with its listener open and its group just made.\<close>

definition serving :: "server \<Rightarrow> bool" where
  "serving s \<longleftrightarrow> ls_open (sv_listener s) \<and> ls_pending (sv_listener s) = [] \<and> ls_waiter (sv_listener s) = None \<and>
     ls_error (sv_listener s) = None \<and> sv_connections s = TaskGroup \<and> sv_clients s = [] \<and> sv_started s = [] \<and>
     sv_failure s = None \<and> sv_pc s = AtLoop"

lemma serve_start_serving:
  assumes "\<not> ls_open (sv_listener s)" "ls_open l" "ls_pending l = []" "ls_waiter l = None" "ls_error l = None"
  shows "fst (serve_start (Inr l) s) = Inr ()" "serving (snd (serve_start (Inr l) s))"
  using assms by (simp_all add: serve_start_def sv_listen_def serving_def)

section \<open>The group of connections\<close>

text \<open>
  The group counts the connections that run; it is drained when there is none.
  Without a failure the loop is left only once the listener is closed, and a
  regular end of serve leaves no connection behind.
\<close>

definition serve_good :: "server \<Rightarrow> bool" where
  "serve_good s \<longleftrightarrow>
     pending (sv_connections s) = length (sv_clients s) \<and>
     (signaled (drained (sv_connections s)) \<longleftrightarrow> sv_clients s = []) \<and>
     (first_error (sv_connections s) \<noteq> None \<longrightarrow> cancel_flag (sv_connections s)) \<and>
     (ls_waiter (sv_listener s) \<noteq> None \<longleftrightarrow> sv_pc s = InAccept) \<and>
     (ls_waiter (sv_listener s) \<noteq> None \<longrightarrow> ls_open (sv_listener s)) \<and>
     (case sv_pc s of
        Draining \<Rightarrow> sv_failure s = None \<longrightarrow> \<not> ls_open (sv_listener s)
      | Ended r \<Rightarrow> r = Inr () \<longrightarrow> \<not> ls_open (sv_listener s) \<and> sv_clients s = []
      | _ \<Rightarrow> sv_failure s = None)"

lemma ls_close_on_loop_cases:
  "ls_close_on_loop l = (w, l') \<Longrightarrow>
     (w = None \<and> ls_waiter l' = ls_waiter l \<and> \<not> ls_open l \<or> w = ls_waiter l \<and> ls_waiter l' = None) \<and> \<not> ls_open l'"
  by (auto simp: ls_close_on_loop_def ls_open_def split: if_splits)

lemma serve_good_close:
  assumes "serve_good s"
  shows "serve_good (sv_close s)" "\<not> ls_open (sv_listener (sv_close s))" "sv_connections (sv_close s) = sv_connections s"
    "sv_clients (sv_close s) = sv_clients s" "sv_failure (sv_close s) = sv_failure s" "sv_started (sv_close s) = sv_started s"
proof -
  obtain w l where wl: "ls_close_on_loop (sv_listener s) = (w, l)" by fastforce
  note c = ls_close_on_loop_cases[OF wl]
  show "serve_good (sv_close s)"
    using assms c by (auto simp: sv_close_def wl serve_good_def split: serve_pc.splits)
qed (use ls_close_on_loop_cases in \<open>auto simp: sv_close_def split: prod.splits\<close>)

lemma serve_good_turn:
  assumes "serve_good s" "sv_pc s = Woken reg"
  shows "serve_good (serve_turn r s)"
proof (cases r)
  case (Inl e)
  show ?thesis
  proof (cases "is_signal_exception e")
    case True
    have w: "ls_waiter (sv_listener s) = None" using assms by (auto simp: serve_good_def)
    then have "ls_waiter (sv_listener (sv_close s)) = None"
      by (auto simp: sv_close_def ls_close_on_loop_def split: prod.splits if_splits)
    then show ?thesis using serve_good_close[OF assms(1)] assms True Inl
      by (simp add: serve_turn_def Let_def serve_good_def tg_cancel_def)
  next
    case False
    then show ?thesis using assms Inl by (auto simp: serve_turn_def serve_failed_def serve_good_def tg_cancel_def)
  qed
next
  case (Inr c)
  then show ?thesis using assms
    by (auto simp: serve_turn_def serve_failed_def serve_good_def tg_cancel_def spawn_locked_def Let_def)
qed

lemma serve_good_ended:
  assumes "serve_good s" "sv_clients s = a @ c # b"
  shows "serve_good (s\<lparr>sv_connections := finish ep (sv_connections s), sv_clients := a @ b\<rparr>)"
proof -
  have "0 < pending (sv_connections s)" "\<not> signaled (drained (sv_connections s))"
    using assms by (auto simp: serve_good_def)
  moreover have "cancel_flag (finish ep g)" if "first_error (finish ep g) \<noteq> None" "first_error g \<noteq> None \<longrightarrow> cancel_flag g" for g
    using that by (auto simp: finish_def finish_locked_def tg_cancel_def set_drained_def Let_def split: option.splits if_splits)
  ultimately show ?thesis
    using assms finish_drained[of "sv_connections s" ep]
    by (auto simp: serve_good_def finish_simps(2) split: serve_pc.splits)
qed

lemma serve_good_step:
  assumes "serve_good s" "serve_step ends s s'"
  shows "serve_good s'"
  using assms(2)
proof (cases rule: serve_step.cases)
  case (accept_called reg l)
  then show ?thesis using assms(1)
    by (auto simp: serve_good_def accept_register_def ls_open_def split: if_splits)
next
  case loop_left
  then show ?thesis using assms(1) by (auto simp: serve_good_def)
next
  case (connected event w l)
  have "ls_open l = ls_open (sv_listener s)" "w = ls_waiter (sv_listener s)" "ls_waiter l = None"
    using connected(3) by (auto simp: on_connection_def ls_open_def split: conn_event.splits)
  then show ?thesis using assms(1) connected(1) by (auto simp: serve_good_def split: serve_pc.splits)
next
  case (accept_returned reg r l)
  have "ls_open l = ls_open (sv_listener s)" "ls_waiter l = ls_waiter (sv_listener s)"
    using accept_resume_cases[OF accept_returned(3)] by (auto simp: ls_open_def)
  then have "serve_good (s\<lparr>sv_listener := l\<rparr>)" using assms(1) by (simp add: serve_good_def cong: serve_pc.case_cong)
  then show ?thesis unfolding accept_returned(1) by (rule serve_good_turn) (simp add: accept_returned(2))
next
  case (client_ended a c b res m)
  show ?thesis unfolding client_ended(1) using assms(1) client_ended(2) by (rule serve_good_ended)
next
  case server_closed
  then show ?thesis using serve_good_close(1)[OF assms(1)] by simp
next
  case handle_closed
  then show ?thesis using assms(1)
    by (auto simp: serve_good_def ls_on_close_def ls_open_def split: serve_pc.splits)
next
  case (drained_waited r g)
  then show ?thesis using assms(1)
    by (auto simp: serve_good_def serve_return_def Let_def wait_drained_def split: option.splits sum.splits)
next
  case (wait_canceled m)
  then show ?thesis using assms(1)
    by (auto simp: serve_good_def serve_return_def Let_def tg_cancel_def split: option.splits)
qed

interpretation serve_run: invariant_system serving "serve_step ends" serve_good
proof unfold_locales
  show "serving s \<Longrightarrow> serve_good s" for s
    by (simp add: serving_def serve_good_def TaskGroup_def ManualResetEvent_def)
qed (rule serve_good_step)

section \<open>A connection that fails\<close>

text \<open>
  After a connection's failure: the group is canceled, no connection was
  started since, and serve has ended with an exception or is going to.
\<close>

definition broken :: "nat list \<Rightarrow> server \<Rightarrow> bool" where
  "broken started s \<longleftrightarrow>
     serve_good s \<and> sv_started s = started \<and>
     (case sv_pc s of
        Ended r \<Rightarrow> r \<noteq> Inr ()
      | _ \<Rightarrow> cancel_flag (sv_connections s) \<and> first_error (sv_connections s) \<noteq> None)"

lemma broken_step:
  assumes "broken started s" "serve_step ends s s'"
  shows "broken started s'"
proof -
  have good: "serve_good s" "serve_good s'" using assms serve_good_step by (auto simp: broken_def)
  from assms(2) show ?thesis
  proof (cases rule: serve_step.cases)
    case (connected event w l)
    have "w = ls_waiter (sv_listener s)" using connected(3) by (auto simp: on_connection_def split: conn_event.splits)
    then show ?thesis using assms(1) good(2) connected
      by (auto simp: broken_def serve_good_def split: serve_pc.splits)
  next
    case (accept_returned reg r l)
    have g: "sv_started s = started" "cancel_flag (sv_connections s)" "first_error (sv_connections s) \<noteq> None"
      using assms(1) accept_returned(2) by (auto simp: broken_def)
    have "sv_connections (serve_turn r t) = tg_cancel (sv_connections t) \<or> sv_connections (serve_turn r t) = sv_connections t"
      "sv_started (serve_turn r t) = sv_started t" "sv_pc (serve_turn r t) = Draining"
      if "cancel_flag (sv_connections t)" for t
      using that by (auto simp: serve_turn_def serve_failed_def spawn_locked_def sv_close_def Let_def split: sum.splits prod.splits)
    from this[of "s\<lparr>sv_listener := l\<rparr>"] show ?thesis
      using g good(2) accept_returned(1) by (auto simp: broken_def tg_cancel_def)
  next
    case (client_ended a c b res m)
    have "first_error g \<noteq> None \<Longrightarrow> first_error (finish ep g) = first_error g \<and> cancel_flag (finish ep g) = cancel_flag g" for ep g
      by (auto simp: finish_def finish_locked_def tg_cancel_def set_drained_def Let_def split: option.splits)
    then show ?thesis using client_ended(1) assms(1) good(2) by (auto simp: broken_def split: serve_pc.splits)
  next
    case server_closed
    have "ls_waiter (sv_listener s) \<noteq> None \<longrightarrow> sv_pc s = InAccept" using good(1) by (simp add: serve_good_def)
    then show ?thesis using server_closed assms(1) good(2)
      by (auto simp: broken_def sv_close_def ls_close_on_loop_def split: serve_pc.splits prod.splits if_splits)
  next
    case (drained_waited r g)
    then show ?thesis using assms(1) good(2)
      by (auto simp: broken_def serve_return_def Let_def wait_drained_def split: option.splits)
  qed (use assms(1) good(2) in \<open>auto simp: broken_def serve_return_def Let_def split: serve_pc.splits option.splits\<close>)
qed

interpretation broken_run: invariant_system "broken started" "serve_step ends" "broken started"
  by unfold_locales (auto intro: broken_step)

text \<open>A connection whose peer resets it before it has sent a byte: the error of the read leaves handle_client.\<close>

definition resets :: "uv_err \<Rightarrow> tcp \<Rightarrow> bool" where
  "resets e s \<longleftrightarrow> tcp_open s \<and> read_buffer s = [] \<and> \<not> tcp_eof s \<and> read_error s = None \<and> \<not> read_waiter s \<and>
     read_start_rc s = None \<and> (\<exists>evs. uv_reads s = UvReadErr e # evs)"

lemma handle_client_resets:
  assumes "resets e s" "0 < max_header_bytes limits"
  shows "fst (handle_client parse handler limits timeouts s h) = Inl (UvError e ''uv_read'')"
proof -
  obtain evs where evs: "uv_reads s = UvReadErr e # evs" using assms(1) by (auto simp: resets_def)
  have some: "\<exists>s'. read_some armed cap s = (Inl (UvError e ''uv_read''), s')" if "0 < cap" for armed cap
    using assms(1) evs that by (auto simp: resets_def read_some_def read_await_def start_reading_on_loop_def read_resume_def)
  have more: "\<exists>r'. read_more t mb st msg cap r = (Inl (UvError e ''uv_read''), r')"
    if "0 < cap" "rd_stream r = s" for t mb st msg cap and r :: "string reader"
  proof -
    obtain s' where "read_some (t_armed t) (min cap 4096) s = (Inl (UvError e ''uv_read''), s')"
      using some[of "min cap 4096"] \<open>0 < cap\<close> by auto
    then show ?thesis using that by (simp add: read_more_def with_optional_timeout_def)
  qed
  let ?c = "Connection s limits timeouts"
  let ?r = "conn_reader ?c [] :: string reader"
  have v: "view (rd_buf ?r) = []" "rd_stream ?r = s" "buf_size (rd_buf ?r) = 0" "tcp_open s" "cn_limits ?c = limits"
    "conn_is_open ?c"
    using assms(1) by (simp_all add: conn_reader_def Connection_def view_def buf_size_def resets_def conn_is_open_def)
  have "\<exists>r'. read_request_head parse limits t n ?r = (Inl (UvError e ''uv_read''), r')" for t n
  proof -
    obtain r' where "read_more t (max_header_bytes limits) 431 ''request headers too large'' (max_header_bytes limits) ?r =
        (Inl (UvError e ''uv_read''), r')"
      using more[OF assms(2) v(2)] by blast
    then show ?thesis using v assms(2) by (subst read_request_head.simps) (simp split: prod.splits)
  qed
  then obtain r' where "read_request_head parse limits
      \<lparr>t_armed = to_read_headers (cn_timeouts ?c), t_status = 408, t_message = ''request header read timeout''\<rparr> 0 ?r =
      (Inl (UvError e ''uv_read''), r')" by blast
  then have "read_request parse ?c = (Inl (UvError e ''uv_read''), conn_after ?c r')"
    using v(5) by (simp add: read_request_def read_request_stream_def)
  then show ?thesis using v(6) by (simp add: handle_client_def)
qed

lemma failed_client_breaks:
  assumes "serve_good s" "sv_clients s = a @ c # b" "\<not> is_signal_exception e" "\<And>r. sv_pc s \<noteq> Ended r"
  shows "broken (sv_started s) (s\<lparr>sv_connections := finish (Some e) (sv_connections s), sv_clients := a @ b\<rparr>)"
proof -
  have "first_error (finish (Some e) (sv_connections s)) \<noteq> None" using assms(3) by (auto simp: finish_simps)
  with serve_good_ended[OF assms(1,2), of "Some e"] assms(4) show ?thesis
    by (auto simp: broken_def serve_good_def split: serve_pc.splits)
qed

lemma broken_refuses:
  "broken started t \<Longrightarrow> sv_pc t = Woken reg \<Longrightarrow>
   serve_turn (Inr c) (t\<lparr>sv_listener := l\<rparr>) = serve_failed (RuntimeError ''corouv::http::Server spawn failed'') (t\<lparr>sv_listener := l\<rparr>)"
  by (simp add: broken_def serve_turn_def spawn_locked_def)

section \<open>Properties\<close>

text \<open>
  C14: however connections arrive, end, fail or are canceled and whenever the
  server is closed, the task group counts exactly the connections that are
  being served; serve ends without an exception only after its listener was
  closed and the last connection has ended.
\<close>

theorem serve_waits_for_connections:
  assumes "reachable serving (serve_step ends) s"
  shows "pending (sv_connections s) = length (sv_clients s) \<and>
    (signaled (drained (sv_connections s)) \<longleftrightarrow> sv_clients s = []) \<and>
    (sv_pc s = Ended (Inr ()) \<longrightarrow> \<not> ls_open (sv_listener s) \<and> sv_clients s = [])"
  using serve_run.reachable_good[OF assms] by (simp add: serve_good_def split: serve_pc.splits)

text \<open>A server that serves one connection, is closed meanwhile and ends when the connection has ended.\<close>

definition open_listener :: listener where
  "open_listener = \<lparr>ls_pending = [], ls_waiter = None, ls_error = None, ls_initialized = True, ls_closing = False,
     ls_closed = False\<rparr>"

definition sample_server :: server where
  "sample_server = \<lparr>sv_listener = open_listener, sv_connections = TaskGroup, sv_clients = [], sv_started = [],
     sv_failure = None, sv_pc = AtLoop\<rparr>"

lemma sample_serving: "reachable serving (serve_step ends) sample_server"
  by (rule reachable.start) (simp add: serving_def sample_server_def open_listener_def ls_open_def)

definition one_client :: "serve_pc \<Rightarrow> server" where
  "one_client p = sample_server\<lparr>sv_connections := snd (spawn_locked TaskGroup), sv_clients := [7], sv_started := [7], sv_pc := p\<rparr>"

lemma sample_accepts: "reachable serving (serve_step ends) (one_client AtLoop)"
proof -
  have "serve_step ends sample_server (sample_server\<lparr>sv_listener := open_listener\<lparr>ls_waiter := Some 0\<rparr>, sv_pc := InAccept\<rparr>)"
    (is "serve_step _ _ ?s1")
    using accept_called[of sample_server Tcp_Listener.Suspended "open_listener\<lparr>ls_waiter := Some 0\<rparr>" ends]
    by (simp add: sample_server_def open_listener_def ls_open_def accept_register_def)
  moreover have "serve_step ends ?s1 (sample_server\<lparr>sv_listener := open_listener\<lparr>ls_pending := [7]\<rparr>, sv_pc := Woken Tcp_Listener.Suspended\<rparr>)"
    (is "serve_step _ _ ?s2")
    using connected[of ?s1 "Connected 7" "Some 0" "open_listener\<lparr>ls_pending := [7]\<rparr>" ends]
    by (simp add: sample_server_def open_listener_def on_connection_def)
  moreover have "serve_step ends ?s2 (one_client AtLoop)"
    using accept_returned[of ?s2 Tcp_Listener.Suspended "Inr 7" open_listener ends]
    by (simp add: sample_server_def open_listener_def accept_resume_def serve_turn_def one_client_def spawn_locked_def
        TaskGroup_def Let_def)
  ultimately show ?thesis using sample_serving reachable.next_state by metis
qed

lemma sample_ends:
  "\<exists>s. reachable serving (serve_step (\<lambda>_. Inr ())) s \<and> sv_pc s = Ended (Inr ()) \<and> sv_started s = [7]"
proof -
  let ?ends = "\<lambda>_::nat. Inr () :: unit result"
  let ?l = "open_listener\<lparr>ls_closing := True, ls_error := Some UV_ECANCELED\<rparr>"
  let ?s1 = "(one_client AtLoop)\<lparr>sv_listener := ?l\<rparr>" and ?s2 = "(one_client Draining)\<lparr>sv_listener := ?l\<rparr>"
  let ?g = "finish None (snd (spawn_locked TaskGroup))"
  let ?s3 = "?s2\<lparr>sv_connections := ?g, sv_clients := []\<rparr>"
  have "serve_step ?ends (one_client AtLoop) ?s1"
    using server_closed[of ?ends "one_client AtLoop"]
    by (simp add: one_client_def sample_server_def open_listener_def sv_close_def ls_close_on_loop_def)
  moreover have "serve_step ?ends ?s1 ?s2"
    using loop_left[of ?s1 ?ends] by (simp add: one_client_def sample_server_def open_listener_def ls_open_def)
  moreover have "serve_step ?ends ?s2 ?s3"
    using client_ended[of ?s2 "[]" 7 "[]" "Inr ()" ?ends] by (simp add: one_client_def try_to_exception_def)
  moreover have "signaled (drained ?g)" "first_error ?g = None"
    using finish_drained[of "snd (spawn_locked TaskGroup)" None]
    by (simp_all add: finish_simps spawn_locked_def TaskGroup_def Let_def)
  then have "serve_step ?ends ?s3 (serve_return (Inr ()) ?s3)"
    using drained_waited[of ?s3 "Inr ()" ?g ?ends] by (simp add: one_client_def sample_server_def wait_drained_def)
  ultimately have "reachable serving (serve_step ?ends) (serve_return (Inr ()) ?s3)"
    using sample_accepts[of ?ends] reachable.next_state by metis
  moreover have "sv_pc (serve_return (Inr ()) ?s3) = Ended (Inr ())" "sv_started (serve_return (Inr ()) ?s3) = [7]"
    by (simp_all add: serve_return_def one_client_def sample_server_def)
  ultimately show ?thesis by blast
qed

theorem serve_waits_for_connections_witness:
  "\<exists>s. reachable serving (serve_step (\<lambda>_. Inr ())) s \<and> sv_started s = [7] \<and> sv_pc s = Ended (Inr ()) \<and>
     \<not> ls_open (sv_listener s) \<and> sv_clients s = []"
  using sample_ends serve_waits_for_connections by blast



end
