(* ===== verification/Async_Semaphore.thy ===== *)
theory Async_Semaphore
  imports Prelude Transition
begin

text \<open>
  AsyncSemaphore (src/include/corouv/async_semaphore.h): a counting semaphore
  for coroutines, used from several threads.  The first part translates the
  operations; the waiters live in a store so that the deque, the releasing
  thread, the cancellation handler and the awaiter share them as the
  shared_ptrs of the source do.  The second part runs them as a step relation
  whose steps are the critical sections and the accesses to the atomic flags,
  and proves that permits are conserved, that no coroutine is resumed twice
  and that no waiter sleeps while a permit is free.
\<close>

section \<open>Waiters and the operations under the lock\<close>

type_synonym addr = nat

text \<open>
  The coroutine handle in continuation is the task that waits; None is the
  null handle.
\<close>

record Waiter =
  continuation :: "task option"
  is_done :: bool
  granted :: bool
  abandoned :: bool
  cancel_requested :: bool

text \<open>
  The semaphore together with the store of its waiters: next_waiter is the
  first address not yet allocated, and resumed holds the handles given to
  detail::resume_handle that have not run yet.
\<close>

record sem =
  permits :: nat
  waiters :: "addr list"
  heap :: "addr \<Rightarrow> Waiter"
  next_waiter :: addr
  resumed :: "task list"

definition new_waiter :: "task \<Rightarrow> Waiter" where
  "new_waiter t = \<lparr>continuation = Some t, is_done = False, granted = False, abandoned = False,
     cancel_requested = False\<rparr>"

definition semaphore :: "nat \<Rightarrow> sem" where
  "semaphore initial_permits = \<lparr>permits = initial_permits, waiters = [], heap = (\<lambda>_. new_waiter 0),
     next_waiter = 0, resumed = []\<rparr>"

definition upd_waiter :: "addr \<Rightarrow> (Waiter \<Rightarrow> Waiter) \<Rightarrow> sem \<Rightarrow> sem" where
  "upd_waiter w f s = s\<lparr>heap := (heap s)(w := f (heap s w))\<rparr>"

definition compact_waiters_locked :: "sem \<Rightarrow> sem" where
  "compact_waiters_locked s = s\<lparr>waiters := filter (\<lambda>w. \<not> is_done (heap s w)) (waiters s)\<rparr>"

definition try_acquire :: "sem \<Rightarrow> bool \<times> sem" where
  "try_acquire s = (let s = compact_waiters_locked s in
     if permits s = 0 then (False, s) else (True, s\<lparr>permits := permits s - 1\<rparr>))"

definition try_mark_granted :: "addr \<Rightarrow> sem \<Rightarrow> bool \<times> sem" where
  "try_mark_granted w s = (if is_done (heap s w) then (False, s)
     else (True, upd_waiter w (\<lambda>x. x\<lparr>is_done := True, granted := True\<rparr>) s))"

definition try_mark_canceled :: "addr \<Rightarrow> sem \<Rightarrow> bool \<times> sem" where
  "try_mark_canceled w s = (if is_done (heap s w) then (False, s)
     else (True, upd_waiter w (\<lambda>x. x\<lparr>is_done := True\<rparr>) s))"

text \<open>The handle is taken out of the waiter and handed to the executor.\<close>

definition resume_after_marked_done :: "addr \<Rightarrow> sem \<Rightarrow> sem" where
  "resume_after_marked_done w s = (if abandoned (heap s w) then s else
     (case continuation (heap s w) of
        None \<Rightarrow> s
      | Some t \<Rightarrow> (upd_waiter w (\<lambda>x. x\<lparr>continuation := None\<rparr>) s)\<lparr>resumed := resumed s @ [t]\<rparr>))"

text \<open>The loop of release: permits go to the front waiters whose flag is won.\<close>

function grant_loop :: "sem \<Rightarrow> addr list \<times> sem" where
  "grant_loop s = (if permits s > 0 then
     (case waiters s of
        [] \<Rightarrow> ([], s)
      | w # ws \<Rightarrow>
          (case try_mark_granted w (s\<lparr>waiters := ws\<rparr>) of
             (False, s1) \<Rightarrow> grant_loop s1
           | (True, s1) \<Rightarrow> (let (gs, s2) = grant_loop (s1\<lparr>permits := permits s1 - 1\<rparr>) in (w # gs, s2))))
     else ([], s))"
  by auto
termination
  by (relation "measure (\<lambda>s. length (waiters s))")
     (auto simp: try_mark_granted_def upd_waiter_def split: if_splits)

declare grant_loop.simps [simp del]

text \<open>
  The critical section of release returns the waiters to wake; the whole
  operation wakes them after the lock is dropped.
\<close>

definition release_locked :: "nat \<Rightarrow> sem \<Rightarrow> addr list result \<times> sem" where
  "release_locked count s = (if count > size_max - permits s
     then (Inl (OverflowError ''corouv::AsyncSemaphore permit overflow''), s)
     else let (wakeups, s') =
            grant_loop (compact_waiters_locked (s\<lparr>permits := permits s + count\<rparr>))
          in (Inr wakeups, s'))"

definition release :: "nat \<Rightarrow> sem \<Rightarrow> unit result \<times> sem" where
  "release count s = (if count = 0 then (Inr (), s) else
     (case release_locked count s of
        (Inl e, s') \<Rightarrow> (Inl e, s')
      | (Inr wakeups, s') \<Rightarrow> (Inr (), fold resume_after_marked_done wakeups s')))"

definition remove_waiter :: "addr \<Rightarrow> sem \<Rightarrow> sem" where
  "remove_waiter w s = s\<lparr>waiters := filter (\<lambda>x. x \<noteq> w \<and> \<not> is_done (heap s x)) (waiters s)\<rparr>"

definition enqueue_waiter :: "addr \<Rightarrow> sem \<Rightarrow> bool \<times> sem" where
  "enqueue_waiter w s = (let s = compact_waiters_locked s in
     if is_done (heap s w) then (False, s)
     else if permits s > 0 then
       (False, upd_waiter w (\<lambda>x. x\<lparr>is_done := True, granted := True\<rparr>) (s\<lparr>permits := permits s - 1\<rparr>))
     else (True, s\<lparr>waiters := waiters s @ [w]\<rparr>))"

definition request_cancel :: "addr \<Rightarrow> sem \<Rightarrow> sem" where
  "request_cancel w s = upd_waiter w (\<lambda>x. x\<lparr>cancel_requested := True\<rparr>) s"

definition cancel_on_executor :: "addr \<Rightarrow> sem \<Rightarrow> sem" where
  "cancel_on_executor w s = (if \<not> cancel_requested (heap s w) then s else
     (case try_mark_canceled w s of
        (False, s1) \<Rightarrow> s1
      | (True, s1) \<Rightarrow> resume_after_marked_done w (remove_waiter w s1)))"

section \<open>The awaiter\<close>

text \<open>
  What the cancellation slot of async_simple answers is an argument:
  canceled is the answer of hasCanceled (in await_ready) and of
  checkHasCanceled (in await_resume).
\<close>

definition await_ready :: "bool \<Rightarrow> sem \<Rightarrow> bool \<times> sem" where
  "await_ready canceled s = (if canceled then (True, s) else try_acquire s)"

definition make_waiter :: "task \<Rightarrow> sem \<Rightarrow> addr \<times> sem" where
  "make_waiter t s = (next_waiter s,
     s\<lparr>heap := (heap s)(next_waiter s := new_waiter t), next_waiter := next_waiter s + 1\<rparr>)"

definition await_resume :: "bool \<Rightarrow> addr option \<Rightarrow> sem \<Rightarrow> unit result" where
  "await_resume canceled waiter s =
     (if (case waiter of None \<Rightarrow> False | Some w \<Rightarrow> granted (heap s w)) then Inr ()
      else if canceled then Inl (SignalException ''corouv async semaphore acquire canceled'')
      else if waiter \<noteq> None then Inl (RuntimeError ''corouv::AsyncSemaphore acquire failed'')
      else Inr ())"

text \<open>The stores of the destructor before and after it marks the waiter done.\<close>

definition abandon_waiter :: "addr \<Rightarrow> sem \<Rightarrow> sem" where
  "abandon_waiter w s = upd_waiter w (\<lambda>x. x\<lparr>abandoned := True, continuation := None\<rparr>) s"

definition destroy_awaiter :: "addr \<Rightarrow> sem \<Rightarrow> sem" where
  "destroy_awaiter w s = remove_waiter w (upd_waiter w (\<lambda>x. x\<lparr>is_done := True\<rparr>) (abandon_waiter w s))"

section \<open>Running the operations concurrently\<close>

text \<open>
  Where a task is in its call of acquire.  Resuming seen waiter is the moment
  before await_resume: seen says that await_ready already saw the slot
  canceled.  Holding is the return of acquire, Threw an exception from it.
\<close>

datatype pc =
    Idle
  | Suspending
  | Enqueueing addr
  | Suspended addr
  | Resuming bool "addr option"
  | Holding
  | Threw exn
  | Destroying addr
  | Destroyed

text \<open>
  The state of a run: the semaphore, the tasks, the waiters whose
  resume_after_marked_done is still due (to_wake) or whose remove_waiter is
  (to_remove), and the waiters whose cancellation handler is in a slot
  (handlers).  homes, stock and lost are only observed: the task of a waiter,
  the initial permits with those added by release and without those taken
  away for good, and the permits taken by a task that then threw or was
  destroyed.  The record takes the state of the primitive as a parameter,
  since the mutex is run the same way.
\<close>

record 'm lock_sys =
  sm :: 'm
  pcs :: "task \<Rightarrow> pc"
  ntasks :: nat
  to_wake :: "addr list"
  to_remove :: "addr list"
  handlers :: "addr list"
  homes :: "addr \<Rightarrow> task"
  stock :: nat
  lost :: nat

type_synonym sem_sys = "sem lock_sys"

fun owned :: "sem \<Rightarrow> pc \<Rightarrow> nat" where
  "owned s (Enqueueing w) = of_bool (granted (heap s w))"
| "owned s (Suspended w) = of_bool (granted (heap s w))"
| "owned s (Destroying w) = of_bool (granted (heap s w))"
| "owned s (Resuming seen (Some w)) = of_bool (granted (heap s w))"
| "owned s (Resuming seen None) = of_bool (\<not> seen)"
| "owned s Holding = 1"
| "owned s _ = 0"

definition set_pc :: "task \<Rightarrow> pc \<Rightarrow> 'm lock_sys \<Rightarrow> 'm lock_sys" where
  "set_pc t p \<sigma> = \<sigma>\<lparr>pcs := (pcs \<sigma>)(t := p)\<rparr>"

definition sem_init :: "sem_sys \<Rightarrow> bool" where
  "sem_init \<sigma> \<longleftrightarrow> sm \<sigma> = semaphore (stock \<sigma>) \<and> pcs \<sigma> = (\<lambda>_. Idle) \<and> to_wake \<sigma> = [] \<and>
     to_remove \<sigma> = [] \<and> handlers \<sigma> = [] \<and> lost \<sigma> = 0"

text \<open>
  The steps.  A task that holds a permit gives it back (give_back) or leaves
  with it (take_away), as the queue does, where another task releases it;
  add is a release by any caller, try_take a call of try_acquire.  The answers of the slot are free, but a slot once seen canceled
  stays canceled (resume_throws, resume_returns).  cancel_on_executor runs as
  a job of the executor that also runs the coroutine, so it never runs between
  the emplacement of the handler and enqueue_waiter (cancel_mark).  A frame is
  destroyed only while its resumption is not scheduled (destroy_begin).
\<close>

inductive sem_step :: "sem_sys \<Rightarrow> sem_sys \<Rightarrow> bool" where
  ready: "\<lbrakk>t < ntasks \<sigma>; pcs \<sigma> t = Idle; await_ready canceled (sm \<sigma>) = (rd, s)\<rbrakk> \<Longrightarrow>
    sem_step \<sigma> (set_pc t (if rd then Resuming canceled None else Suspending) (\<sigma>\<lparr>sm := s\<rparr>))"
| emplace: "\<lbrakk>t < ntasks \<sigma>; pcs \<sigma> t = Suspending; make_waiter t (sm \<sigma>) = (w, s)\<rbrakk> \<Longrightarrow>
    sem_step \<sigma> (set_pc t (Enqueueing w)
      (\<sigma>\<lparr>sm := s, homes := (homes \<sigma>)(w := t), handlers := w # handlers \<sigma>\<rparr>))"
| emplace_refused: "\<lbrakk>t < ntasks \<sigma>; pcs \<sigma> t = Suspending; make_waiter t (sm \<sigma>) = (w, s)\<rbrakk> \<Longrightarrow>
    sem_step \<sigma> (set_pc t (Resuming False (Some w)) (\<sigma>\<lparr>sm := s, homes := (homes \<sigma>)(w := t)\<rparr>))"
| enqueue: "\<lbrakk>t < ntasks \<sigma>; pcs \<sigma> t = Enqueueing w; enqueue_waiter w (sm \<sigma>) = (sus, s)\<rbrakk> \<Longrightarrow>
    sem_step \<sigma> (set_pc t (if sus then Suspended w else Resuming False (Some w)) (\<sigma>\<lparr>sm := s\<rparr>))"
| run: "\<lbrakk>t \<in> set (resumed (sm \<sigma>)); pcs \<sigma> t = Suspended w\<rbrakk> \<Longrightarrow>
    sem_step \<sigma> (set_pc t (Resuming False (Some w))
      (\<sigma>\<lparr>sm := (sm \<sigma>)\<lparr>resumed := remove1 t (resumed (sm \<sigma>))\<rparr>\<rparr>))"
| resume_returns: "\<lbrakk>t < ntasks \<sigma>; pcs \<sigma> t = Resuming seen waiter; seen \<longrightarrow> canceled;
     await_resume canceled waiter (sm \<sigma>) = Inr ()\<rbrakk> \<Longrightarrow> sem_step \<sigma> (set_pc t Holding \<sigma>)"
| resume_throws: "\<lbrakk>t < ntasks \<sigma>; pcs \<sigma> t = Resuming seen waiter; seen \<longrightarrow> canceled;
     await_resume canceled waiter (sm \<sigma>) = Inl e\<rbrakk> \<Longrightarrow>
    sem_step \<sigma> (set_pc t (Threw e) (\<sigma>\<lparr>lost := lost \<sigma> + owned (sm \<sigma>) (Resuming seen waiter)\<rparr>))"
| give_back: "\<lbrakk>t < ntasks \<sigma>; pcs \<sigma> t = Holding; release_locked 1 (sm \<sigma>) = (Inr ws, s)\<rbrakk> \<Longrightarrow>
    sem_step \<sigma> (set_pc t Idle (\<sigma>\<lparr>sm := s, to_wake := to_wake \<sigma> @ ws\<rparr>))"
| add: "\<lbrakk>0 < n; release_locked n (sm \<sigma>) = (Inr ws, s)\<rbrakk> \<Longrightarrow>
    sem_step \<sigma> (\<sigma>\<lparr>sm := s, to_wake := to_wake \<sigma> @ ws, stock := stock \<sigma> + n\<rparr>)"
| take_away: "\<lbrakk>t < ntasks \<sigma>; pcs \<sigma> t = Holding\<rbrakk> \<Longrightarrow>
    sem_step \<sigma> (set_pc t Idle (\<sigma>\<lparr>stock := stock \<sigma> - 1\<rparr>))"
| try_take: "try_acquire (sm \<sigma>) = (ok, s) \<Longrightarrow> sem_step \<sigma> (\<sigma>\<lparr>sm := s, stock := stock \<sigma> - of_bool ok\<rparr>)"
| wake: "w \<in> set (to_wake \<sigma>) \<Longrightarrow>
    sem_step \<sigma> (\<sigma>\<lparr>sm := resume_after_marked_done w (sm \<sigma>), to_wake := remove1 w (to_wake \<sigma>)\<rparr>)"
| cancel: "w \<in> set (handlers \<sigma>) \<Longrightarrow> sem_step \<sigma> (\<sigma>\<lparr>sm := request_cancel w (sm \<sigma>)\<rparr>)"
| cancel_mark: "\<lbrakk>w \<in> set (handlers \<sigma>); cancel_requested (heap (sm \<sigma>) w);
     pcs \<sigma> (homes \<sigma> w) \<noteq> Enqueueing w; try_mark_canceled w (sm \<sigma>) = (True, s)\<rbrakk> \<Longrightarrow>
    sem_step \<sigma> (\<sigma>\<lparr>sm := s, to_remove := w # to_remove \<sigma>\<rparr>)"
| cancel_remove: "w \<in> set (to_remove \<sigma>) \<Longrightarrow>
    sem_step \<sigma> (\<sigma>\<lparr>sm := remove_waiter w (sm \<sigma>), to_remove := remove1 w (to_remove \<sigma>),
      to_wake := to_wake \<sigma> @ [w]\<rparr>)"
| destroy_begin: "\<lbrakk>t < ntasks \<sigma>; pcs \<sigma> t = Suspended w; t \<notin> set (resumed (sm \<sigma>))\<rbrakk> \<Longrightarrow>
    sem_step \<sigma> (set_pc t (Destroying w) (\<sigma>\<lparr>sm := abandon_waiter w (sm \<sigma>)\<rparr>))"
| destroy_end: "\<lbrakk>t < ntasks \<sigma>; pcs \<sigma> t = Destroying w\<rbrakk> \<Longrightarrow>
    sem_step \<sigma> (set_pc t Destroyed (\<sigma>\<lparr>sm := destroy_awaiter w (sm \<sigma>),
      lost := lost \<sigma> + owned (sm \<sigma>) (Destroying w)\<rparr>))"

section \<open>What a release grants\<close>

definition live :: "sem \<Rightarrow> addr list" where
  "live s = filter (\<lambda>w. \<not> is_done (heap s w)) (waiters s)"

definition grant_all :: "addr list \<Rightarrow> (addr \<Rightarrow> Waiter) \<Rightarrow> addr \<Rightarrow> Waiter" where
  "grant_all ws h w = (if w \<in> set ws then (h w)\<lparr>is_done := True, granted := True\<rparr> else h w)"

lemma grant_loop_compact:
  assumes "distinct (waiters s)" "\<forall>w\<in>set (waiters s). \<not> is_done (heap s w)"
  shows "grant_loop s = (take (permits s) (waiters s),
    s\<lparr>permits := permits s - length (waiters s), waiters := drop (permits s) (waiters s),
      heap := grant_all (take (permits s) (waiters s)) (heap s)\<rparr>)"
  using assms
proof (induction "waiters s" arbitrary: s)
  case Nil
  then show ?case by (subst grant_loop.simps) (simp add: grant_all_def[abs_def])
next
  case (Cons w ws)
  note ws = Cons.hyps(2)[symmetric]
  let ?s1 = "upd_waiter w (\<lambda>x. x\<lparr>is_done := True, granted := True\<rparr>) (s\<lparr>waiters := ws\<rparr>)"
  show ?case
  proof (cases "permits s")
    case 0
    then show ?thesis by (subst grant_loop.simps) (simp add: grant_all_def[abs_def])
  next
    case (Suc n)
    have m: "try_mark_granted w (s\<lparr>waiters := ws\<rparr>) = (True, ?s1)"
      using Cons.prems(2) ws by (simp add: try_mark_granted_def)
    have l: "\<forall>x\<in>set ws. \<not> is_done (heap ?s1 x)"
      using Cons.prems ws by (auto simp: upd_waiter_def)
    have "grant_loop (?s1\<lparr>permits := n\<rparr>) = (take n ws,
      ?s1\<lparr>permits := n - length ws, waiters := drop n ws, heap := grant_all (take n ws) (heap ?s1)\<rparr>)"
      using Cons.hyps(1)[of "?s1\<lparr>permits := n\<rparr>"] l Cons.prems(1) ws by (simp add: upd_waiter_def)
    moreover have "grant_all (take n ws) (heap ?s1) = grant_all (take (permits s) (waiters s)) (heap s)"
      using Cons.prems(1) ws Suc by (auto simp: fun_eq_iff grant_all_def upd_waiter_def dest: in_set_takeD)
    ultimately show ?thesis
      using ws Suc m by (subst grant_loop.simps) (simp add: upd_waiter_def)
  qed
qed

lemma release_locked_grants:
  assumes "distinct (waiters s)" "n \<le> size_max - permits s"
  shows "release_locked n s = (Inr (take (permits s + n) (live s)),
    s\<lparr>permits := permits s + n - length (live s), waiters := drop (permits s + n) (live s),
      heap := grant_all (take (permits s + n) (live s)) (heap s)\<rparr>)"
proof -
  let ?s = "compact_waiters_locked (s\<lparr>permits := permits s + n\<rparr>)"
  have "grant_loop ?s = (take (permits ?s) (waiters ?s),
    ?s\<lparr>permits := permits ?s - length (waiters ?s), waiters := drop (permits ?s) (waiters ?s),
      heap := grant_all (take (permits ?s) (waiters ?s)) (heap ?s)\<rparr>)"
    using assms(1) by (intro grant_loop_compact) (auto simp: compact_waiters_locked_def)
  then show ?thesis using assms(2)
    by (simp add: release_locked_def compact_waiters_locked_def live_def)
qed


section \<open>The invariant\<close>

fun waiter_of :: "pc \<Rightarrow> addr option" where
  "waiter_of (Enqueueing w) = Some w"
| "waiter_of (Suspended w) = Some w"
| "waiter_of (Destroying w) = Some w"
| "waiter_of (Resuming seen waiter) = waiter"
| "waiter_of _ = None"

text \<open>
  Waiters belong to one task each; a waiter not yet done is held by a task in
  its await_suspend or suspended; a suspended task is queued, about to be
  woken or already handed to the executor; and no live waiter is queued while
  a permit is free.
\<close>

definition tasks_ok :: "sem_sys \<Rightarrow> bool" where
  "tasks_ok \<sigma> \<longleftrightarrow> (\<forall>t. pcs \<sigma> t \<noteq> Idle \<longrightarrow> t < ntasks \<sigma>)"

definition addrs_ok :: "sem_sys \<Rightarrow> bool" where
  "addrs_ok \<sigma> \<longleftrightarrow> (\<forall>w\<in>set (handlers \<sigma>) \<union> set (to_wake \<sigma>) \<union> set (to_remove \<sigma>). w < next_waiter (sm \<sigma>)) \<and>
     set (waiters (sm \<sigma>)) \<subseteq> set (handlers \<sigma>) \<and> distinct (waiters (sm \<sigma>))"

definition homes_ok :: "sem_sys \<Rightarrow> bool" where
  "homes_ok \<sigma> \<longleftrightarrow>
     (\<forall>t w. waiter_of (pcs \<sigma> t) = Some w \<longrightarrow> w < next_waiter (sm \<sigma>) \<and> homes \<sigma> w = t)"

definition granted_ok :: "sem_sys \<Rightarrow> bool" where
  "granted_ok \<sigma> \<longleftrightarrow>
     (\<forall>w<next_waiter (sm \<sigma>). granted (heap (sm \<sigma>) w) \<longrightarrow> is_done (heap (sm \<sigma>) w))"

definition live_ok :: "sem_sys \<Rightarrow> bool" where
  "live_ok \<sigma> \<longleftrightarrow> (\<forall>w\<in>set (handlers \<sigma>). \<not> is_done (heap (sm \<sigma>) w) \<longrightarrow>
     pcs \<sigma> (homes \<sigma> w) \<in> {Enqueueing w, Suspended w, Destroying w})"

definition enqueueing_ok :: "sem_sys \<Rightarrow> bool" where
  "enqueueing_ok \<sigma> \<longleftrightarrow> (\<forall>t w. pcs \<sigma> t = Enqueueing w \<longrightarrow>
     w \<in> set (handlers \<sigma>) \<and> w \<notin> set (waiters (sm \<sigma>)) \<and> \<not> is_done (heap (sm \<sigma>) w) \<and>
     \<not> abandoned (heap (sm \<sigma>) w) \<and> continuation (heap (sm \<sigma>) w) = Some t)"

definition destroying_ok :: "sem_sys \<Rightarrow> bool" where
  "destroying_ok \<sigma> \<longleftrightarrow> (\<forall>t w. pcs \<sigma> t = Destroying w \<longrightarrow> continuation (heap (sm \<sigma>) w) = None)"

definition suspended_ok :: "sem_sys \<Rightarrow> bool" where
  "suspended_ok \<sigma> \<longleftrightarrow> (\<forall>t w. pcs \<sigma> t = Suspended w \<longrightarrow>
     w \<in> set (handlers \<sigma>) \<and> \<not> abandoned (heap (sm \<sigma>) w) \<and>
     (if is_done (heap (sm \<sigma>) w)
      then if t \<in> set (resumed (sm \<sigma>)) then continuation (heap (sm \<sigma>) w) = None
           else continuation (heap (sm \<sigma>) w) = Some t \<and> w \<in> set (to_wake \<sigma>) \<union> set (to_remove \<sigma>)
      else continuation (heap (sm \<sigma>) w) = Some t \<and> w \<in> set (waiters (sm \<sigma>))))"

definition resumed_ok :: "sem_sys \<Rightarrow> bool" where
  "resumed_ok \<sigma> \<longleftrightarrow> distinct (resumed (sm \<sigma>)) \<and>
     (\<forall>t\<in>set (resumed (sm \<sigma>)). \<exists>w. pcs \<sigma> t = Suspended w \<and> is_done (heap (sm \<sigma>) w))"

definition wakeups_ok :: "sem_sys \<Rightarrow> bool" where
  "wakeups_ok \<sigma> \<longleftrightarrow> (\<forall>w\<in>set (to_wake \<sigma>) \<union> set (to_remove \<sigma>). is_done (heap (sm \<sigma>) w) \<and>
     (\<forall>t. continuation (heap (sm \<sigma>) w) = Some t \<longrightarrow> pcs \<sigma> t = Suspended w))"

definition sem_served :: "sem_sys \<Rightarrow> bool" where
  "sem_served \<sigma> \<longleftrightarrow> (0 < permits (sm \<sigma>) \<longrightarrow> live (sm \<sigma>) = [])"

definition sem_balance :: "sem_sys \<Rightarrow> bool" where
  "sem_balance \<sigma> \<longleftrightarrow>
     permits (sm \<sigma>) + (\<Sum>t<ntasks \<sigma>. owned (sm \<sigma>) (pcs \<sigma> t)) + lost \<sigma> = stock \<sigma>"

lemmas sem_op_defs = set_pc_def await_ready_def try_acquire_def compact_waiters_locked_def make_waiter_def
  new_waiter_def enqueue_waiter_def upd_waiter_def resume_after_marked_done_def request_cancel_def
  try_mark_canceled_def remove_waiter_def abandon_waiter_def destroy_awaiter_def

lemma release_locked_Inr:
  assumes "release_locked n s = (Inr ws, s')" "distinct (waiters s)"
  shows "ws = take (permits s + n) (live s)"
    "s' = s\<lparr>permits := permits s + n - length (live s), waiters := drop (permits s + n) (live s),
      heap := grant_all ws (heap s)\<rparr>"
proof -
  have "n \<le> size_max - permits s" using assms(1) by (auto simp: release_locked_def split: if_splits)
  from release_locked_grants[OF assms(2) this] assms(1)
  show "ws = take (permits s + n) (live s)"
    "s' = s\<lparr>permits := permits s + n - length (live s), waiters := drop (permits s + n) (live s),
      heap := grant_all ws (heap s)\<rparr>" by auto
qed

lemma release_locked_facts:
  assumes "release_locked n s = (Inr ws, s')" "distinct (waiters s)"
  shows "set ws \<subseteq> set (waiters s)" "distinct ws" "set (waiters s') \<subseteq> set (waiters s)" "distinct (waiters s')"
    "set ws \<inter> set (waiters s') = {}" "\<forall>w\<in>set ws \<union> set (waiters s'). \<not> is_done (heap s w)"
    "\<forall>w\<in>set (waiters s). \<not> is_done (heap s w) \<longrightarrow> w \<in> set ws \<union> set (waiters s')"
    "next_waiter s' = next_waiter s" "resumed s' = resumed s" "heap s' = grant_all ws (heap s)"
    "permits s' + length ws = permits s + n" "0 < permits s' \<longrightarrow> waiters s' = []"
proof -
  note e = release_locked_Inr[OF assms]
  let ?k = "permits s + n"
  have l: "distinct (live s)" "set (live s) \<subseteq> set (waiters s)" "\<forall>w\<in>set (live s). \<not> is_done (heap s w)"
    using assms(2) by (auto simp: live_def)
  have d: "set (take ?k (live s)) \<inter> set (drop ?k (live s)) = {}"
    "set (take ?k (live s)) \<union> set (drop ?k (live s)) = set (live s)"
    using l(1) set_append[of "take ?k (live s)" "drop ?k (live s)"] set_take_disj_set_drop_if_distinct[OF l(1), of ?k ?k]
    by auto
  show "set ws \<subseteq> set (waiters s)" "set (waiters s') \<subseteq> set (waiters s)"
    using l(2) d(2) by (auto simp: e)
  show "distinct ws" "distinct (waiters s')" using l(1) by (auto simp: e)
  show "set ws \<inter> set (waiters s') = {}" using d(1) by (auto simp: e)
  show "\<forall>w\<in>set ws \<union> set (waiters s'). \<not> is_done (heap s w)" using l(3) d(2) by (auto simp: e)
  show "\<forall>w\<in>set (waiters s). \<not> is_done (heap s w) \<longrightarrow> w \<in> set ws \<union> set (waiters s')"
    using d(2) by (auto simp: e live_def)
  show "next_waiter s' = next_waiter s" "resumed s' = resumed s" "heap s' = grant_all ws (heap s)"
    "permits s' + length ws = permits s + n" "0 < permits s' \<longrightarrow> waiters s' = []"
    by (auto simp: e)
qed

lemma grant_all_simps [simp]:
  "continuation (grant_all ws h w) = continuation (h w)"
  "abandoned (grant_all ws h w) = abandoned (h w)"
  "cancel_requested (grant_all ws h w) = cancel_requested (h w)"
  "is_done (grant_all ws h w) \<longleftrightarrow> is_done (h w) \<or> w \<in> set ws"
  "granted (grant_all ws h w) \<longleftrightarrow> granted (h w) \<or> w \<in> set ws"
  by (auto simp: grant_all_def)

lemma set_pc_simps [simp]:
  "sm (set_pc t p \<sigma>) = sm \<sigma>" "pcs (set_pc t p \<sigma>) = (pcs \<sigma>)(t := p)" "ntasks (set_pc t p \<sigma>) = ntasks \<sigma>"
  "to_wake (set_pc t p \<sigma>) = to_wake \<sigma>" "to_remove (set_pc t p \<sigma>) = to_remove \<sigma>"
  "handlers (set_pc t p \<sigma>) = handlers \<sigma>" "homes (set_pc t p \<sigma>) = homes \<sigma>" "stock (set_pc t p \<sigma>) = stock \<sigma>"
  "lost (set_pc t p \<sigma>) = lost \<sigma>"
  by (simp_all add: set_pc_def)

lemma upd_waiter_simps [simp]:
  "permits (upd_waiter w f s) = permits s" "waiters (upd_waiter w f s) = waiters s"
  "heap (upd_waiter w f s) = (heap s)(w := f (heap s w))" "next_waiter (upd_waiter w f s) = next_waiter s"
  "resumed (upd_waiter w f s) = resumed s"
  by (simp_all add: upd_waiter_def)

lemma compact_simps [simp]:
  "permits (compact_waiters_locked s) = permits s" "waiters (compact_waiters_locked s) = live s"
  "heap (compact_waiters_locked s) = heap s" "next_waiter (compact_waiters_locked s) = next_waiter s"
  "resumed (compact_waiters_locked s) = resumed s"
  by (simp_all add: compact_waiters_locked_def live_def)

lemma remove_waiter_simps [simp]:
  "permits (remove_waiter w s) = permits s" "heap (remove_waiter w s) = heap s"
  "next_waiter (remove_waiter w s) = next_waiter s" "resumed (remove_waiter w s) = resumed s"
  "waiters (remove_waiter w s) = filter (\<lambda>x. x \<noteq> w) (live s)"
  by (auto simp: remove_waiter_def live_def intro: filter_cong)

lemma resume_simps [simp]:
  "permits (resume_after_marked_done w s) = permits s" "waiters (resume_after_marked_done w s) = waiters s"
  "next_waiter (resume_after_marked_done w s) = next_waiter s"
  "is_done (heap (resume_after_marked_done w s) x) = is_done (heap s x)"
  "granted (heap (resume_after_marked_done w s) x) = granted (heap s x)"
  "abandoned (heap (resume_after_marked_done w s) x) = abandoned (heap s x)"
  by (auto simp: resume_after_marked_done_def split: option.splits)

lemma live_subset: "set (live s) \<subseteq> set (waiters s)" "distinct (waiters s) \<Longrightarrow> distinct (live s)"
  by (auto simp: live_def)

lemma await_ready_facts:
  assumes "await_ready canceled s = (rd, s')"
  shows "heap s' = heap s" "next_waiter s' = next_waiter s" "resumed s' = resumed s"
    "waiters s' = (if canceled then waiters s else live s)"
    "permits s = permits s' + of_bool (rd \<and> \<not> canceled)" "canceled \<Longrightarrow> rd"
  using assms by (auto simp: await_ready_def try_acquire_def Let_def split: if_splits)

lemma try_acquire_facts:
  assumes "try_acquire s = (ok, s')"
  shows "heap s' = heap s" "next_waiter s' = next_waiter s" "resumed s' = resumed s" "waiters s' = live s"
    "permits s = permits s' + of_bool ok"
  using assms by (auto simp: try_acquire_def Let_def split: if_splits)

lemma make_waiter_facts:
  assumes "make_waiter t s = (w, s')"
  shows "w = next_waiter s" "next_waiter s' = Suc w" "heap s' = (heap s)(w := new_waiter t)"
    "waiters s' = waiters s" "permits s' = permits s" "resumed s' = resumed s"
  using assms by (auto simp: make_waiter_def)

lemma enqueue_waiter_facts:
  assumes "enqueue_waiter w s = (sus, s')" "\<not> is_done (heap s w)"
  shows "next_waiter s' = next_waiter s" "resumed s' = resumed s" "sus \<longleftrightarrow> permits s = 0"
    "waiters s' = (if sus then live s @ [w] else live s)" "permits s = permits s' + of_bool (\<not> sus)"
    "heap s' = (if sus then heap s else (heap s)(w := (heap s w)\<lparr>is_done := True, granted := True\<rparr>))"
  using assms by (auto simp: enqueue_waiter_def Let_def split: if_splits)

lemma try_mark_canceled_facts:
  assumes "try_mark_canceled w s = (True, s')"
  shows "\<not> is_done (heap s w)" "s' = upd_waiter w (\<lambda>x. x\<lparr>is_done := True\<rparr>) s"
  using assms by (auto simp: try_mark_canceled_def split: if_splits)

lemma sample_new_waiter [simp]:
  "continuation (new_waiter t) = Some t" "\<not> is_done (new_waiter t)" "\<not> granted (new_waiter t)"
  "\<not> abandoned (new_waiter t)"
  by (simp_all add: new_waiter_def)

lemmas sem_step_facts = await_ready_facts make_waiter_facts enqueue_waiter_facts try_mark_canceled_facts

lemma tasks_ok_step:
  assumes "sem_step \<sigma> \<sigma>'" "tasks_ok \<sigma>"
  shows "tasks_ok \<sigma>'"
  using assms by (induction rule: sem_step.induct) (auto simp: tasks_ok_def set_pc_def split: if_splits)

lemma granted_ok_release:
  assumes "release_locked n (sm \<sigma>) = (Inr ws, s)" "addrs_ok \<sigma>" "granted_ok \<sigma>" "sm \<sigma>' = s"
  shows "granted_ok \<sigma>'"
  using release_locked_facts(8,10)[OF assms(1)] assms(2-) by (simp add: granted_ok_def addrs_ok_def)

lemma granted_ok_step:
  assumes "sem_step \<sigma> \<sigma>'" "granted_ok \<sigma>" "addrs_ok \<sigma>" "enqueueing_ok \<sigma>"
  shows "granted_ok \<sigma>'"
  using assms
proof (induction rule: sem_step.induct)
  case (ready t \<sigma> canceled rd s)
  then show ?case by (simp add: granted_ok_def await_ready_facts[OF ready(3)])
next
  case (emplace t \<sigma> w s)
  then show ?case by (simp add: granted_ok_def make_waiter_facts[OF emplace(3)] less_Suc_eq)
next
  case (emplace_refused t \<sigma> w s)
  then show ?case by (simp add: granted_ok_def make_waiter_facts[OF emplace_refused(3)] less_Suc_eq)
next
  case (enqueue t \<sigma> w sus s)
  have "\<not> is_done (heap (sm \<sigma>) w)" using enqueue by (simp add: enqueueing_ok_def)
  from enqueue_waiter_facts(1,6)[OF enqueue(3) this] enqueue(4) show ?case by (simp add: granted_ok_def)
next
  case (give_back t \<sigma> ws s)
  then show ?case by - (rule granted_ok_release[OF give_back(3)]; simp_all)
next
  case (add n \<sigma> ws s)
  then show ?case by - (rule granted_ok_release[OF add(2)]; simp_all)
next
  case (try_take \<sigma> ok s)
  then show ?case by (simp add: granted_ok_def try_acquire_facts[OF try_take(1)])
next
  case (cancel_mark w \<sigma> s)
  then show ?case by (simp add: granted_ok_def try_mark_canceled_facts[OF cancel_mark(4)])
qed (simp_all add: granted_ok_def request_cancel_def abandon_waiter_def destroy_awaiter_def)

lemma addrs_ok_release:
  assumes "release_locked n (sm \<sigma>) = (Inr ws, s)" "addrs_ok \<sigma>"
    "sm \<sigma>' = s" "to_wake \<sigma>' = to_wake \<sigma> @ ws" "to_remove \<sigma>' = to_remove \<sigma>" "handlers \<sigma>' = handlers \<sigma>"
  shows "addrs_ok \<sigma>'"
proof -
  have "distinct (waiters (sm \<sigma>))" using assms(2) by (simp add: addrs_ok_def)
  from release_locked_facts(1,3,4,8)[OF assms(1) this] assms(2-) show ?thesis
    unfolding addrs_ok_def by auto
qed

lemma addrs_ok_step:
  assumes "sem_step \<sigma> \<sigma>'" "addrs_ok \<sigma>" "enqueueing_ok \<sigma>"
  shows "addrs_ok \<sigma>'"
  using assms
proof (induction rule: sem_step.induct)
  case (ready t \<sigma> canceled rd s)
  then show ?case using live_subset[of "sm \<sigma>"]
    by (auto simp: addrs_ok_def await_ready_facts[OF ready(3)])
next
  case (emplace t \<sigma> w s)
  then show ?case by (auto simp: addrs_ok_def make_waiter_facts[OF emplace(3)] less_Suc_eq)
next
  case (emplace_refused t \<sigma> w s)
  then show ?case by (auto simp: addrs_ok_def make_waiter_facts[OF emplace_refused(3)] less_Suc_eq)
next
  case (enqueue t \<sigma> w sus s)
  have "\<not> is_done (heap (sm \<sigma>) w)" "w \<in> set (handlers \<sigma>)" "w \<notin> set (waiters (sm \<sigma>))"
    using enqueue by (simp_all add: enqueueing_ok_def)
  then show ?case using enqueue_waiter_facts(1,4)[OF enqueue(3)] enqueue(4) live_subset[of "sm \<sigma>"]
    by (auto simp: addrs_ok_def)
next
  case (give_back t \<sigma> ws s)
  then show ?case by - (rule addrs_ok_release[OF give_back(3,4)]; simp_all)
next
  case (add n \<sigma> ws s)
  then show ?case by - (rule addrs_ok_release[OF add(2,3)]; simp_all)
next
  case (try_take \<sigma> ok s)
  then show ?case using live_subset[of "sm \<sigma>"] by (auto simp: addrs_ok_def try_acquire_facts[OF try_take(1)])
next
  case (cancel_mark w \<sigma> s)
  then show ?case by (auto simp: addrs_ok_def try_mark_canceled_facts[OF cancel_mark(4)])
qed (auto simp: addrs_ok_def request_cancel_def abandon_waiter_def destroy_awaiter_def live_def
       dest: set_remove1_subset[THEN subsetD])

lemma homes_okD:
  "homes_ok \<sigma> \<Longrightarrow> waiter_of (pcs \<sigma> t) = Some w \<Longrightarrow> w < next_waiter (sm \<sigma>) \<and> homes \<sigma> w = t"
  by (simp add: homes_ok_def)

lemma homes_okI:
  "(\<And>t w. waiter_of (pcs \<sigma> t) = Some w \<Longrightarrow> w < next_waiter (sm \<sigma>) \<and> homes \<sigma> w = t) \<Longrightarrow> homes_ok \<sigma>"
  by (simp add: homes_ok_def)

lemma homes_ok_keep:
  assumes "homes_ok \<sigma>" "homes \<sigma>' = homes \<sigma>" "next_waiter (sm \<sigma>') = next_waiter (sm \<sigma>)"
    "\<And>t w. waiter_of (pcs \<sigma>' t) = Some w \<Longrightarrow> waiter_of (pcs \<sigma> t) = Some w"
  shows "homes_ok \<sigma>'"
  by (rule homes_okI, drule assms(4), drule homes_okD[OF assms(1)]) (simp add: assms(2,3))

lemma homes_ok_new:
  assumes "homes_ok \<sigma>" "make_waiter t (sm \<sigma>) = (w, s)" "waiter_of p = Some w"
  shows "homes_ok (set_pc t p (\<sigma>\<lparr>sm := s, homes := (homes \<sigma>)(w := t), handlers := hs\<rparr>))"
proof (rule homes_okI)
  note w = make_waiter_facts(1,2)[OF assms(2)]
  fix t' w'
  assume a: "waiter_of (pcs (set_pc t p (\<sigma>\<lparr>sm := s, homes := (homes \<sigma>)(w := t), handlers := hs\<rparr>)) t') = Some w'"
  show "w' < next_waiter (sm (set_pc t p (\<sigma>\<lparr>sm := s, homes := (homes \<sigma>)(w := t), handlers := hs\<rparr>))) \<and>
    homes (set_pc t p (\<sigma>\<lparr>sm := s, homes := (homes \<sigma>)(w := t), handlers := hs\<rparr>)) w' = t'"
  proof (cases "t' = t")
    case True
    with a assms(3) w show ?thesis by simp
  next
    case False
    with a have "waiter_of (pcs \<sigma> t') = Some w'" by simp
    from homes_okD[OF assms(1) this] w show ?thesis by simp
  qed
qed

lemma homes_ok_step:
  assumes "sem_step \<sigma> \<sigma>'" "homes_ok \<sigma>" "addrs_ok \<sigma>" "enqueueing_ok \<sigma>"
  shows "homes_ok \<sigma>'"
  using assms
proof (induction rule: sem_step.induct)
  case (ready t \<sigma> canceled rd s)
  then show ?case by - (rule homes_ok_keep[OF ready(4)]; auto simp: await_ready_facts[OF ready(3)] split: if_splits)
next
  case (enqueue t \<sigma> w sus s)
  have "\<not> is_done (heap (sm \<sigma>) w)" using enqueue by (simp add: enqueueing_ok_def)
  with enqueue show ?case
    by - (rule homes_ok_keep[OF enqueue(4)]; auto simp: enqueue_waiter_facts(1)[OF enqueue(3)] split: if_splits)
next
  case (give_back t \<sigma> ws s)
  have "next_waiter s = next_waiter (sm \<sigma>)"
    using release_locked_facts(8)[OF give_back(3)] give_back(5) by (simp add: addrs_ok_def)
  then show ?case by - (rule homes_ok_keep[OF give_back(4)]; auto split: if_splits)
next
  case (add n \<sigma> ws s)
  have "next_waiter s = next_waiter (sm \<sigma>)"
    using release_locked_facts(8)[OF add(2)] add(4) by (simp add: addrs_ok_def)
  then show ?case by - (rule homes_ok_keep[OF add(3)]; auto)
next
  case (emplace t \<sigma> w s)
  then show ?case by - (rule homes_ok_new; auto)
next
  case (emplace_refused t \<sigma> w s)
  then show ?case using homes_ok_new[of \<sigma> t w s "Resuming False (Some w)" "handlers \<sigma>"] by simp
next
  case (try_take \<sigma> ok s)
  then show ?case by - (rule homes_ok_keep[OF try_take(2)]; auto simp: try_acquire_facts[OF try_take(1)])
next
  case (cancel_mark w \<sigma> s)
  then show ?case by - (rule homes_ok_keep[OF cancel_mark(5)]; auto simp: try_mark_canceled_facts[OF cancel_mark(4)])
qed (erule homes_ok_keep; auto simp: request_cancel_def abandon_waiter_def destroy_awaiter_def split: if_splits)+

lemma resume_other:
  "x \<noteq> w \<Longrightarrow> heap (resume_after_marked_done w s) x = heap s x"
  by (simp add: resume_after_marked_done_def split: option.splits)

lemma live_ok_step:
  assumes "sem_step \<sigma> \<sigma>'" "live_ok \<sigma>" "addrs_ok \<sigma>" "enqueueing_ok \<sigma>" "resumed_ok \<sigma>"
  shows "live_ok \<sigma>'"
  using assms
proof (induction rule: sem_step.induct)
  case (ready t \<sigma> canceled rd s)
  then show ?case by (auto simp: live_ok_def await_ready_facts(1)[OF ready(3)])
next
  case (emplace t \<sigma> w s)
  then show ?case by (auto simp: live_ok_def make_waiter_facts(1,3)[OF emplace(3)] addrs_ok_def)
next
  case (emplace_refused t \<sigma> w s)
  then show ?case by (auto simp: live_ok_def make_waiter_facts(1,3)[OF emplace_refused(3)] addrs_ok_def)
next
  case (enqueue t \<sigma> w sus s)
  have "\<not> is_done (heap (sm \<sigma>) w)" using enqueue by (simp add: enqueueing_ok_def)
  with enqueue show ?case by (auto simp: live_ok_def enqueue_waiter_facts(6)[OF enqueue(3)] split: if_splits)
next
  case (run t \<sigma> w)
  have "is_done (heap (sm \<sigma>) w)" using run(1,2,6) by (auto simp: resumed_ok_def)
  with run show ?case by (auto simp: live_ok_def)
next
  case (give_back t \<sigma> ws s)
  have "heap s = grant_all ws (heap (sm \<sigma>))"
    using release_locked_facts(10)[OF give_back(3)] give_back(5) by (simp add: addrs_ok_def)
  with give_back show ?case by (auto simp: live_ok_def)
next
  case (add n \<sigma> ws s)
  have "heap s = grant_all ws (heap (sm \<sigma>))"
    using release_locked_facts(10)[OF add(2)] add(4) by (simp add: addrs_ok_def)
  with add show ?case by (auto simp: live_ok_def)
next
  case (try_take \<sigma> ok s)
  then show ?case by (simp add: live_ok_def try_acquire_facts[OF try_take(1)])
next
  case (cancel_mark w \<sigma> s)
  then show ?case by (auto simp: live_ok_def try_mark_canceled_facts[OF cancel_mark(4)])
qed (auto simp: live_ok_def request_cancel_def abandon_waiter_def destroy_awaiter_def)

lemma enqueueing_ok_step:
  assumes "sem_step \<sigma> \<sigma>'" "enqueueing_ok \<sigma>" "addrs_ok \<sigma>" "homes_ok \<sigma>" "wakeups_ok \<sigma>"
  shows "enqueueing_ok \<sigma>'"
  using assms
proof (induction rule: sem_step.induct)
  case (ready t \<sigma> canceled rd s)
  then show ?case by (auto simp: enqueueing_ok_def await_ready_facts[OF ready(3)] live_def split: if_splits)
next
  case (emplace t \<sigma> w s)
  then show ?case
    by (auto simp: enqueueing_ok_def make_waiter_facts(1,3,4)[OF emplace(3)] addrs_ok_def)
next
  case (emplace_refused t \<sigma> w s)
  then show ?case
    by (auto simp: enqueueing_ok_def make_waiter_facts(1,3,4)[OF emplace_refused(3)] addrs_ok_def)
next
  case (enqueue t \<sigma> w sus s)
  have u: "w' \<noteq> w" if "pcs \<sigma> t' = Enqueueing w'" "t' \<noteq> t" for t' w'
    using homes_okD[OF enqueue(6), of t w] homes_okD[OF enqueue(6), of t' w'] enqueue(2) that by auto
  have e: "\<not> is_done (heap (sm \<sigma>) w)" using enqueue(2,4) by (simp add: enqueueing_ok_def)
  note f = enqueue_waiter_facts(4,6)[OF enqueue(3) e]
  show ?case
    using enqueue(4) u by (cases sus) (simp_all add: enqueueing_ok_def f live_def)
next
  case (give_back t \<sigma> ws s)
  have "distinct (waiters (sm \<sigma>))" using give_back(5) by (simp add: addrs_ok_def)
  from release_locked_facts(1,3,10)[OF give_back(3) this] give_back show ?case
    by (auto simp: enqueueing_ok_def)
next
  case (add n \<sigma> ws s)
  have "distinct (waiters (sm \<sigma>))" using add(4) by (simp add: addrs_ok_def)
  from release_locked_facts(1,3,10)[OF add(2) this] add show ?case
    by (auto simp: enqueueing_ok_def)
next
  case (wake w \<sigma>)
  then have "w' \<noteq> w" if "pcs \<sigma> t = Enqueueing w'" for t w'
    using that by (auto simp: enqueueing_ok_def wakeups_ok_def)
  with wake(2) show ?case by (auto simp: enqueueing_ok_def resume_other)
next
  case (try_take \<sigma> ok s)
  then show ?case by (simp add: enqueueing_ok_def try_acquire_facts[OF try_take(1)] live_def)
next
  case (cancel_mark w \<sigma> s)
  have "pcs \<sigma> t = Enqueueing w' \<Longrightarrow> w' \<noteq> w" for t w'
    using homes_okD[OF cancel_mark(7), of t w'] cancel_mark(3) by auto
  with cancel_mark show ?case by (auto simp: enqueueing_ok_def try_mark_canceled_facts[OF cancel_mark(4)])
next
  case (destroy_begin t \<sigma> w)
  have "pcs \<sigma> t' = Enqueueing w' \<Longrightarrow> w' \<noteq> w" for t' w'
    using homes_okD[OF destroy_begin(6), of t' w'] homes_okD[OF destroy_begin(6), of t w] destroy_begin(2) by auto
  with destroy_begin show ?case by (auto simp: enqueueing_ok_def abandon_waiter_def)
next
  case (destroy_end t \<sigma> w)
  have "pcs \<sigma> t' = Enqueueing w' \<Longrightarrow> w' \<noteq> w" for t' w'
    using homes_okD[OF destroy_end(5), of t' w'] homes_okD[OF destroy_end(5), of t w] destroy_end(2) by auto
  with destroy_end show ?case by (auto simp: enqueueing_ok_def abandon_waiter_def destroy_awaiter_def live_def)
qed (auto simp: enqueueing_ok_def request_cancel_def live_def)

lemma destroying_ok_step:
  assumes "sem_step \<sigma> \<sigma>'" "destroying_ok \<sigma>" "addrs_ok \<sigma>" "homes_ok \<sigma>" "enqueueing_ok \<sigma>"
  shows "destroying_ok \<sigma>'"
  using assms
proof (induction rule: sem_step.induct)
  case (ready t \<sigma> canceled rd s)
  then show ?case by (simp add: destroying_ok_def await_ready_facts(1)[OF ready(3)])
next
  case (emplace t \<sigma> w s)
  then have "w' \<noteq> w" if "pcs \<sigma> t' = Destroying w'" for t' w'
    using homes_okD[OF emplace(6), of t' w'] that make_waiter_facts(1)[OF emplace(3)] by auto
  with emplace(4) show ?case by (simp add: destroying_ok_def make_waiter_facts(3)[OF emplace(3)])
next
  case (emplace_refused t \<sigma> w s)
  then have "w' \<noteq> w" if "pcs \<sigma> t' = Destroying w'" for t' w'
    using homes_okD[OF emplace_refused(6), of t' w'] that make_waiter_facts(1)[OF emplace_refused(3)] by auto
  with emplace_refused(4) show ?case by (simp add: destroying_ok_def make_waiter_facts(3)[OF emplace_refused(3)])
next
  case (enqueue t \<sigma> w sus s)
  have "\<not> is_done (heap (sm \<sigma>) w)" using enqueue(2,7) by (simp add: enqueueing_ok_def)
  note f = enqueue_waiter_facts(6)[OF enqueue(3) this]
  show ?case using enqueue(4) by (cases sus) (auto simp: destroying_ok_def f)
next
  case (give_back t \<sigma> ws s)
  have "distinct (waiters (sm \<sigma>))" using give_back(5) by (simp add: addrs_ok_def)
  from release_locked_facts(10)[OF give_back(3) this] give_back(4) show ?case by (simp add: destroying_ok_def)
next
  case (add n \<sigma> ws s)
  have "distinct (waiters (sm \<sigma>))" using add(4) by (simp add: addrs_ok_def)
  from release_locked_facts(10)[OF add(2) this] add(3) show ?case by (simp add: destroying_ok_def)
next
  case (wake w \<sigma>)
  then show ?case by (auto simp: destroying_ok_def resume_after_marked_done_def split: option.splits)
next
  case (try_take \<sigma> ok s)
  then show ?case by (simp add: destroying_ok_def try_acquire_facts[OF try_take(1)])
next
  case (cancel_mark w \<sigma> s)
  then show ?case by (simp add: destroying_ok_def try_mark_canceled_facts[OF cancel_mark(4)])
qed (auto simp: destroying_ok_def request_cancel_def abandon_waiter_def destroy_awaiter_def)

text \<open>A queued waiter that still holds a handle belongs to the suspended task of that handle.\<close>

lemma live_suspended:
  assumes "live_ok \<sigma>" "destroying_ok \<sigma>" "suspended_ok \<sigma>"
    "w \<in> set (handlers \<sigma>)" "\<not> is_done (heap (sm \<sigma>) w)" "pcs \<sigma> (homes \<sigma> w) \<noteq> Enqueueing w"
    "continuation (heap (sm \<sigma>) w) = Some t"
  shows "pcs \<sigma> t = Suspended w"
proof -
  have "pcs \<sigma> (homes \<sigma> w) = Suspended w \<or> pcs \<sigma> (homes \<sigma> w) = Destroying w"
    using assms(1,4,5,6) by (auto simp: live_ok_def)
  then have p: "pcs \<sigma> (homes \<sigma> w) = Suspended w" using assms(2,7) by (auto simp: destroying_ok_def)
  then have "continuation (heap (sm \<sigma>) w) = Some (homes \<sigma> w)"
    using assms(3,5) by (simp add: suspended_ok_def)
  with assms(7) p show ?thesis by simp
qed

lemma wakeups_ok_release:
  assumes "release_locked n (sm \<sigma>) = (Inr ws, s)" "addrs_ok \<sigma>" "wakeups_ok \<sigma>" "live_ok \<sigma>" "destroying_ok \<sigma>"
    "suspended_ok \<sigma>" "enqueueing_ok \<sigma>"
    "sm \<sigma>' = s" "to_wake \<sigma>' = to_wake \<sigma> @ ws" "to_remove \<sigma>' = to_remove \<sigma>"
    "\<And>t w. pcs \<sigma> t = Suspended w \<Longrightarrow> pcs \<sigma>' t = Suspended w"
  shows "wakeups_ok \<sigma>'"
proof -
  have d: "distinct (waiters (sm \<sigma>))" "set (waiters (sm \<sigma>)) \<subseteq> set (handlers \<sigma>)"
    using assms(2) by (auto simp: addrs_ok_def)
  note f = release_locked_facts(1,6,10)[OF assms(1) d(1)]
  have "pcs \<sigma>' t = Suspended w" if w: "w \<in> set ws" "continuation (heap (sm \<sigma>) w) = Some t" for w t
  proof -
    have "w \<in> set (waiters (sm \<sigma>))" "\<not> is_done (heap (sm \<sigma>) w)" using f w(1) by auto
    then show ?thesis using d(2) assms(7) w(2)
      by (intro assms(11) live_suspended[OF assms(4,5,6)]) (auto simp: enqueueing_ok_def)
  qed
  with assms(3,8-) f(3) show ?thesis by (auto simp: wakeups_ok_def)
qed

lemma suspended_unique:
  assumes "homes_ok \<sigma>" "pcs \<sigma> t = Suspended w" "waiter_of (pcs \<sigma> t') = Some w"
  shows "t' = t"
  using homes_okD[OF assms(1), of t w] homes_okD[OF assms(1), of t' w] assms(2,3) by simp

lemma wakeups_ok_step:
  assumes "sem_step \<sigma> \<sigma>'" "wakeups_ok \<sigma>" "addrs_ok \<sigma>" "homes_ok \<sigma>" "live_ok \<sigma>" "destroying_ok \<sigma>"
    "suspended_ok \<sigma>" "enqueueing_ok \<sigma>"
  shows "wakeups_ok \<sigma>'"
  using assms
proof (induction rule: sem_step.induct)
  case (ready t \<sigma> canceled rd s)
  then show ?case by (fastforce simp: wakeups_ok_def await_ready_facts(1)[OF ready(3)])
next
  case (emplace t \<sigma> w s)
  then show ?case by (fastforce simp: wakeups_ok_def addrs_ok_def make_waiter_facts(1,3)[OF emplace(3)])
next
  case (emplace_refused t \<sigma> w s)
  then show ?case by (fastforce simp: wakeups_ok_def addrs_ok_def make_waiter_facts(1,3)[OF emplace_refused(3)])
next
  case (enqueue t \<sigma> w sus s)
  have "\<not> is_done (heap (sm \<sigma>) w)" using enqueue(2,10) by (simp add: enqueueing_ok_def)
  note f = enqueue_waiter_facts(6)[OF enqueue(3) this]
  show ?case using enqueue(2,4) by (cases sus) (fastforce simp: wakeups_ok_def f)+
next
  case (run t \<sigma> w)
  have "continuation (heap (sm \<sigma>) w') \<noteq> Some t" if w': "w' \<in> set (to_wake \<sigma>) \<union> set (to_remove \<sigma>)" for w'
  proof
    assume c: "continuation (heap (sm \<sigma>) w') = Some t"
    with w' run(2,3) have "w' = w" "is_done (heap (sm \<sigma>) w)" by (auto simp: wakeups_ok_def)
    with c run(1,2,8) show False by (simp add: suspended_ok_def)
  qed
  with run(3) show ?case by (auto simp: wakeups_ok_def)
next
  case (give_back t \<sigma> ws s)
  show ?case
    by (rule wakeups_ok_release[OF give_back(3,5,4,7,8,9,10)]) (use give_back(2) in auto)
next
  case (add n \<sigma> ws s)
  show ?case by (rule wakeups_ok_release[OF add(2,4,3,6,7,8,9)]) auto
next
  case (wake w \<sigma>)
  then show ?case
    by (fastforce simp: wakeups_ok_def resume_after_marked_done_def dest: set_remove1_subset[THEN subsetD] split: option.splits)
next
  case (try_take \<sigma> ok s)
  then show ?case by (simp add: wakeups_ok_def try_acquire_facts[OF try_take(1)])
next
  case (cancel_mark w \<sigma> s)
  note f = try_mark_canceled_facts[OF cancel_mark(4)]
  have "pcs \<sigma> t = Suspended w" if "continuation (heap (sm \<sigma>) w) = Some t" for t
    using cancel_mark f(1) that by (intro live_suspended[of \<sigma> w t]) auto
  with cancel_mark(5) show ?case by (fastforce simp: wakeups_ok_def f(2))
next
  case (cancel_remove w \<sigma>)
  then show ?case by (fastforce simp: wakeups_ok_def dest: set_remove1_subset[THEN subsetD])
next
  case (destroy_begin t \<sigma> w)
  then show ?case by (fastforce simp: wakeups_ok_def abandon_waiter_def)
next
  case (destroy_end t \<sigma> w)
  then show ?case by (fastforce simp: wakeups_ok_def abandon_waiter_def destroy_awaiter_def)
qed (fastforce simp: wakeups_ok_def request_cancel_def)+

lemma resumed_ok_step:
  assumes "sem_step \<sigma> \<sigma>'" "resumed_ok \<sigma>" "addrs_ok \<sigma>" "homes_ok \<sigma>" "suspended_ok \<sigma>" "wakeups_ok \<sigma>" "enqueueing_ok \<sigma>"
  shows "resumed_ok \<sigma>'"
  using assms
proof (induction rule: sem_step.induct)
  case (ready t \<sigma> canceled rd s)
  then show ?case by (fastforce simp: resumed_ok_def await_ready_facts(1,3)[OF ready(3)])
next
  case (emplace t \<sigma> w s)
  have "w' \<noteq> w" if "pcs \<sigma> t' = Suspended w'" for t' w'
    using homes_okD[OF emplace(6), of t' w'] that make_waiter_facts(1)[OF emplace(3)] by auto
  with emplace(2,4) show ?case
    unfolding resumed_ok_def by (fastforce simp: make_waiter_facts(3,6)[OF emplace(3)])
next
  case (emplace_refused t \<sigma> w s)
  have "w' \<noteq> w" if "pcs \<sigma> t' = Suspended w'" for t' w'
    using homes_okD[OF emplace_refused(6), of t' w'] that make_waiter_facts(1)[OF emplace_refused(3)] by auto
  with emplace_refused(2,4) show ?case
    unfolding resumed_ok_def by (fastforce simp: make_waiter_facts(3,6)[OF emplace_refused(3)])
next
  case (enqueue t \<sigma> w sus s)
  have "\<not> is_done (heap (sm \<sigma>) w)" using enqueue(2,9) by (simp add: enqueueing_ok_def)
  note f = enqueue_waiter_facts(2,6)[OF enqueue(3) this]
  show ?case using enqueue(2,4) by (cases sus) (fastforce simp: resumed_ok_def f)+
next
  case (run t \<sigma> w)
  then show ?case by (auto simp: resumed_ok_def)
next
  case (give_back t \<sigma> ws s)
  have "distinct (waiters (sm \<sigma>))" using give_back(5) by (simp add: addrs_ok_def)
  from release_locked_facts(9,10)[OF give_back(3) this] give_back(2,4) show ?case
    by (fastforce simp: resumed_ok_def)
next
  case (add n \<sigma> ws s)
  have "distinct (waiters (sm \<sigma>))" using add(4) by (simp add: addrs_ok_def)
  from release_locked_facts(9,10)[OF add(2) this] add(3) show ?case
    by (fastforce simp: resumed_ok_def)
next
  case (wake w \<sigma>)
  show ?case
  proof (cases "abandoned (heap (sm \<sigma>) w) \<or> continuation (heap (sm \<sigma>) w) = None")
    case True
    with wake(2) show ?thesis by (auto simp: resumed_ok_def resume_after_marked_done_def)
  next
    case False
    then obtain t where t: "continuation (heap (sm \<sigma>) w) = Some t" by auto
    have w: "pcs \<sigma> t = Suspended w" "is_done (heap (sm \<sigma>) w)" using wake(1,6) t by (auto simp: wakeups_ok_def)
    then have "t \<notin> set (resumed (sm \<sigma>))" using wake(5) t by (auto simp: suspended_ok_def)
    with False t w wake(2) show ?thesis
      by (auto simp: resumed_ok_def resume_after_marked_done_def)
  qed
next
  case (try_take \<sigma> ok s)
  then show ?case by (simp add: resumed_ok_def try_acquire_facts[OF try_take(1)])
next
  case (cancel_mark w \<sigma> s)
  then show ?case by (fastforce simp: resumed_ok_def try_mark_canceled_facts[OF cancel_mark(4)])
next
  case (destroy_begin t \<sigma> w)
  then show ?case by (fastforce simp: resumed_ok_def abandon_waiter_def)
next
  case (destroy_end t \<sigma> w)
  then show ?case by (fastforce simp: resumed_ok_def abandon_waiter_def destroy_awaiter_def)
next
  case (cancel w \<sigma>)
  then show ?case by (fastforce simp: resumed_ok_def request_cancel_def)
qed (fastforce simp: resumed_ok_def)+

text \<open>suspended_ok is kept by a step that leaves the waiters of the suspended tasks alone.\<close>

definition same_suspended :: "sem_sys \<Rightarrow> sem_sys \<Rightarrow> task \<Rightarrow> addr \<Rightarrow> bool" where
  "same_suspended \<sigma> \<sigma>' t w \<longleftrightarrow> pcs \<sigma> t = Suspended w \<and> is_done (heap (sm \<sigma>') w) = is_done (heap (sm \<sigma>) w) \<and>
     continuation (heap (sm \<sigma>') w) = continuation (heap (sm \<sigma>) w) \<and>
     abandoned (heap (sm \<sigma>') w) = abandoned (heap (sm \<sigma>) w) \<and>
     (t \<in> set (resumed (sm \<sigma>')) \<longleftrightarrow> t \<in> set (resumed (sm \<sigma>))) \<and>
     (w \<in> set (handlers \<sigma>) \<longrightarrow> w \<in> set (handlers \<sigma>')) \<and>
     (w \<in> set (to_wake \<sigma>) \<union> set (to_remove \<sigma>) \<longrightarrow> w \<in> set (to_wake \<sigma>') \<union> set (to_remove \<sigma>')) \<and>
     (\<not> is_done (heap (sm \<sigma>) w) \<and> w \<in> set (waiters (sm \<sigma>)) \<longrightarrow> w \<in> set (waiters (sm \<sigma>')))"

definition suspended_at :: "sem_sys \<Rightarrow> task \<Rightarrow> addr \<Rightarrow> bool" where
  "suspended_at \<sigma> t w \<longleftrightarrow> w \<in> set (handlers \<sigma>) \<and> \<not> abandoned (heap (sm \<sigma>) w) \<and>
     (if is_done (heap (sm \<sigma>) w)
      then if t \<in> set (resumed (sm \<sigma>)) then continuation (heap (sm \<sigma>) w) = None
           else continuation (heap (sm \<sigma>) w) = Some t \<and> w \<in> set (to_wake \<sigma>) \<union> set (to_remove \<sigma>)
      else continuation (heap (sm \<sigma>) w) = Some t \<and> w \<in> set (waiters (sm \<sigma>)))"

lemma suspended_ok_at: "suspended_ok \<sigma> \<longleftrightarrow> (\<forall>t w. pcs \<sigma> t = Suspended w \<longrightarrow> suspended_at \<sigma> t w)"
  by (simp add: suspended_ok_def suspended_at_def)

lemma suspended_keep:
  assumes "suspended_ok \<sigma>"
    "\<And>t w. pcs \<sigma>' t = Suspended w \<Longrightarrow> same_suspended \<sigma> \<sigma>' t w \<or> suspended_at \<sigma>' t w"
  shows "suspended_ok \<sigma>'"
proof -
  have "suspended_at \<sigma>' t w" if s: "same_suspended \<sigma> \<sigma>' t w" for t w
  proof -
    have "suspended_at \<sigma> t w" using s assms(1) by (simp add: same_suspended_def suspended_ok_at)
    then show ?thesis using s by (auto simp: same_suspended_def suspended_at_def split: if_splits)
  qed
  then show ?thesis using assms(2) by (auto simp: suspended_ok_at)
qed

lemma suspended_grant:
  assumes "suspended_ok \<sigma>" "resumed_ok \<sigma>" "pcs \<sigma> t = Suspended w" "\<not> is_done (heap (sm \<sigma>) w)"
  shows "t \<notin> set (resumed (sm \<sigma>))" "continuation (heap (sm \<sigma>) w) = Some t" "w \<in> set (handlers \<sigma>)"
    "\<not> abandoned (heap (sm \<sigma>) w)"
proof -
  show "t \<notin> set (resumed (sm \<sigma>))" using assms(2-) by (auto simp: resumed_ok_def)
  show "continuation (heap (sm \<sigma>) w) = Some t" "w \<in> set (handlers \<sigma>)" "\<not> abandoned (heap (sm \<sigma>) w)"
    using assms(1,3,4) by (simp_all add: suspended_ok_def)
qed

lemma suspended_ok_release:
  assumes "release_locked n (sm \<sigma>) = (Inr ws, s)" "addrs_ok \<sigma>" "suspended_ok \<sigma>" "resumed_ok \<sigma>"
    "sm \<sigma>' = s" "to_wake \<sigma>' = to_wake \<sigma> @ ws" "to_remove \<sigma>' = to_remove \<sigma>" "handlers \<sigma>' = handlers \<sigma>"
    "\<And>t w. pcs \<sigma>' t = Suspended w \<Longrightarrow> pcs \<sigma> t = Suspended w"
  shows "suspended_ok \<sigma>'"
proof (rule suspended_keep[OF assms(3)], intro disjI2)
  fix t w
  assume "pcs \<sigma>' t = Suspended w"
  then have p: "pcs \<sigma> t = Suspended w" by (rule assms(9))
  note o = assms(3)[unfolded suspended_ok_def, rule_format, OF p]
  have d: "distinct (waiters (sm \<sigma>))" using assms(2) by (simp add: addrs_ok_def)
  note f = release_locked_facts[OF assms(1) d]
  show "suspended_at \<sigma>' t w"
  proof (cases "is_done (heap (sm \<sigma>) w)")
    case True
    with o show ?thesis by (auto simp: suspended_at_def assms(5-8) f(9,10))
  next
    case False
    note g = suspended_grant[OF assms(3,4) p False]
    have "w \<in> set (waiters (sm \<sigma>))" using o False by simp
    then have "w \<in> set ws \<union> set (waiters s)" using f(7) False by blast
    with g False show ?thesis by (auto simp: suspended_at_def assms(5-8) f(9,10))
  qed
qed

lemma suspended_ok_step:
  assumes "sem_step \<sigma> \<sigma>'" "suspended_ok \<sigma>" "addrs_ok \<sigma>" "homes_ok \<sigma>" "resumed_ok \<sigma>" "wakeups_ok \<sigma>" "enqueueing_ok \<sigma>"
  shows "suspended_ok \<sigma>'"
  using assms
proof (induction rule: sem_step.induct)
  case (ready t \<sigma> canceled rd s)
  show ?case by (rule suspended_keep[OF ready(4)])
    (auto simp: same_suspended_def await_ready_facts(1,3,4)[OF ready(3)] live_def split: if_splits)
next
  case (emplace t \<sigma> w s)
  have "w' \<noteq> w" if "pcs \<sigma> t' = Suspended w'" for t' w'
    using homes_okD[OF emplace(6), of t' w'] that make_waiter_facts(1)[OF emplace(3)] by auto
  then show ?case by (intro suspended_keep[OF emplace(4)])
    (auto simp: same_suspended_def make_waiter_facts(3,4,6)[OF emplace(3)] split: if_splits)
next
  case (emplace_refused t \<sigma> w s)
  have "w' \<noteq> w" if "pcs \<sigma> t' = Suspended w'" for t' w'
    using homes_okD[OF emplace_refused(6), of t' w'] that make_waiter_facts(1)[OF emplace_refused(3)] by auto
  then show ?case by (intro suspended_keep[OF emplace_refused(4)])
    (auto simp: same_suspended_def make_waiter_facts(3,4,6)[OF emplace_refused(3)] split: if_splits)
next
  case (enqueue t \<sigma> w sus s)
  note e = enqueue(9)[unfolded enqueueing_ok_def, rule_format, OF enqueue(2)]
  have u: "w' \<noteq> w" if "pcs \<sigma> t' = Suspended w'" for t' w'
    using suspended_unique[OF enqueue(6), of t' w' t] that enqueue(2) by auto
  have d: "\<not> is_done (heap (sm \<sigma>) w)" using e by simp
  note f = enqueue_waiter_facts(2,4,6)[OF enqueue(3) d]
  show ?case
    by (rule suspended_keep[OF enqueue(4)])
       (use e u in \<open>auto simp: same_suspended_def suspended_at_def f live_def split: if_splits\<close>)
next
  case (run t \<sigma> w)
  then have "distinct (resumed (sm \<sigma>))" by (simp add: resumed_ok_def)
  then show ?case by (intro suspended_keep[OF run(3)]) (auto simp: same_suspended_def split: if_splits)
next
  case (give_back t \<sigma> ws s)
  show ?case by (rule suspended_ok_release[OF give_back(3,5,4,7)]) (auto split: if_splits)
next
  case (add n \<sigma> ws s)
  show ?case by (rule suspended_ok_release[OF add(2,4,3,6)]) auto
next
  case (wake w \<sigma>)
  have u: "t' = t" if "pcs \<sigma> t = Suspended w" "pcs \<sigma> t' = Suspended w" for t t'
    using suspended_unique[OF wake(4) that(1)] that(2) by simp
  have d: "is_done (heap (sm \<sigma>) w)" "\<And>t. continuation (heap (sm \<sigma>) w) = Some t \<Longrightarrow> pcs \<sigma> t = Suspended w"
    using wake(1,6) by (auto simp: wakeups_ok_def)
  show ?case
  proof (rule suspended_keep[OF wake(2)])
    fix t w'
    assume "pcs (\<sigma>\<lparr>sm := resume_after_marked_done w (sm \<sigma>), to_wake := remove1 w (to_wake \<sigma>)\<rparr>) t = Suspended w'"
    then have p: "pcs \<sigma> t = Suspended w'" by simp
    note o = wake(2)[unfolded suspended_ok_def, rule_format, OF p]
    show "same_suspended \<sigma> (\<sigma>\<lparr>sm := resume_after_marked_done w (sm \<sigma>), to_wake := remove1 w (to_wake \<sigma>)\<rparr>) t w' \<or>
      suspended_at (\<sigma>\<lparr>sm := resume_after_marked_done w (sm \<sigma>), to_wake := remove1 w (to_wake \<sigma>)\<rparr>) t w'"
    proof (cases "w' = w")
      case True
      with o p d(1) show ?thesis
        by (auto simp: suspended_at_def resume_after_marked_done_def split: if_splits option.splits)
    next
      case False
      then have "t \<noteq> t'" if "continuation (heap (sm \<sigma>) w) = Some t'" for t'
        using d(2)[OF that] p by auto
      with False p show ?thesis
        by (auto simp: same_suspended_def resume_after_marked_done_def split: option.splits)
    qed
  qed
next
  case (try_take \<sigma> ok s)
  show ?case by (rule suspended_keep[OF try_take(2)])
    (auto simp: same_suspended_def try_acquire_facts[OF try_take(1)] live_def)
next
  case (take_away t \<sigma>)
  then show ?case by (intro suspended_keep[OF take_away(3)]) (auto simp: same_suspended_def split: if_splits)
next
  case (cancel_mark w \<sigma> s)
  note f = try_mark_canceled_facts[OF cancel_mark(4)]
  have "t \<notin> set (resumed (sm \<sigma>)) \<and> continuation (heap (sm \<sigma>) w) = Some t \<and> \<not> abandoned (heap (sm \<sigma>) w)"
    if "pcs \<sigma> t = Suspended w" for t
    using suspended_grant[OF cancel_mark(5,8) that f(1)] by simp
  then show ?case
    by (intro suspended_keep[OF cancel_mark(5)])
       (use cancel_mark(1) in \<open>auto simp: same_suspended_def suspended_at_def f(2)\<close>)
next
  case (cancel_remove w \<sigma>)
  then have "is_done (heap (sm \<sigma>) w)" by (auto simp: wakeups_ok_def)
  then show ?case by (intro suspended_keep[OF cancel_remove(2)]) (auto simp: same_suspended_def live_def)
next
  case (destroy_begin t \<sigma> w)
  have "w' \<noteq> w" if "pcs \<sigma> t' = Suspended w'" "t' \<noteq> t" for t' w'
    using suspended_unique[OF destroy_begin(6), of t' w' t] that destroy_begin(2) by auto
  then show ?case by (intro suspended_keep[OF destroy_begin(4)])
    (auto simp: same_suspended_def abandon_waiter_def split: if_splits)
next
  case (destroy_end t \<sigma> w)
  have "w' \<noteq> w" if "pcs \<sigma> t' = Suspended w'" for t' w'
    using suspended_unique[OF destroy_end(5), of t' w' t] that destroy_end(2) by auto
  then show ?case by (intro suspended_keep[OF destroy_end(3)])
    (auto simp: same_suspended_def abandon_waiter_def destroy_awaiter_def live_def split: if_splits)
next
  case (cancel w \<sigma>)
  then show ?case by (intro suspended_keep[OF cancel(2)]) (auto simp: same_suspended_def request_cancel_def)
next
  case (resume_returns t \<sigma> seen waiter canceled)
  then show ?case by (intro suspended_keep[OF resume_returns(5)]) (auto simp: same_suspended_def split: if_splits)
next
  case (resume_throws t \<sigma> seen waiter canceled e)
  then show ?case by (intro suspended_keep[OF resume_throws(5)]) (auto simp: same_suspended_def split: if_splits)
qed

lemma served_keep:
  assumes "sem_served \<sigma>" "0 < permits (sm \<sigma>') \<Longrightarrow> 0 < permits (sm \<sigma>)" "set (live (sm \<sigma>')) \<subseteq> set (live (sm \<sigma>))"
  shows "sem_served \<sigma>'"
  using assms by (auto simp: sem_served_def)

lemma sem_served_step:
  assumes "sem_step \<sigma> \<sigma>'" "sem_served \<sigma>" "addrs_ok \<sigma>" "enqueueing_ok \<sigma>"
  shows "sem_served \<sigma>'"
  using assms
proof (induction rule: sem_step.induct)
  case (ready t \<sigma> canceled rd s)
  show ?case
    by (rule served_keep[OF ready(4)])
       (use await_ready_facts(5)[OF ready(3)] in \<open>auto simp: await_ready_facts(1,4)[OF ready(3)] live_def\<close>)
next
  case (emplace t \<sigma> w s)
  have "w \<notin> set (waiters (sm \<sigma>))" using emplace(5) make_waiter_facts(1)[OF emplace(3)] by (auto simp: addrs_ok_def)
  then show ?case
    by (intro served_keep[OF emplace(4)]) (auto simp: make_waiter_facts(3,4,5)[OF emplace(3)] live_def split: if_splits)
next
  case (emplace_refused t \<sigma> w s)
  have "w \<notin> set (waiters (sm \<sigma>))"
    using emplace_refused(5) make_waiter_facts(1)[OF emplace_refused(3)] by (auto simp: addrs_ok_def)
  then show ?case
    by (intro served_keep[OF emplace_refused(4)])
       (auto simp: make_waiter_facts(3,4,5)[OF emplace_refused(3)] live_def split: if_splits)
next
  case (enqueue t \<sigma> w sus s)
  have "\<not> is_done (heap (sm \<sigma>) w)" using enqueue(2,6) by (simp add: enqueueing_ok_def)
  note f = enqueue_waiter_facts(3-6)[OF enqueue(3) this]
  show ?case
  proof (cases sus)
    case True
    then have "permits (sm \<sigma>) = 0" using f(1) by blast
    then have "permits s = 0" using f(3) by linarith
    then show ?thesis by (simp add: sem_served_def)
  next
    case False
    have "waiters s = live (sm \<sigma>)" using False f(2) by simp
    moreover have "0 < permits (sm \<sigma>)" using False f(1) by simp
    moreover have "is_done (heap s x)" if "is_done (heap (sm \<sigma>) x)" for x using False f(4) that by simp
    ultimately show ?thesis by (intro served_keep[OF enqueue(4)]) (auto simp: live_def)
  qed
next
  case (give_back t \<sigma> ws s)
  have "distinct (waiters (sm \<sigma>))" using give_back(5) by (simp add: addrs_ok_def)
  from release_locked_facts(12)[OF give_back(3) this] show ?case by (simp add: sem_served_def live_def)
next
  case (add n \<sigma> ws s)
  have "distinct (waiters (sm \<sigma>))" using add(4) by (simp add: addrs_ok_def)
  from release_locked_facts(12)[OF add(2) this] show ?case by (simp add: sem_served_def live_def)
next
  case (try_take \<sigma> ok s)
  show ?case
    by (rule served_keep[OF try_take(2)])
       (use try_acquire_facts(5)[OF try_take(1)] in \<open>auto simp: try_acquire_facts(1,4)[OF try_take(1)] live_def\<close>)
next
  case (cancel_mark w \<sigma> s)
  show ?case
    by (rule served_keep[OF cancel_mark(5)]) (auto simp: try_mark_canceled_facts[OF cancel_mark(4)] live_def split: if_splits)
qed (erule served_keep; auto simp: live_def request_cancel_def abandon_waiter_def destroy_awaiter_def split: if_splits)+

lemma owned_cong:
  "(\<And>w. waiter_of p = Some w \<Longrightarrow> granted (heap s' w) = granted (heap s w)) \<Longrightarrow> owned s' p = owned s p"
  by (induction s p rule: owned.induct) auto

lemma sum_change:
  fixes f g :: "nat \<Rightarrow> nat"
  assumes "t < n" "\<And>t'. t' \<noteq> t \<Longrightarrow> g t' = f t'"
  shows "sum g {..<n} + f t = sum f {..<n} + g t"
proof -
  have "sum g ({..<n} - {t}) = sum f ({..<n} - {t})" by (rule sum.cong) (auto simp: assms(2))
  then show ?thesis using assms(1) by (simp add: sum.remove[of "{..<n}" t])
qed

text \<open>A step of task t changes what t owns and nothing else.\<close>

lemma owned_set_pc:
  assumes "t < ntasks \<sigma>" "\<And>t'. t' \<noteq> t \<Longrightarrow> owned s (pcs \<sigma> t') = owned (sm \<sigma>) (pcs \<sigma> t')"
  shows "(\<Sum>t'<ntasks \<sigma>. owned s (((pcs \<sigma>)(t := p)) t')) + owned (sm \<sigma>) (pcs \<sigma> t)
    = (\<Sum>t'<ntasks \<sigma>. owned (sm \<sigma>) (pcs \<sigma> t')) + owned s p"
  using sum_change[of t "ntasks \<sigma>" "\<lambda>t'. owned s (((pcs \<sigma>)(t := p)) t')" "\<lambda>t'. owned (sm \<sigma>) (pcs \<sigma> t')"] assms
  by simp

text \<open>A release gives one permit to the task of every waiter it grants.\<close>

lemma owned_release:
  assumes "release_locked n (sm \<sigma>) = (Inr ws, s)" "tasks_ok \<sigma>" "addrs_ok \<sigma>" "homes_ok \<sigma>" "granted_ok \<sigma>" "live_ok \<sigma>"
  shows "(\<Sum>t<ntasks \<sigma>. owned s (pcs \<sigma> t)) = (\<Sum>t<ntasks \<sigma>. owned (sm \<sigma>) (pcs \<sigma> t)) + length ws"
proof -
  have d: "distinct (waiters (sm \<sigma>))" "set (waiters (sm \<sigma>)) \<subseteq> set (handlers \<sigma>)"
    "\<And>w. w \<in> set (handlers \<sigma>) \<Longrightarrow> w < next_waiter (sm \<sigma>)"
    using assms(3) by (auto simp: addrs_ok_def)
  note f = release_locked_facts[OF assms(1) d(1)]
  have w: "waiter_of (pcs \<sigma> (homes \<sigma> w)) = Some w" "\<not> granted (heap (sm \<sigma>) w)" if "w \<in> set ws" for w
  proof -
    have a: "w \<in> set (handlers \<sigma>)" "\<not> is_done (heap (sm \<sigma>) w)" using that f(1,6) d(2) by auto
    then show "waiter_of (pcs \<sigma> (homes \<sigma> w)) = Some w" using assms(6) by (auto simp: live_ok_def)
    show "\<not> granted (heap (sm \<sigma>) w)" using a d(3) assms(5) by (auto simp: granted_ok_def)
  qed
  have inj: "inj_on (homes \<sigma>) (set ws)"
    by (rule inj_onI) (metis w(1) option.inject)
  have sub: "homes \<sigma> ` set ws \<subseteq> {..<ntasks \<sigma>}"
  proof (rule image_subsetI)
    fix x assume "x \<in> set ws"
    then have "pcs \<sigma> (homes \<sigma> x) \<noteq> Idle" using w(1) by fastforce
    then show "homes \<sigma> x \<in> {..<ntasks \<sigma>}" using assms(2) by (simp add: tasks_ok_def)
  qed
  have one: "owned s (pcs \<sigma> t) = owned (sm \<sigma>) (pcs \<sigma> t) + of_bool (t \<in> homes \<sigma> ` set ws)" for t
  proof (cases "t \<in> homes \<sigma> ` set ws")
    case True
    then obtain x where x: "x \<in> set ws" "t = homes \<sigma> x" by blast
    then show ?thesis using w[OF x(1)] by (cases "pcs \<sigma> t") (auto simp: f(10))
  next
    case False
    then have "x \<notin> set ws" if "waiter_of (pcs \<sigma> t) = Some x" for x
      using homes_okD[OF assms(4) that] by auto
    then show ?thesis using False by (simp add: f(10) cong: owned_cong)
  qed
  have "(\<Sum>t<ntasks \<sigma>. of_bool (t \<in> homes \<sigma> ` set ws) :: nat) = card (homes \<sigma> ` set ws)"
    using sub by (simp add: Int_absorb1 of_bool_def sum.If_cases)
  also have "\<dots> = length ws" using card_image[OF inj] distinct_card[OF f(2)] by simp
  finally show ?thesis by (simp add: one sum.distrib)
qed

lemma balance_set_pc:
  assumes "sem_balance \<sigma>" "t < ntasks \<sigma>" "sm \<sigma>' = s" "ntasks \<sigma>' = ntasks \<sigma>" "pcs \<sigma>' = (pcs \<sigma>)(t := p)"
    "\<And>t'. t' \<noteq> t \<Longrightarrow> owned s (pcs \<sigma> t') = owned (sm \<sigma>) (pcs \<sigma> t')"
    "permits s + owned s p + lost \<sigma>' + stock \<sigma> = permits (sm \<sigma>) + owned (sm \<sigma>) (pcs \<sigma> t) + lost \<sigma> + stock \<sigma>'"
  shows "sem_balance \<sigma>'"
  using owned_set_pc[OF assms(2,6), of p] assms(1,3,4,5,7) by (simp add: sem_balance_def)

lemma balance_same:
  assumes "sem_balance \<sigma>" "permits (sm \<sigma>') = permits (sm \<sigma>)" "ntasks \<sigma>' = ntasks \<sigma>" "pcs \<sigma>' = pcs \<sigma>"
    "lost \<sigma>' = lost \<sigma>" "stock \<sigma>' = stock \<sigma>" "\<And>w. granted (heap (sm \<sigma>') w) = granted (heap (sm \<sigma>) w)"
  shows "sem_balance \<sigma>'"
proof -
  have "owned (sm \<sigma>') p = owned (sm \<sigma>) p" for p by (rule owned_cong) (simp add: assms(7))
  then show ?thesis using assms(1-6) by (simp add: sem_balance_def)
qed

lemma await_resume_owned:
  assumes "await_resume canceled waiter s = Inr ()" "seen \<longrightarrow> canceled"
  shows "owned s (Resuming seen waiter) = 1"
  using assms by (cases waiter) (auto simp: await_resume_def split: if_splits)

lemma sem_balance_step:
  assumes "sem_step \<sigma> \<sigma>'" "sem_balance \<sigma>" "tasks_ok \<sigma>" "addrs_ok \<sigma>" "homes_ok \<sigma>" "granted_ok \<sigma>" "live_ok \<sigma>"
    "enqueueing_ok \<sigma>"
  shows "sem_balance \<sigma>'"
  using assms
proof (induction rule: sem_step.induct)
  case (ready t \<sigma> canceled rd s)
  note f = await_ready_facts[OF ready(3)]
  show ?case
    by (rule balance_set_pc[OF ready(4,1), of _ s "if rd then Resuming canceled None else Suspending"])
       (use ready(2) f(1,5,6) in \<open>auto intro!: owned_cong\<close>)
next
  case (emplace t \<sigma> w s)
  note f = make_waiter_facts[OF emplace(3)]
  have "x \<noteq> w" if "waiter_of (pcs \<sigma> t') = Some x" for t' x using homes_okD[OF emplace(7) that] f(1) by auto
  then show ?case
    by (intro balance_set_pc[OF emplace(4,1), of _ s "Enqueueing w"]) (use emplace(2) f(3,5) in \<open>auto intro!: owned_cong\<close>)
next
  case (emplace_refused t \<sigma> w s)
  note f = make_waiter_facts[OF emplace_refused(3)]
  have "x \<noteq> w" if "waiter_of (pcs \<sigma> t') = Some x" for t' x using homes_okD[OF emplace_refused(7) that] f(1) by auto
  then show ?case
    by (intro balance_set_pc[OF emplace_refused(4,1), of _ s "Resuming False (Some w)"])
       (use emplace_refused(2) f(3,5) in \<open>auto intro!: owned_cong\<close>)
next
  case (enqueue t \<sigma> w sus s)
  have d: "\<not> is_done (heap (sm \<sigma>) w)" using enqueue(2,10) by (simp add: enqueueing_ok_def)
  note f = enqueue_waiter_facts[OF enqueue(3) d]
  have h: "w < next_waiter (sm \<sigma>)" "homes \<sigma> w = t" using homes_okD[OF enqueue(7), of t w] enqueue(2) by auto
  then have g: "\<not> granted (heap (sm \<sigma>) w)" using d enqueue(8) by (auto simp: granted_ok_def)
  have "x \<noteq> w" if "waiter_of (pcs \<sigma> t') = Some x" "t' \<noteq> t" for t' x
    using homes_okD[OF enqueue(7) that(1)] that(2) h(2) by auto
  then show ?case
    by (intro balance_set_pc[OF enqueue(4,1), of _ s "if sus then Suspended w else Resuming False (Some w)"])
       (use enqueue(2) g f(5,6) in \<open>auto intro!: owned_cong split: if_splits\<close>)
next
  case (run t \<sigma> w)
  have "t < ntasks \<sigma>" using run(2,4) by (auto simp: tasks_ok_def)
  then show ?case
    by (intro balance_set_pc[OF run(3), of t _ "(sm \<sigma>)\<lparr>resumed := remove1 t (resumed (sm \<sigma>))\<rparr>" "Resuming False (Some w)"])
       (use run(2) in \<open>auto intro!: owned_cong\<close>)
next
  case (resume_returns t \<sigma> seen waiter canceled)
  show ?case
    by (rule balance_set_pc[OF resume_returns(5,1), of _ "sm \<sigma>" Holding])
       (use resume_returns(2) await_resume_owned[OF resume_returns(4,3)] in auto)
next
  case (resume_throws t \<sigma> seen waiter canceled e)
  show ?case
    by (rule balance_set_pc[OF resume_throws(5,1), of _ "sm \<sigma>" "Threw e"]) (use resume_throws(2) in auto)
next
  case (give_back t \<sigma> ws s)
  have d: "distinct (waiters (sm \<sigma>))" using give_back(6) by (simp add: addrs_ok_def)
  note r = owned_release[OF give_back(3,5-9)] release_locked_facts(11)[OF give_back(3) d]
  have "(\<Sum>t'<ntasks \<sigma>. owned s (((pcs \<sigma>)(t := Idle)) t')) + 1 = (\<Sum>t'<ntasks \<sigma>. owned s (pcs \<sigma> t'))"
    using sum_change[of t "ntasks \<sigma>" "\<lambda>t'. owned s (((pcs \<sigma>)(t := Idle)) t')" "\<lambda>t'. owned s (pcs \<sigma> t')"] give_back(1,2)
    by simp
  then show ?case using r give_back(4) by (simp add: sem_balance_def)
next
  case (add n \<sigma> ws s)
  have d: "distinct (waiters (sm \<sigma>))" using add(5) by (simp add: addrs_ok_def)
  from owned_release[OF add(2,4-8)] release_locked_facts(11)[OF add(2) d] add(3) show ?case
    by (simp add: sem_balance_def)
next
  case (wake w \<sigma>)
  show ?case by (rule balance_same[OF wake(2)]) simp_all
next
  case (cancel w \<sigma>)
  show ?case by (rule balance_same[OF cancel(2)]) (simp_all add: request_cancel_def)
next
  case (try_take \<sigma> ok s)
  note f = try_acquire_facts[OF try_take(1)]
  have "owned s p = owned (sm \<sigma>) p" for p by (rule owned_cong) (simp add: f(1))
  then show ?case using try_take(2) f(5) by (simp add: sem_balance_def)
next
  case (take_away t \<sigma>)
  have "1 \<le> (\<Sum>t'<ntasks \<sigma>. owned (sm \<sigma>) (pcs \<sigma> t'))"
    using member_le_sum[of t "{..<ntasks \<sigma>}" "\<lambda>t'. owned (sm \<sigma>) (pcs \<sigma> t')"] take_away(1,2) by simp
  then show ?case using take_away(3)
    by (intro balance_set_pc[OF take_away(3,1), of _ "sm \<sigma>" Idle]) (use take_away(2) in \<open>auto simp: sem_balance_def\<close>)
next
  case (cancel_mark w \<sigma> s)
  show ?case by (rule balance_same[OF cancel_mark(5)]) (simp_all add: try_mark_canceled_facts[OF cancel_mark(4)])
next
  case (cancel_remove w \<sigma>)
  show ?case by (rule balance_same[OF cancel_remove(2)]) simp_all
next
  case (destroy_begin t \<sigma> w)
  show ?case
    by (rule balance_set_pc[OF destroy_begin(4,1), of _ "abandon_waiter w (sm \<sigma>)" "Destroying w"])
       (use destroy_begin(2) in \<open>auto simp: abandon_waiter_def intro!: owned_cong split: if_splits\<close>)
next
  case (destroy_end t \<sigma> w)
  show ?case
    by (rule balance_set_pc[OF destroy_end(3,1), of _ "destroy_awaiter w (sm \<sigma>)" Destroyed])
       (use destroy_end(2) in \<open>auto simp: abandon_waiter_def destroy_awaiter_def intro!: owned_cong split: if_splits\<close>)
qed

definition sem_inv :: "sem_sys \<Rightarrow> bool" where
  "sem_inv \<sigma> \<longleftrightarrow> tasks_ok \<sigma> \<and> addrs_ok \<sigma> \<and> homes_ok \<sigma> \<and> granted_ok \<sigma> \<and> live_ok \<sigma> \<and> enqueueing_ok \<sigma> \<and>
     destroying_ok \<sigma> \<and> suspended_ok \<sigma> \<and> resumed_ok \<sigma> \<and> wakeups_ok \<sigma> \<and> sem_served \<sigma> \<and> sem_balance \<sigma>"

lemmas sem_ok_defs = tasks_ok_def addrs_ok_def homes_ok_def granted_ok_def live_ok_def enqueueing_ok_def
  destroying_ok_def suspended_ok_def resumed_ok_def wakeups_ok_def sem_served_def sem_balance_def

lemmas sem_ok_steps = tasks_ok_step addrs_ok_step homes_ok_step granted_ok_step live_ok_step enqueueing_ok_step
  destroying_ok_step suspended_ok_step resumed_ok_step wakeups_ok_step sem_served_step sem_balance_step

interpretation sem_run: invariant_system sem_init sem_step sem_inv
proof unfold_locales
  fix \<sigma>
  assume "sem_init \<sigma>"
  then show "sem_inv \<sigma>"
    by (simp add: sem_init_def sem_inv_def sem_ok_defs semaphore_def live_def)
next
  fix \<sigma> \<sigma>'
  assume "sem_inv \<sigma>" "sem_step \<sigma> \<sigma>'"
  then show "sem_inv \<sigma>'"
    unfolding sem_inv_def by (elim conjE, intro conjI) (rule sem_ok_steps, assumption+)+
qed

text \<open>C4: Permits are neither created nor lost: the free permits, those owned by tasks and those taken by a
  task that then failed add up to the initial permits and the ones added, so the tasks that hold a
  permit never outnumber them.\<close>

theorem permits_conserved:
  assumes "reachable sem_init sem_step \<sigma>"
  shows "permits (sm \<sigma>) + (\<Sum>t<ntasks \<sigma>. owned (sm \<sigma>) (pcs \<sigma> t)) + lost \<sigma> = stock \<sigma> \<and>
    card {t. pcs \<sigma> t = Holding} + permits (sm \<sigma>) + lost \<sigma> \<le> stock \<sigma>"
proof -
  have i: "sem_inv \<sigma>" by (rule sem_run.reachable_good[OF assms])
  then have b: "permits (sm \<sigma>) + (\<Sum>t<ntasks \<sigma>. owned (sm \<sigma>) (pcs \<sigma> t)) + lost \<sigma> = stock \<sigma>"
    by (simp add: sem_inv_def sem_balance_def)
  have "{t. pcs \<sigma> t = Holding} = {t\<in>{..<ntasks \<sigma>}. pcs \<sigma> t = Holding}"
    using i by (auto simp: sem_inv_def tasks_ok_def)
  then have "card {t. pcs \<sigma> t = Holding} = (\<Sum>t<ntasks \<sigma>. of_bool (pcs \<sigma> t = Holding))"
    by (simp add: Int_def)
  also have "\<dots> \<le> (\<Sum>t<ntasks \<sigma>. owned (sm \<sigma>) (pcs \<sigma> t))" by (rule sum_mono) auto
  finally show ?thesis using b by simp
qed

definition sample_sem :: "nat \<Rightarrow> nat \<Rightarrow> sem_sys" where
  "sample_sem n p = \<lparr>sm = semaphore p, pcs = (\<lambda>_. Idle), ntasks = n, to_wake = [], to_remove = [], handlers = [],
     homes = (\<lambda>_. 0), stock = p, lost = 0\<rparr>"

lemma sample_sem_start: "reachable sem_init sem_step (sample_sem n p)"
  by (rule start) (simp add: sem_init_def sample_sem_def)

lemma sample_sem_acquires:
  assumes "0 < n" "0 < p"
  shows "reachable sem_init sem_step
    (set_pc 0 Holding (set_pc 0 (Resuming False None) ((sample_sem n p)\<lparr>sm := semaphore (p - 1)\<rparr>)))"
proof -
  have "await_ready False (semaphore p) = (True, semaphore (p - 1))"
    using assms(2) by (simp add: await_ready_def try_acquire_def compact_waiters_locked_def semaphore_def)
  then have "sem_step (sample_sem n p)
    (set_pc 0 (if True then Resuming False None else Suspending) ((sample_sem n p)\<lparr>sm := semaphore (p - 1)\<rparr>))"
    using assms(1) by (intro ready) (simp_all add: sample_sem_def)
  moreover have "sem_step (set_pc 0 (Resuming False None) ((sample_sem n p)\<lparr>sm := semaphore (p - 1)\<rparr>))
    (set_pc 0 Holding (set_pc 0 (Resuming False None) ((sample_sem n p)\<lparr>sm := semaphore (p - 1)\<rparr>)))"
    using assms(1)
    by (intro resume_returns[where seen = False and waiter = None and canceled = False])
       (simp_all add: sample_sem_def await_resume_def)
  ultimately show ?thesis
    using sample_sem_start[of n p] by (auto intro: next_state)
qed

theorem permits_conserved_witness:
  "\<exists>\<sigma>. reachable sem_init sem_step \<sigma> \<and> pcs \<sigma> 0 = Holding \<and> stock \<sigma> = 2 \<and>
     permits (sm \<sigma>) + (\<Sum>t<ntasks \<sigma>. owned (sm \<sigma>) (pcs \<sigma> t)) + lost \<sigma> = stock \<sigma> \<and>
     card {t. pcs \<sigma> t = Holding} + permits (sm \<sigma>) + lost \<sigma> \<le> stock \<sigma>"
  using permits_conserved[OF sample_sem_acquires[of 3 2]] sample_sem_acquires[of 3 2]
  by (intro exI[of _ "set_pc 0 Holding (set_pc 0 (Resuming False None) ((sample_sem 3 2)\<lparr>sm := semaphore (2 - 1)\<rparr>))"])
     (simp add: sample_sem_def)

text \<open>C6: No wake-up is lost: when no wake-up or cancellation is under way, a task is left suspended only
  if no permit is free, and then its waiter is still queued and will be served by a release.\<close>

theorem no_lost_wakeup:
  assumes "reachable sem_init sem_step \<sigma>" "pcs \<sigma> t = Suspended w"
    and "to_wake \<sigma> = []" "to_remove \<sigma> = []" "resumed (sm \<sigma>) = []"
  shows "permits (sm \<sigma>) = 0 \<and> w \<in> set (live (sm \<sigma>))"
proof -
  have i: "sem_inv \<sigma>" by (rule sem_run.reachable_good[OF assms(1)])
  then have "w \<in> set (live (sm \<sigma>))"
    using assms(2-) by (auto simp: sem_inv_def suspended_ok_def live_def split: if_splits)
  moreover from this have "permits (sm \<sigma>) = 0" using i by (auto simp: sem_inv_def sem_served_def)
  ultimately show ?thesis by simp
qed

lemma sample_sem_suspends:
  "\<exists>\<sigma>. reachable sem_init sem_step \<sigma> \<and> pcs \<sigma> 0 = Suspended 0 \<and> to_wake \<sigma> = [] \<and> to_remove \<sigma> = [] \<and>
     resumed (sm \<sigma>) = []"
proof -
  let ?s0 = "sample_sem 1 0"
  let ?s1 = "set_pc 0 (if False then Resuming False None else Suspending) (?s0\<lparr>sm := semaphore 0\<rparr>)"
  have "sem_step ?s0 ?s1"
    by (rule ready) (simp_all add: sample_sem_def await_ready_def try_acquire_def compact_waiters_locked_def semaphore_def)
  then have r1: "reachable sem_init sem_step ?s1" by (rule next_state[OF sample_sem_start])
  obtain w m where m: "make_waiter 0 (sm ?s1) = (w, m)" by force
  let ?s2 = "set_pc 0 (Enqueueing w) (?s1\<lparr>sm := m, homes := (homes ?s1)(w := 0), handlers := w # handlers ?s1\<rparr>)"
  have "sem_step ?s1 ?s2" using m by (intro emplace) (simp_all add: sample_sem_def)
  then have r2: "reachable sem_init sem_step ?s2" by (rule next_state[OF r1])
  obtain sus s where e: "enqueue_waiter w (sm ?s2) = (sus, s)" by force
  let ?s3 = "set_pc 0 (if sus then Suspended w else Resuming False (Some w)) (?s2\<lparr>sm := s\<rparr>)"
  have "sem_step ?s2 ?s3" using e by (intro enqueue) (simp_all add: sample_sem_def)
  then have r3: "reachable sem_init sem_step ?s3" by (rule next_state[OF r2])
  note f = make_waiter_facts[OF m]
  have d: "\<not> is_done (heap (sm ?s2) w)" by (simp add: f)
  note g = enqueue_waiter_facts(2,3)[OF e d]
  have "w = 0" "sus" "resumed s = []" using f g by (simp_all add: semaphore_def)
  then show ?thesis using r3 by (intro exI[of _ ?s3]) (simp add: sample_sem_def)
qed

theorem no_lost_wakeup_witness:
  "\<exists>\<sigma>. reachable sem_init sem_step \<sigma> \<and> pcs \<sigma> 0 = Suspended 0 \<and> permits (sm \<sigma>) = 0 \<and> 0 \<in> set (live (sm \<sigma>))"
proof -
  obtain \<sigma> where "reachable sem_init sem_step \<sigma>" "pcs \<sigma> 0 = Suspended 0" "to_wake \<sigma> = []" "to_remove \<sigma> = []"
    "resumed (sm \<sigma>) = []"
    using sample_sem_suspends by blast
  from no_lost_wakeup[OF this] this(1,2) show ?thesis by blast
qed

text \<open>No coroutine is resumed twice: the handles handed to the executor are distinct, and each belongs to a
  task that is still suspended and whose waiter is decided.\<close>

theorem resumed_once:
  assumes "reachable sem_init sem_step \<sigma>"
  shows "distinct (resumed (sm \<sigma>)) \<and>
    (\<forall>t\<in>set (resumed (sm \<sigma>)). \<exists>w. pcs \<sigma> t = Suspended w \<and> is_done (heap (sm \<sigma>) w))"
  using sem_run.reachable_good[OF assms] by (simp add: sem_inv_def resumed_ok_def)

theorem resumed_once_witness:
  "\<exists>\<sigma>. reachable sem_init sem_step \<sigma> \<and> pcs \<sigma> 0 = Suspended 0 \<and> distinct (resumed (sm \<sigma>)) \<and>
    (\<forall>t\<in>set (resumed (sm \<sigma>)). \<exists>w. pcs \<sigma> t = Suspended w \<and> is_done (heap (sm \<sigma>) w))"
  using sample_sem_suspends resumed_once by blast

text \<open>A release serves the waiters in the order in which they queued: in every reachable state it takes the
  first waiters that are not done, one per permit, marks exactly them granted and keeps the rest queued.
  It is refused, with the semaphore unchanged, when the permit count would overflow.\<close>

theorem release_in_order:
  assumes "reachable sem_init sem_step \<sigma>"
  shows "release_locked n (sm \<sigma>) =
    (if n > size_max - permits (sm \<sigma>)
     then (Inl (OverflowError ''corouv::AsyncSemaphore permit overflow''), sm \<sigma>)
     else (Inr (take (permits (sm \<sigma>) + n) (live (sm \<sigma>))),
       (sm \<sigma>)\<lparr>permits := permits (sm \<sigma>) + n - length (live (sm \<sigma>)),
         waiters := drop (permits (sm \<sigma>) + n) (live (sm \<sigma>)),
         heap := grant_all (take (permits (sm \<sigma>) + n) (live (sm \<sigma>))) (heap (sm \<sigma>))\<rparr>))"
proof -
  have d: "distinct (waiters (sm \<sigma>))"
    using sem_run.reachable_good[OF assms] by (simp add: sem_inv_def addrs_ok_def)
  show ?thesis
  proof (cases "n > size_max - permits (sm \<sigma>)")
    case True
    then show ?thesis by (simp add: release_locked_def)
  next
    case False
    then show ?thesis using release_locked_grants[OF d, of n] by simp
  qed
qed

theorem release_in_order_witness:
  "\<exists>\<sigma>. reachable sem_init sem_step \<sigma> \<and> pcs \<sigma> 0 = Suspended 0 \<and>
     fst (release_locked 1 (sm \<sigma>)) = (if 1 > size_max - permits (sm \<sigma>)
       then Inl (OverflowError ''corouv::AsyncSemaphore permit overflow'')
       else Inr (take (permits (sm \<sigma>) + 1) (live (sm \<sigma>))))"
proof -
  obtain \<sigma> where "reachable sem_init sem_step \<sigma>" "pcs \<sigma> 0 = Suspended 0" using sample_sem_suspends by blast
  with release_in_order[OF this(1), of 1] show ?thesis by (intro exI[of _ \<sigma>]) simp
qed

text \<open>C34: A task whose acquire took a free permit still throws if it is canceled before it runs on: the permit is
  then neither free nor held by anyone.\<close>

theorem permit_leaked:
  "\<exists>\<sigma>. reachable sem_init sem_step \<sigma> \<and> stock \<sigma> = 1 \<and> permits (sm \<sigma>) = 0 \<and> lost \<sigma> = 1 \<and>
     pcs \<sigma> 0 = Threw (SignalException ''corouv async semaphore acquire canceled'')"
proof -
  let ?e = "SignalException ''corouv async semaphore acquire canceled''"
  let ?s1 = "set_pc 0 (if True then Resuming False None else Suspending) ((sample_sem 1 1)\<lparr>sm := semaphore 0\<rparr>)"
  let ?s2 = "set_pc 0 (Threw ?e) (?s1\<lparr>lost := lost ?s1 + owned (sm ?s1) (Resuming False None)\<rparr>)"
  have "sem_step (sample_sem 1 1) ?s1"
    by (rule ready) (simp_all add: sample_sem_def await_ready_def try_acquire_def compact_waiters_locked_def semaphore_def)
  then have r: "reachable sem_init sem_step ?s1" by (rule next_state[OF sample_sem_start])
  have "sem_step ?s1 ?s2"
    by (rule resume_throws[where seen = False and waiter = None and canceled = True])
       (simp_all add: sample_sem_def await_resume_def)
  then have "reachable sem_init sem_step ?s2" by (rule next_state[OF r])
  then show ?thesis by (intro exI[of _ ?s2]) (simp add: sample_sem_def semaphore_def)
qed

end
