(* ===== verification/Async_Mutex.thy ===== *)
theory Async_Mutex
  imports Async_Semaphore
begin

text \<open>
  AsyncMutex (src/include/corouv/async_mutex.h) and its refinement to the
  semaphore: an unlocked mutex is a semaphore with one free permit, unlock is
  a release of one permit.  Every step of the mutex is a step of the
  semaphore, so mutual exclusion and the absence of lost wake-ups follow from
  the semaphore's invariant.
\<close>

section \<open>Operations\<close>

text \<open>
  The waiters of the mutex are those of the semaphore; the struct Waiter is
  the same in both headers.
\<close>

record mutex =
  locked :: bool
  m_waiters :: "addr list"
  m_heap :: "addr \<Rightarrow> Waiter"
  m_next :: addr
  m_resumed :: "task list"

definition AsyncMutex :: mutex where
  "AsyncMutex = \<lparr>locked = False, m_waiters = [], m_heap = (\<lambda>_. new_waiter 0), m_next = 0, m_resumed = []\<rparr>"

definition m_upd_waiter :: "addr \<Rightarrow> (Waiter \<Rightarrow> Waiter) \<Rightarrow> mutex \<Rightarrow> mutex" where
  "m_upd_waiter w f m = m\<lparr>m_heap := (m_heap m)(w := f (m_heap m w))\<rparr>"

definition m_compact :: "mutex \<Rightarrow> mutex" where
  "m_compact m = m\<lparr>m_waiters := filter (\<lambda>w. \<not> is_done (m_heap m w)) (m_waiters m)\<rparr>"

definition try_lock :: "mutex \<Rightarrow> bool \<times> mutex" where
  "try_lock m = (let m = m_compact m in if locked m then (False, m) else (True, m\<lparr>locked := True\<rparr>))"

definition m_try_mark_granted :: "addr \<Rightarrow> mutex \<Rightarrow> bool \<times> mutex" where
  "m_try_mark_granted w m = (if is_done (m_heap m w) then (False, m)
     else (True, m_upd_waiter w (\<lambda>x. x\<lparr>is_done := True, granted := True\<rparr>) m))"

definition m_try_mark_canceled :: "addr \<Rightarrow> mutex \<Rightarrow> bool \<times> mutex" where
  "m_try_mark_canceled w m = (if is_done (m_heap m w) then (False, m)
     else (True, m_upd_waiter w (\<lambda>x. x\<lparr>is_done := True\<rparr>) m))"

definition m_resume_after_marked_done :: "addr \<Rightarrow> mutex \<Rightarrow> mutex" where
  "m_resume_after_marked_done w m = (if abandoned (m_heap m w) then m else
     (case continuation (m_heap m w) of
        None \<Rightarrow> m
      | Some t \<Rightarrow> (m_upd_waiter w (\<lambda>x. x\<lparr>continuation := None\<rparr>) m)\<lparr>m_resumed := m_resumed m @ [t]\<rparr>))"

text \<open>The loop of unlock: the first waiter whose flag is won takes the lock over.\<close>

function unlock_loop :: "mutex \<Rightarrow> addr option \<times> mutex" where
  "unlock_loop m = (case m_waiters m of
     [] \<Rightarrow> (None, m)
   | w # ws \<Rightarrow>
       (case m_try_mark_granted w (m\<lparr>m_waiters := ws\<rparr>) of
          (False, m1) \<Rightarrow> unlock_loop m1
        | (True, m1) \<Rightarrow> (Some w, m1)))"
  by auto
termination
  by (relation "measure (\<lambda>m. length (m_waiters m))")
     (auto simp: m_try_mark_granted_def m_upd_waiter_def split: if_splits)

declare unlock_loop.simps [simp del]

definition unlock_locked :: "mutex \<Rightarrow> addr option result \<times> mutex" where
  "unlock_locked m = (if \<not> locked m
     then (Inl (LogicError ''corouv::AsyncMutex::unlock on unlocked mutex''), m)
     else case unlock_loop (m_compact m) of
            (None, m') \<Rightarrow> (Inr None, m'\<lparr>locked := False\<rparr>)
          | (Some w, m') \<Rightarrow> (Inr (Some w), m'))"

definition unlock :: "mutex \<Rightarrow> unit result \<times> mutex" where
  "unlock m = (case unlock_locked m of
     (Inl e, m') \<Rightarrow> (Inl e, m')
   | (Inr None, m') \<Rightarrow> (Inr (), m')
   | (Inr (Some w), m') \<Rightarrow> (Inr (), m_resume_after_marked_done w m'))"

definition m_remove_waiter :: "addr \<Rightarrow> mutex \<Rightarrow> mutex" where
  "m_remove_waiter w m = m\<lparr>m_waiters := filter (\<lambda>x. x \<noteq> w \<and> \<not> is_done (m_heap m x)) (m_waiters m)\<rparr>"

definition m_enqueue_waiter :: "addr \<Rightarrow> mutex \<Rightarrow> bool \<times> mutex" where
  "m_enqueue_waiter w m = (let m = m_compact m in
     if is_done (m_heap m w) then (False, m)
     else if \<not> locked m then
       (False, m_upd_waiter w (\<lambda>x. x\<lparr>is_done := True, granted := True\<rparr>) (m\<lparr>locked := True\<rparr>))
     else (True, m\<lparr>m_waiters := m_waiters m @ [w]\<rparr>))"

definition m_request_cancel :: "addr \<Rightarrow> mutex \<Rightarrow> mutex" where
  "m_request_cancel w m = m_upd_waiter w (\<lambda>x. x\<lparr>cancel_requested := True\<rparr>) m"

definition m_cancel_on_executor :: "addr \<Rightarrow> mutex \<Rightarrow> mutex" where
  "m_cancel_on_executor w m = (if \<not> cancel_requested (m_heap m w) then m else
     (case m_try_mark_canceled w m of
        (False, m1) \<Rightarrow> m1
      | (True, m1) \<Rightarrow> m_resume_after_marked_done w (m_remove_waiter w m1)))"

definition m_await_ready :: "bool \<Rightarrow> mutex \<Rightarrow> bool \<times> mutex" where
  "m_await_ready canceled m = (if canceled then (True, m) else try_lock m)"

definition m_make_waiter :: "task \<Rightarrow> mutex \<Rightarrow> addr \<times> mutex" where
  "m_make_waiter t m = (m_next m, m\<lparr>m_heap := (m_heap m)(m_next m := new_waiter t), m_next := m_next m + 1\<rparr>)"

definition m_await_resume :: "bool \<Rightarrow> addr option \<Rightarrow> mutex \<Rightarrow> unit result" where
  "m_await_resume canceled waiter m =
     (if (case waiter of None \<Rightarrow> False | Some w \<Rightarrow> granted (m_heap m w)) then Inr ()
      else if canceled then Inl (SignalException ''corouv async mutex lock canceled'')
      else if waiter \<noteq> None then Inl (RuntimeError ''corouv::AsyncMutex lock failed'')
      else Inr ())"

definition m_abandon_waiter :: "addr \<Rightarrow> mutex \<Rightarrow> mutex" where
  "m_abandon_waiter w m = m_upd_waiter w (\<lambda>x. x\<lparr>abandoned := True, continuation := None\<rparr>) m"

definition m_destroy_awaiter :: "addr \<Rightarrow> mutex \<Rightarrow> mutex" where
  "m_destroy_awaiter w m =
     m_remove_waiter w (m_upd_waiter w (\<lambda>x. x\<lparr>is_done := True\<rparr>) (m_abandon_waiter w m))"

section \<open>Scoped locks\<close>

text \<open>
  A ScopedLock holds a pointer to its mutex or null; release unlocks once and
  a failing unlock ends the program (None).
\<close>

type_synonym scoped_lock = bool

definition sl_release :: "scoped_lock \<Rightarrow> mutex \<Rightarrow> (scoped_lock \<times> mutex) option" where
  "sl_release owns m = (if \<not> owns then Some (False, m) else
     (case unlock m of (Inl e, m') \<Rightarrow> None | (Inr _, m') \<Rightarrow> Some (False, m')))"

text \<open>Move assignment: the target releases what it holds and takes the source over, unless they are the same.\<close>

definition sl_move_assign :: "bool \<Rightarrow> scoped_lock \<Rightarrow> scoped_lock \<Rightarrow> mutex \<Rightarrow>
    (scoped_lock \<times> scoped_lock \<times> mutex) option" where
  "sl_move_assign same target source m = (if same then Some (target, source, m) else
     map_option (\<lambda>(_, m'). (source, False, m')) (sl_release target m))"

text \<open>with_lock after the lock is taken: the callable runs, then the guard is destroyed, also when it throws.\<close>

definition with_lock_body :: "('w \<Rightarrow> 'a result \<times> 'w) \<Rightarrow> mutex \<Rightarrow> 'w \<Rightarrow> ('a result \<times> mutex \<times> 'w) option" where
  "with_lock_body fn m w = (let (r, w') = fn w in map_option (\<lambda>(_, m'). (r, m', w')) (sl_release True m))"

section \<open>Running the operations concurrently\<close>

definition mutex_init :: "mutex lock_sys \<Rightarrow> bool" where
  "mutex_init \<mu> \<longleftrightarrow> sm \<mu> = AsyncMutex \<and> pcs \<mu> = (\<lambda>_. Idle) \<and> to_wake \<mu> = [] \<and> to_remove \<mu> = [] \<and>
     handlers \<mu> = [] \<and> stock \<mu> = 1 \<and> lost \<mu> = 0"

fun m_owned :: "mutex \<Rightarrow> pc \<Rightarrow> nat" where
  "m_owned m (Resuming seen None) = of_bool (\<not> seen)"
| "m_owned m (Resuming seen (Some w)) = of_bool (granted (m_heap m w))"
| "m_owned m (Destroying w) = of_bool (granted (m_heap m w))"
| "m_owned m _ = 0"

text \<open>
  The steps of the semaphore with the operations of the mutex; only a task
  that holds the lock unlocks it, as ScopedLock and with_lock do.
\<close>

inductive mutex_step :: "mutex lock_sys \<Rightarrow> mutex lock_sys \<Rightarrow> bool" where
  m_ready: "\<lbrakk>t < ntasks \<mu>; pcs \<mu> t = Idle; m_await_ready canceled (sm \<mu>) = (rd, m)\<rbrakk> \<Longrightarrow>
    mutex_step \<mu> (set_pc t (if rd then Resuming canceled None else Suspending) (\<mu>\<lparr>sm := m\<rparr>))"
| m_emplace: "\<lbrakk>t < ntasks \<mu>; pcs \<mu> t = Suspending; m_make_waiter t (sm \<mu>) = (w, m)\<rbrakk> \<Longrightarrow>
    mutex_step \<mu> (set_pc t (Enqueueing w)
      (\<mu>\<lparr>sm := m, homes := (homes \<mu>)(w := t), handlers := w # handlers \<mu>\<rparr>))"
| m_emplace_refused: "\<lbrakk>t < ntasks \<mu>; pcs \<mu> t = Suspending; m_make_waiter t (sm \<mu>) = (w, m)\<rbrakk> \<Longrightarrow>
    mutex_step \<mu> (set_pc t (Resuming False (Some w)) (\<mu>\<lparr>sm := m, homes := (homes \<mu>)(w := t)\<rparr>))"
| m_enqueue: "\<lbrakk>t < ntasks \<mu>; pcs \<mu> t = Enqueueing w; m_enqueue_waiter w (sm \<mu>) = (sus, m)\<rbrakk> \<Longrightarrow>
    mutex_step \<mu> (set_pc t (if sus then Suspended w else Resuming False (Some w)) (\<mu>\<lparr>sm := m\<rparr>))"
| m_run: "\<lbrakk>t \<in> set (m_resumed (sm \<mu>)); pcs \<mu> t = Suspended w\<rbrakk> \<Longrightarrow>
    mutex_step \<mu> (set_pc t (Resuming False (Some w))
      (\<mu>\<lparr>sm := (sm \<mu>)\<lparr>m_resumed := remove1 t (m_resumed (sm \<mu>))\<rparr>\<rparr>))"
| m_resume_returns: "\<lbrakk>t < ntasks \<mu>; pcs \<mu> t = Resuming seen waiter; seen \<longrightarrow> canceled;
     m_await_resume canceled waiter (sm \<mu>) = Inr ()\<rbrakk> \<Longrightarrow> mutex_step \<mu> (set_pc t Holding \<mu>)"
| m_resume_throws: "\<lbrakk>t < ntasks \<mu>; pcs \<mu> t = Resuming seen waiter; seen \<longrightarrow> canceled;
     m_await_resume canceled waiter (sm \<mu>) = Inl e\<rbrakk> \<Longrightarrow>
    mutex_step \<mu> (set_pc t (Threw e) (\<mu>\<lparr>lost := lost \<mu> + m_owned (sm \<mu>) (Resuming seen waiter)\<rparr>))"
| m_unlock: "\<lbrakk>t < ntasks \<mu>; pcs \<mu> t = Holding; unlock_locked (sm \<mu>) = (Inr nxt, m)\<rbrakk> \<Longrightarrow>
    mutex_step \<mu> (set_pc t Idle (\<mu>\<lparr>sm := m,
      to_wake := to_wake \<mu> @ (case nxt of None \<Rightarrow> [] | Some w \<Rightarrow> [w])\<rparr>))"
| m_wake: "w \<in> set (to_wake \<mu>) \<Longrightarrow>
    mutex_step \<mu> (\<mu>\<lparr>sm := m_resume_after_marked_done w (sm \<mu>), to_wake := remove1 w (to_wake \<mu>)\<rparr>)"
| m_cancel: "w \<in> set (handlers \<mu>) \<Longrightarrow> mutex_step \<mu> (\<mu>\<lparr>sm := m_request_cancel w (sm \<mu>)\<rparr>)"
| m_cancel_mark: "\<lbrakk>w \<in> set (handlers \<mu>); cancel_requested (m_heap (sm \<mu>) w);
     pcs \<mu> (homes \<mu> w) \<noteq> Enqueueing w; m_try_mark_canceled w (sm \<mu>) = (True, m)\<rbrakk> \<Longrightarrow>
    mutex_step \<mu> (\<mu>\<lparr>sm := m, to_remove := w # to_remove \<mu>\<rparr>)"
| m_cancel_remove: "w \<in> set (to_remove \<mu>) \<Longrightarrow>
    mutex_step \<mu> (\<mu>\<lparr>sm := m_remove_waiter w (sm \<mu>), to_remove := remove1 w (to_remove \<mu>),
      to_wake := to_wake \<mu> @ [w]\<rparr>)"
| m_destroy_begin: "\<lbrakk>t < ntasks \<mu>; pcs \<mu> t = Suspended w; t \<notin> set (m_resumed (sm \<mu>))\<rbrakk> \<Longrightarrow>
    mutex_step \<mu> (set_pc t (Destroying w) (\<mu>\<lparr>sm := m_abandon_waiter w (sm \<mu>)\<rparr>))"
| m_destroy_end: "\<lbrakk>t < ntasks \<mu>; pcs \<mu> t = Destroying w\<rbrakk> \<Longrightarrow>
    mutex_step \<mu> (set_pc t Destroyed (\<mu>\<lparr>sm := m_destroy_awaiter w (sm \<mu>),
      lost := lost \<mu> + m_owned (sm \<mu>) (Destroying w)\<rparr>))"

section \<open>The mutex as a semaphore\<close>

definition sem_of :: "mutex \<Rightarrow> sem" where
  "sem_of m = \<lparr>permits = (if locked m then 0 else 1), waiters = m_waiters m, heap = m_heap m, next_waiter = m_next m,
     resumed = m_resumed m\<rparr>"

fun sem_exn :: "exn \<Rightarrow> exn" where
  "sem_exn (SignalException _) = SignalException ''corouv async semaphore acquire canceled''"
| "sem_exn _ = RuntimeError ''corouv::AsyncSemaphore acquire failed''"

fun sem_pc :: "pc \<Rightarrow> pc" where
  "sem_pc (Threw e) = Threw (sem_exn e)"
| "sem_pc p = p"

definition sem_sys_of :: "mutex lock_sys \<Rightarrow> sem_sys" where
  "sem_sys_of \<mu> = \<lparr>sm = sem_of (sm \<mu>), pcs = sem_pc \<circ> pcs \<mu>, ntasks = ntasks \<mu>, to_wake = to_wake \<mu>,
     to_remove = to_remove \<mu>, handlers = handlers \<mu>, homes = homes \<mu>, stock = stock \<mu>, lost = lost \<mu>\<rparr>"

lemma sem_of_simps [simp]:
  "waiters (sem_of m) = m_waiters m" "heap (sem_of m) = m_heap m" "next_waiter (sem_of m) = m_next m"
  "resumed (sem_of m) = m_resumed m" "permits (sem_of m) = (if locked m then 0 else 1)"
  by (simp_all add: sem_of_def)

lemma sem_sys_of_simps [simp]:
  "sm (sem_sys_of \<mu>) = sem_of (sm \<mu>)" "pcs (sem_sys_of \<mu>) t = sem_pc (pcs \<mu> t)" "ntasks (sem_sys_of \<mu>) = ntasks \<mu>"
  "to_wake (sem_sys_of \<mu>) = to_wake \<mu>" "to_remove (sem_sys_of \<mu>) = to_remove \<mu>" "handlers (sem_sys_of \<mu>) = handlers \<mu>"
  "homes (sem_sys_of \<mu>) = homes \<mu>" "stock (sem_sys_of \<mu>) = stock \<mu>" "lost (sem_sys_of \<mu>) = lost \<mu>"
  by (simp_all add: sem_sys_of_def)

lemma sem_pc_eq [simp]:
  "sem_pc p = Idle \<longleftrightarrow> p = Idle" "sem_pc p = Suspending \<longleftrightarrow> p = Suspending"
  "sem_pc p = Enqueueing w \<longleftrightarrow> p = Enqueueing w" "sem_pc p = Suspended w \<longleftrightarrow> p = Suspended w"
  "sem_pc p = Resuming b x \<longleftrightarrow> p = Resuming b x" "sem_pc p = Holding \<longleftrightarrow> p = Holding"
  "sem_pc p = Destroying w \<longleftrightarrow> p = Destroying w" "sem_pc p = Destroyed \<longleftrightarrow> p = Destroyed"
  by (cases p; simp)+

lemma sem_of_upd [simp]: "sem_of (m_upd_waiter w f m) = upd_waiter w f (sem_of m)"
  by (simp add: sem_of_def m_upd_waiter_def upd_waiter_def)

lemma sem_of_compact [simp]: "sem_of (m_compact m) = compact_waiters_locked (sem_of m)"
  by (simp add: sem_of_def m_compact_def compact_waiters_locked_def)

lemma sem_of_remove [simp]: "sem_of (m_remove_waiter w m) = remove_waiter w (sem_of m)"
  by (simp add: sem_of_def m_remove_waiter_def remove_waiter_def)

lemma sem_of_resume [simp]: "sem_of (m_resume_after_marked_done w m) = resume_after_marked_done w (sem_of m)"
  by (simp add: sem_of_def m_resume_after_marked_done_def resume_after_marked_done_def m_upd_waiter_def upd_waiter_def
    split: option.splits)

lemma sem_of_destroy [simp]:
  "sem_of (m_abandon_waiter w m) = abandon_waiter w (sem_of m)"
  "sem_of (m_destroy_awaiter w m) = destroy_awaiter w (sem_of m)"
  "sem_of (m_request_cancel w m) = request_cancel w (sem_of m)"
  by (simp_all add: m_abandon_waiter_def abandon_waiter_def m_destroy_awaiter_def destroy_awaiter_def
    m_request_cancel_def request_cancel_def)

lemma sem_of_try_lock: "try_acquire (sem_of m) = map_prod id sem_of (try_lock m)"
  by (simp add: try_acquire_def try_lock_def Let_def m_compact_def compact_waiters_locked_def sem_of_def)

lemma sem_of_await_ready: "await_ready c (sem_of m) = map_prod id sem_of (m_await_ready c m)"
  by (simp add: await_ready_def m_await_ready_def sem_of_try_lock)

lemma sem_of_make_waiter: "make_waiter t (sem_of m) = map_prod id sem_of (m_make_waiter t m)"
  by (simp add: make_waiter_def m_make_waiter_def sem_of_def)

lemma sem_of_enqueue: "enqueue_waiter w (sem_of m) = map_prod id sem_of (m_enqueue_waiter w m)"
  by (simp add: enqueue_waiter_def m_enqueue_waiter_def Let_def m_compact_def compact_waiters_locked_def sem_of_def
    m_upd_waiter_def upd_waiter_def)

lemma sem_of_try_mark_canceled: "try_mark_canceled w (sem_of m) = map_prod id sem_of (m_try_mark_canceled w m)"
  by (simp add: try_mark_canceled_def m_try_mark_canceled_def)

lemma sem_of_cancel_on_executor: "sem_of (m_cancel_on_executor w m) = cancel_on_executor w (sem_of m)"
  by (simp add: cancel_on_executor_def m_cancel_on_executor_def try_mark_canceled_def m_try_mark_canceled_def)

lemma sem_of_await_resume:
  "await_resume c waiter (sem_of m) = map_sum sem_exn id (m_await_resume c waiter m)"
  by (simp add: await_resume_def m_await_resume_def split: option.splits)

lemma m_owned_eq: "m_owned m (Resuming seen waiter) = owned (sem_of m) (Resuming seen waiter)"
  "m_owned m (Destroying w) = owned (sem_of m) (Destroying w)"
  by (cases waiter; simp)+

lemma unlock_loop_compact:
  "unlock_loop (m_compact m) = (case live (sem_of m) of
     [] \<Rightarrow> (None, m\<lparr>m_waiters := []\<rparr>)
   | w # ws \<Rightarrow> (Some w, m_upd_waiter w (\<lambda>x. x\<lparr>is_done := True, granted := True\<rparr>) (m\<lparr>m_waiters := ws\<rparr>)))"
proof (cases "live (sem_of m)")
  case Nil
  have "m_compact m = m\<lparr>m_waiters := live (sem_of m)\<rparr>" by (simp add: m_compact_def live_def)
  with Nil show ?thesis by (subst unlock_loop.simps) simp
next
  case (Cons w ws)
  have c: "m_compact m = m\<lparr>m_waiters := live (sem_of m)\<rparr>" by (simp add: m_compact_def live_def)
  from Cons have "w \<in> set (live (sem_of m))" by simp
  then have "\<not> is_done (m_heap m w)" by (simp add: live_def)
  with c Cons show ?thesis by (subst unlock_loop.simps) (simp add: m_try_mark_granted_def m_upd_waiter_def)
qed

lemma sem_of_unlock:
  assumes "unlock_locked m = (Inr nxt, m')" "distinct (m_waiters m)"
  shows "release_locked 1 (sem_of m) = (Inr (case nxt of None \<Rightarrow> [] | Some w \<Rightarrow> [w]), sem_of m')"
proof -
  have l: "locked m" using assms(1) by (auto simp: unlock_locked_def split: if_splits)
  have "release_locked 1 (sem_of m) = (Inr (take 1 (live (sem_of m))),
    (sem_of m)\<lparr>permits := 1 - length (live (sem_of m)), waiters := drop 1 (live (sem_of m)),
      heap := grant_all (take 1 (live (sem_of m))) (m_heap m)\<rparr>)"
    using release_locked_grants[of "sem_of m" 1] assms(2) l by (simp add: size_max_def)
  then show ?thesis
    using assms(1) l
    by (cases "live (sem_of m)")
       (auto simp: unlock_locked_def unlock_loop_compact sem_of_def m_upd_waiter_def grant_all_def fun_eq_iff)
qed

lemma sem_sys_of_set_pc: "sem_sys_of (set_pc t p \<mu>) = set_pc t (sem_pc p) (sem_sys_of \<mu>)"
  by (simp add: sem_sys_of_def set_pc_def fun_eq_iff)

lemma sem_sys_of_upd:
  "sem_sys_of (\<mu>\<lparr>sm := m\<rparr>) = (sem_sys_of \<mu>)\<lparr>sm := sem_of m\<rparr>"
  "sem_sys_of (\<mu>\<lparr>homes := hm\<rparr>) = (sem_sys_of \<mu>)\<lparr>homes := hm\<rparr>"
  "sem_sys_of (\<mu>\<lparr>handlers := hs\<rparr>) = (sem_sys_of \<mu>)\<lparr>handlers := hs\<rparr>"
  "sem_sys_of (\<mu>\<lparr>to_wake := tw\<rparr>) = (sem_sys_of \<mu>)\<lparr>to_wake := tw\<rparr>"
  "sem_sys_of (\<mu>\<lparr>to_remove := tr\<rparr>) = (sem_sys_of \<mu>)\<lparr>to_remove := tr\<rparr>"
  "sem_sys_of (\<mu>\<lparr>lost := l\<rparr>) = (sem_sys_of \<mu>)\<lparr>lost := l\<rparr>"
  by (simp_all add: sem_sys_of_def)

lemma sem_of_resumed_upd: "sem_of (m\<lparr>m_resumed := r\<rparr>) = (sem_of m)\<lparr>resumed := r\<rparr>"
  by (simp add: sem_of_def)

lemmas sem_sys_upds = sem_sys_of_set_pc sem_sys_of_upd sem_of_resumed_upd

lemma mutex_step_sim:
  assumes "mutex_step \<mu> \<mu>'" "sem_inv (sem_sys_of \<mu>)"
  shows "sem_step (sem_sys_of \<mu>) (sem_sys_of \<mu>')"
  using assms
proof (induction rule: mutex_step.induct)
  case (m_ready t \<mu> canceled rd m)
  then show ?case using ready[of t "sem_sys_of \<mu>" canceled rd "sem_of m"]
    by (cases rd) (simp_all add: sem_sys_upds sem_of_await_ready)
next
  case (m_emplace t \<mu> w m)
  then show ?case using emplace[of t "sem_sys_of \<mu>" w "sem_of m"] by (simp add: sem_sys_upds sem_of_make_waiter)
next
  case (m_emplace_refused t \<mu> w m)
  then show ?case using emplace_refused[of t "sem_sys_of \<mu>" w "sem_of m"]
    by (simp add: sem_sys_upds sem_of_make_waiter)
next
  case (m_enqueue t \<mu> w sus m)
  then show ?case using enqueue[of t "sem_sys_of \<mu>" w sus "sem_of m"]
    by (cases sus) (simp_all add: sem_sys_upds sem_of_enqueue)
next
  case (m_run t \<mu> w)
  then show ?case using run[of t "sem_sys_of \<mu>" w] by (simp add: sem_sys_upds)
next
  case (m_resume_returns t \<mu> seen waiter canceled)
  then show ?case using resume_returns[of t "sem_sys_of \<mu>" seen waiter canceled]
    by (simp add: sem_sys_upds sem_of_await_resume)
next
  case (m_resume_throws t \<mu> seen waiter canceled e)
  then show ?case using resume_throws[of t "sem_sys_of \<mu>" seen waiter canceled "sem_exn e"]
    by (simp add: sem_sys_upds sem_of_await_resume m_owned_eq)
next
  case (m_unlock t \<mu> nxt m)
  have "distinct (m_waiters (sm \<mu>))" using m_unlock(4) by (simp add: sem_inv_def addrs_ok_def)
  from sem_of_unlock[OF m_unlock(3) this] m_unlock(1,2) show ?case
    using give_back[of t "sem_sys_of \<mu>" "case nxt of None \<Rightarrow> [] | Some w \<Rightarrow> [w]" "sem_of m"]
    by (simp add: sem_sys_upds)
next
  case (m_wake w \<mu>)
  then show ?case using wake[of w "sem_sys_of \<mu>"] by (simp add: sem_sys_upds)
next
  case (m_cancel w \<mu>)
  then show ?case using cancel[of w "sem_sys_of \<mu>"] by (simp add: sem_sys_upds)
next
  case (m_cancel_mark w \<mu> m)
  then show ?case using cancel_mark[of w "sem_sys_of \<mu>" "sem_of m"]
    by (simp add: sem_sys_upds sem_of_try_mark_canceled)
next
  case (m_cancel_remove w \<mu>)
  then show ?case using cancel_remove[of w "sem_sys_of \<mu>"] by (simp add: sem_sys_upds)
next
  case (m_destroy_begin t \<mu> w)
  then show ?case using destroy_begin[of t "sem_sys_of \<mu>" w] by (simp add: sem_sys_upds)
next
  case (m_destroy_end t \<mu> w)
  then show ?case using destroy_end[of t "sem_sys_of \<mu>" w] by (simp add: sem_sys_upds m_owned_eq)
qed

lemma mutex_init_sim: "mutex_init \<mu> \<Longrightarrow> sem_init (sem_sys_of \<mu>)"
  by (auto simp: mutex_init_def sem_init_def sem_of_def AsyncMutex_def semaphore_def fun_eq_iff)

interpretation mutex_run: invariant_system mutex_init mutex_step "\<lambda>\<mu>. sem_inv (sem_sys_of \<mu>) \<and> stock \<mu> = 1"
proof unfold_locales
  fix \<mu>
  assume "mutex_init \<mu>"
  then show "sem_inv (sem_sys_of \<mu>) \<and> stock \<mu> = 1"
    using sem_run.init_good[OF mutex_init_sim] by (simp add: mutex_init_def)
next
  fix \<mu> \<mu>'
  assume a: "sem_inv (sem_sys_of \<mu>) \<and> stock \<mu> = 1" "mutex_step \<mu> \<mu>'"
  have "stock \<mu>' = stock \<mu>" using a(2) by (induction rule: mutex_step.induct) simp_all
  then show "sem_inv (sem_sys_of \<mu>') \<and> stock \<mu>' = 1"
    using sem_run.step_good[OF _ mutex_step_sim[OF a(2)]] a(1) by simp
qed

text \<open>C15: The mutex is a semaphore with one permit: whatever state a run of the mutex reaches, the semaphore
  started with one permit reaches its image.\<close>

theorem mutex_refines_semaphore:
  assumes "reachable mutex_init mutex_step \<mu>"
  shows "reachable sem_init sem_step (sem_sys_of \<mu>)"
  using assms
proof (induction rule: reachable.induct)
  case (start \<mu>)
  then show ?case by - (rule reachable.start, rule mutex_init_sim)
next
  case (next_state \<mu> \<mu>')
  have "sem_inv (sem_sys_of \<mu>)" using mutex_run.reachable_good[OF next_state(1)] by simp
  from mutex_step_sim[OF next_state(2) this] show ?case by (rule reachable.next_state[OF next_state(3)])
qed

lemma mutex_at_most_one:
  assumes "reachable mutex_init mutex_step \<mu>" "pcs \<mu> t = Holding"
  shows "locked (sm \<mu>)" "lost \<mu> = 0" "pcs \<mu> t' = Holding \<Longrightarrow> t' = t"
proof -
  have i: "sem_inv (sem_sys_of \<mu>)" "stock \<mu> = 1" using mutex_run.reachable_good[OF assms(1)] by auto
  let ?own = "\<lambda>t. owned (sem_of (sm \<mu>)) (sem_pc (pcs \<mu> t))"
  have b: "(if locked (sm \<mu>) then 0 else 1) + (\<Sum>t<ntasks \<mu>. ?own t) + lost \<mu> = 1"
    using i by (simp add: sem_inv_def sem_balance_def)
  have in_range: "x < ntasks \<mu>" if "pcs \<mu> x = Holding" for x
    using i(1) that by (auto simp: sem_inv_def tasks_ok_def)
  have "1 \<le> (\<Sum>t<ntasks \<mu>. ?own t)"
    using member_le_sum[of t "{..<ntasks \<mu>}" ?own] assms(2) in_range[OF assms(2)] by simp
  with b show "locked (sm \<mu>)" "lost \<mu> = 0" by (auto split: if_splits)
  show "t' = t" if h: "pcs \<mu> t' = Holding"
  proof (rule ccontr)
    assume "t' \<noteq> t"
    then have "sum ?own {t, t'} = 2" using assms(2) h by simp
    moreover have "sum ?own {t, t'} \<le> (\<Sum>t<ntasks \<mu>. ?own t)"
      using in_range[OF assms(2)] in_range[OF h] by (intro sum_mono2) auto
    ultimately show False using b by simp
  qed
qed

text \<open>C5: Mutual exclusion: at most one task holds the mutex, and while one does the mutex is locked.\<close>

theorem mutual_exclusion:
  assumes "reachable mutex_init mutex_step \<mu>" "pcs \<mu> t = Holding" "pcs \<mu> t' = Holding"
  shows "t' = t \<and> locked (sm \<mu>)"
  using mutex_at_most_one[OF assms(1,2)] assms(3) by blast

definition sample_mutex :: "mutex lock_sys" where
  "sample_mutex = \<lparr>sm = AsyncMutex, pcs = (\<lambda>_. Idle), ntasks = 2, to_wake = [], to_remove = [], handlers = [],
     homes = (\<lambda>_. 0), stock = 1, lost = 0\<rparr>"

lemma sample_mutex_locks:
  "reachable mutex_init mutex_step
    (set_pc 0 Holding (set_pc 0 (Resuming False None) (sample_mutex\<lparr>sm := AsyncMutex\<lparr>locked := True\<rparr>\<rparr>)))"
proof -
  let ?s1 = "set_pc 0 (if True then Resuming False None else Suspending) (sample_mutex\<lparr>sm := AsyncMutex\<lparr>locked := True\<rparr>\<rparr>)"
  have "reachable mutex_init mutex_step sample_mutex" by (rule start) (simp add: mutex_init_def sample_mutex_def)
  moreover have "mutex_step sample_mutex ?s1"
    by (rule m_ready) (simp_all add: sample_mutex_def m_await_ready_def try_lock_def m_compact_def AsyncMutex_def)
  moreover have "mutex_step ?s1 (set_pc 0 Holding ?s1)"
    by (rule m_resume_returns[where seen = False and waiter = None and canceled = False])
       (simp_all add: sample_mutex_def m_await_resume_def)
  ultimately show ?thesis by (auto intro: next_state)
qed

theorem mutex_refines_semaphore_witness:
  "\<exists>\<mu>. reachable mutex_init mutex_step \<mu> \<and> pcs \<mu> 0 = Holding \<and> reachable sem_init sem_step (sem_sys_of \<mu>)"
  using sample_mutex_locks mutex_refines_semaphore[OF sample_mutex_locks]
  by (intro exI[of _ "set_pc 0 Holding (set_pc 0 (Resuming False None) (sample_mutex\<lparr>sm := AsyncMutex\<lparr>locked := True\<rparr>\<rparr>))"])
     simp

theorem mutual_exclusion_witness:
  "\<exists>\<mu> t. reachable mutex_init mutex_step \<mu> \<and> pcs \<mu> t = Holding \<and> locked (sm \<mu>)"
proof -
  let ?\<mu> = "set_pc 0 Holding (set_pc 0 (Resuming False None) (sample_mutex\<lparr>sm := AsyncMutex\<lparr>locked := True\<rparr>\<rparr>))"
  have h: "pcs ?\<mu> 0 = Holding" by simp
  from mutual_exclusion[OF sample_mutex_locks h h] h sample_mutex_locks show ?thesis by blast
qed

end
