(* ===== verification/Async_Queue.thy ===== *)
theory Async_Queue
  imports Async_Semaphore
begin

text \<open>
  AsyncQueue (src/include/corouv/async_queue.h): a bounded FIFO queue over two
  semaphores, one counting the items and, for a bounded queue, one counting
  the free slots; and DatagramChannel (src/include/corouv/datagram_channel.h),
  a queue of datagrams filled by pump.  The first part translates the
  non-blocking operations and shows that they refine a bounded list; the
  second runs push and pop concurrently over any pool of permits that keeps
  its count, and is used with the semaphore.
\<close>

section \<open>The non-blocking operations\<close>

record 'a async_queue =
  capacity :: nat
  items :: sem
  slots :: "sem option"
  elems :: "'a list"

definition AsyncQueue :: "nat \<Rightarrow> 'a async_queue" where
  "AsyncQueue cap = \<lparr>capacity = cap, items = semaphore 0,
     slots = (if cap \<noteq> size_max then Some (semaphore cap) else None), elems = []\<rparr>"

definition bounded :: "'a async_queue \<Rightarrow> bool" where
  "bounded q \<longleftrightarrow> slots q \<noteq> None"

definition release_items :: "'a async_queue \<Rightarrow> unit result \<times> 'a async_queue" where
  "release_items q = (case release 1 (items q) of (r, s) \<Rightarrow> (r, q\<lparr>items := s\<rparr>))"

definition release_slot :: "'a async_queue \<Rightarrow> unit result \<times> 'a async_queue" where
  "release_slot q = (case slots q of
     None \<Rightarrow> (Inr (), q)
   | Some s \<Rightarrow> (case release 1 s of (r, s') \<Rightarrow> (r, q\<lparr>slots := Some s'\<rparr>)))"

definition take_slot :: "'a async_queue \<Rightarrow> bool \<times> 'a async_queue" where
  "take_slot q = (case slots q of
     None \<Rightarrow> (True, q)
   | Some s \<Rightarrow> (case try_acquire s of (ok, s') \<Rightarrow> (ok, q\<lparr>slots := Some s'\<rparr>)))"

definition try_push :: "'a \<Rightarrow> 'a async_queue \<Rightarrow> bool result \<times> 'a async_queue" where
  "try_push value q = (case take_slot q of
     (False, q1) \<Rightarrow> (Inr False, q1)
   | (True, q1) \<Rightarrow>
       (case release_items (q1\<lparr>elems := elems q1 @ [value]\<rparr>) of
          (Inl e, q2) \<Rightarrow> (Inl e, q2)
        | (Inr _, q2) \<Rightarrow> (Inr True, q2)))"

definition try_pop :: "'a async_queue \<Rightarrow> 'a option result \<times> 'a async_queue" where
  "try_pop q = (case try_acquire (items q) of
     (False, s) \<Rightarrow> (Inr None, q\<lparr>items := s\<rparr>)
   | (True, s) \<Rightarrow>
       (let q1 = q\<lparr>items := s\<rparr> in
        case elems q1 of
          [] \<Rightarrow> (case release_items q1 of (Inl e, q2) \<Rightarrow> (Inl e, q2) | (Inr _, q2) \<Rightarrow> (Inr None, q2))
        | x # xs \<Rightarrow>
            (case release_slot (q1\<lparr>elems := xs\<rparr>) of
               (Inl e, q2) \<Rightarrow> (Inl e, q2)
             | (Inr _, q2) \<Rightarrow> (Inr (Some x), q2))))"

definition is_empty :: "'a async_queue \<Rightarrow> bool" where
  "is_empty q \<longleftrightarrow> elems q = []"

definition queue_size :: "'a async_queue \<Rightarrow> nat" where
  "queue_size q = length (elems q)"

section \<open>Refinement to a bounded list\<close>

text \<open>
  A queue at rest: no task waits on a semaphore, every element has its item
  permit and every other place its slot permit.
\<close>

definition at_rest :: "'a async_queue \<Rightarrow> bool" where
  "at_rest q \<longleftrightarrow> waiters (items q) = [] \<and> permits (items q) = length (elems q) \<and> length (elems q) < size_max \<and>
     (case slots q of
        None \<Rightarrow> capacity q = size_max
      | Some s \<Rightarrow> capacity q < size_max \<and> waiters s = [] \<and> permits s + length (elems q) = capacity q)"

definition list_push :: "nat \<Rightarrow> 'a \<Rightarrow> 'a list \<Rightarrow> bool \<times> 'a list" where
  "list_push cap x xs = (if length xs < cap then (True, xs @ [x]) else (False, xs))"

definition list_pop :: "'a list \<Rightarrow> 'a option \<times> 'a list" where
  "list_pop xs = (case xs of [] \<Rightarrow> (None, []) | x # ys \<Rightarrow> (Some x, ys))"

lemma release_idle:
  assumes "waiters s = []" "permits s < size_max"
  shows "release (Suc 0) s = (Inr (), s\<lparr>permits := Suc (permits s)\<rparr>)"
  using release_locked_grants[of s "Suc 0"] assms
  by (simp add: release_def live_def grant_all_def[abs_def])

lemma try_acquire_idle:
  assumes "waiters s = []"
  shows "try_acquire s = (if permits s = 0 then (False, s) else (True, s\<lparr>permits := permits s - 1\<rparr>))"
  using assms by (simp add: try_acquire_def compact_waiters_locked_def Let_def)

lemma AsyncQueue_at_rest: "cap \<le> size_max \<Longrightarrow> at_rest (AsyncQueue cap)"
  by (auto simp: at_rest_def AsyncQueue_def semaphore_def size_max_def)

lemma try_push_rest:
  assumes "at_rest q" "length (elems q) + 1 < size_max"
  shows "\<exists>q'. try_push x q = (Inr (fst (list_push (capacity q) x (elems q))), q') \<and>
    elems q' = snd (list_push (capacity q) x (elems q)) \<and> at_rest q' \<and> capacity q' = capacity q"
proof (cases "slots q")
  case None
  with assms show ?thesis
    by (auto simp: at_rest_def try_push_def take_slot_def release_items_def release_idle list_push_def)
next
  case (Some s)
  with assms show ?thesis
    by (auto simp: at_rest_def try_push_def take_slot_def release_items_def release_idle try_acquire_idle list_push_def)
qed

lemma try_pop_rest:
  assumes "at_rest q"
  shows "\<exists>q'. try_pop q = (Inr (fst (list_pop (elems q))), q') \<and> elems q' = snd (list_pop (elems q)) \<and> at_rest q' \<and>
    capacity q' = capacity q"
proof (cases "slots q")
  case None
  with assms show ?thesis
    by (auto simp: at_rest_def try_pop_def release_slot_def release_items_def release_idle try_acquire_idle list_pop_def
      split: list.splits)
next
  case (Some s)
  with assms show ?thesis
    by (auto simp: at_rest_def try_pop_def release_slot_def release_items_def release_idle try_acquire_idle list_pop_def
      split: list.splits)
qed

section \<open>Any sequence of non-blocking operations\<close>

datatype 'a queue_op = TryPush 'a | TryPop

datatype 'a queue_answer = Pushed bool | Popped "'a option" | Failed exn

fun run_op :: "'a queue_op \<Rightarrow> 'a async_queue \<Rightarrow> 'a queue_answer \<times> 'a async_queue" where
  "run_op (TryPush x) q = (case try_push x q of (Inl e, q') \<Rightarrow> (Failed e, q') | (Inr b, q') \<Rightarrow> (Pushed b, q'))"
| "run_op TryPop q = (case try_pop q of (Inl e, q') \<Rightarrow> (Failed e, q') | (Inr r, q') \<Rightarrow> (Popped r, q'))"

fun run_ops :: "'a queue_op list \<Rightarrow> 'a async_queue \<Rightarrow> 'a queue_answer list \<times> 'a async_queue" where
  "run_ops [] q = ([], q)"
| "run_ops (op # ops) q = (let (a, q1) = run_op op q; (as, q2) = run_ops ops q1 in (a # as, q2))"

fun list_op :: "nat \<Rightarrow> 'a queue_op \<Rightarrow> 'a list \<Rightarrow> 'a queue_answer \<times> 'a list" where
  "list_op cap (TryPush x) xs = (case list_push cap x xs of (b, ys) \<Rightarrow> (Pushed b, ys))"
| "list_op cap TryPop xs = (case list_pop xs of (r, ys) \<Rightarrow> (Popped r, ys))"

fun list_ops :: "nat \<Rightarrow> 'a queue_op list \<Rightarrow> 'a list \<Rightarrow> 'a queue_answer list \<times> 'a list" where
  "list_ops cap [] xs = ([], xs)"
| "list_ops cap (op # ops) xs = (let (a, ys) = list_op cap op xs; (as, zs) = list_ops cap ops ys in (a # as, zs))"

lemma run_op_rest:
  assumes "at_rest q" "length (elems q) + 1 < size_max"
  shows "fst (run_op op q) = fst (list_op (capacity q) op (elems q))"
    "elems (snd (run_op op q)) = snd (list_op (capacity q) op (elems q))"
    "at_rest (snd (run_op op q))" "capacity (snd (run_op op q)) = capacity q"
    "length (elems (snd (run_op op q))) \<le> length (elems q) + 1"
proof -
  have "fst (run_op op q) = fst (list_op (capacity q) op (elems q)) \<and>
    elems (snd (run_op op q)) = snd (list_op (capacity q) op (elems q)) \<and>
    at_rest (snd (run_op op q)) \<and> capacity (snd (run_op op q)) = capacity q"
  proof (cases op)
    case (TryPush x)
    with try_push_rest[OF assms, of x] show ?thesis by (auto split: prod.splits)
  next
    case TryPop
    with try_pop_rest[OF assms(1)] show ?thesis by (auto split: prod.splits)
  qed
  moreover have "length (snd (list_op (capacity q) op (elems q))) \<le> length (elems q) + 1"
    by (cases op) (auto simp: list_push_def list_pop_def split: list.splits)
  ultimately show "fst (run_op op q) = fst (list_op (capacity q) op (elems q))"
    "elems (snd (run_op op q)) = snd (list_op (capacity q) op (elems q))"
    "at_rest (snd (run_op op q))" "capacity (snd (run_op op q)) = capacity q"
    "length (elems (snd (run_op op q))) \<le> length (elems q) + 1"
    by auto
qed

lemma run_ops_rest:
  assumes "at_rest q" "length (elems q) + length ops < size_max"
  shows "fst (run_ops ops q) = fst (list_ops (capacity q) ops (elems q)) \<and>
    elems (snd (run_ops ops q)) = snd (list_ops (capacity q) ops (elems q))"
  using assms
proof (induction ops arbitrary: q)
  case (Cons op ops)
  obtain a q1 where r: "run_op op q = (a, q1)" by force
  have o: "length (elems q) + 1 < size_max" using Cons.prems(2) by simp
  note f = run_op_rest[OF Cons.prems(1) o, of op, unfolded r, simplified]
  have l: "length (elems q1) + length ops < size_max" using f(5) Cons.prems(2) by simp
  have "list_op (capacity q) op (elems q) = (a, elems q1)" using f(1,2) by (simp add: prod_eq_iff)
  then show ?case using Cons.IH[OF f(3) l] f(4) r by (auto split: prod.splits)
qed simp

text \<open>C16: On a queue without blocked tasks the non-blocking operations behave as a bounded FIFO list: any
  sequence of try_push and try_pop returns exactly the answers of a list that refuses a push at its
  capacity, and none of them throws.\<close>

theorem try_ops_refine_list:
  assumes "cap \<le> size_max" "length ops < size_max"
  shows "fst (run_ops ops (AsyncQueue cap)) = fst (list_ops cap ops []) \<and>
    elems (snd (run_ops ops (AsyncQueue cap))) = snd (list_ops cap ops [])"
  using run_ops_rest[OF AsyncQueue_at_rest[OF assms(1)], of ops] assms(2) by (simp add: AsyncQueue_def)

theorem try_ops_refine_list_witness:
  "fst (run_ops [TryPush 1, TryPush 2, TryPush (3::nat), TryPop, TryPop, TryPop] (AsyncQueue 2)) =
    [Pushed True, Pushed True, Pushed False, Popped (Some 1), Popped (Some 2), Popped None]"
proof -
  have "fst (run_ops [TryPush 1, TryPush 2, TryPush (3::nat), TryPop, TryPop, TryPop] (AsyncQueue 2)) =
    fst (list_ops 2 [TryPush 1, TryPush 2, TryPush (3::nat), TryPop, TryPop, TryPop] [])"
    using try_ops_refine_list[of 2 "[TryPush 1, TryPush 2, TryPush (3::nat), TryPop, TryPop, TryPop]"]
    by (simp add: size_max_def)
  then show ?thesis by (simp add: list_push_def list_pop_def)
qed

section \<open>Blocking operations, concurrently\<close>

text \<open>
  A run of a queue: pushing holds the values of the calls of push and try_push
  that have their slot and have not yet inserted, unannounced counts those
  that have inserted and not yet released the item permit; popping counts the
  calls of pop and try_pop that have an item permit and have not yet removed,
  vacated those that have removed and not yet released the slot.  inserted
  and removed are the values inserted and removed so far, underflows the
  internal errors of pop.
\<close>

record ('a, 'p) queue_sys =
  item_pool :: 'p
  slot_pool :: "'p option"
  contents :: "'a list"
  pushing :: "'a list"
  unannounced :: nat
  popping :: nat
  vacated :: nat
  inserted :: "'a list"
  removed :: "'a list"
  underflows :: nat

text \<open>
  The steps over a pool of permits: take gives one permit to a caller for
  good, give releases one, and tau is any other step of the pool (tasks that
  suspend, are woken, canceled or destroyed).
\<close>

inductive queue_step :: "('p \<Rightarrow> 'p \<Rightarrow> bool) \<Rightarrow> ('p \<Rightarrow> 'p \<Rightarrow> bool) \<Rightarrow> ('p \<Rightarrow> 'p \<Rightarrow> bool) \<Rightarrow>
    ('a, 'p) queue_sys \<Rightarrow> ('a, 'p) queue_sys \<Rightarrow> bool"
  for take_permit give_permit tau where
  get_slot: "\<lbrakk>slot_pool q = Some p; take_permit p p'\<rbrakk> \<Longrightarrow>
    queue_step take_permit give_permit tau q (q\<lparr>slot_pool := Some p', pushing := v # pushing q\<rparr>)"
| no_slot: "slot_pool q = None \<Longrightarrow>
    queue_step take_permit give_permit tau q (q\<lparr>pushing := v # pushing q\<rparr>)"
| push_back: "v \<in> set (pushing q) \<Longrightarrow>
    queue_step take_permit give_permit tau q (q\<lparr>contents := contents q @ [v], pushing := remove1 v (pushing q),
      unannounced := unannounced q + 1, inserted := inserted q @ [v]\<rparr>)"
| push_back_throws: "\<lbrakk>v \<in> set (pushing q); slot_pool q = Some p; give_permit p p'\<rbrakk> \<Longrightarrow>
    queue_step take_permit give_permit tau q (q\<lparr>slot_pool := Some p', pushing := remove1 v (pushing q)\<rparr>)"
| push_back_throws_unbounded: "\<lbrakk>v \<in> set (pushing q); slot_pool q = None\<rbrakk> \<Longrightarrow>
    queue_step take_permit give_permit tau q (q\<lparr>pushing := remove1 v (pushing q)\<rparr>)"
| announce: "\<lbrakk>unannounced q = Suc n; give_permit (item_pool q) p'\<rbrakk> \<Longrightarrow>
    queue_step take_permit give_permit tau q (q\<lparr>item_pool := p', unannounced := n\<rparr>)"
| get_item: "take_permit (item_pool q) p' \<Longrightarrow>
    queue_step take_permit give_permit tau q (q\<lparr>item_pool := p', popping := popping q + 1\<rparr>)"
| pop_front: "\<lbrakk>popping q = Suc n; contents q = v # vs\<rbrakk> \<Longrightarrow>
    queue_step take_permit give_permit tau q (q\<lparr>contents := vs, popping := n, vacated := vacated q + 1,
      removed := removed q @ [v]\<rparr>)"
| underflow: "\<lbrakk>popping q = Suc n; contents q = []; give_permit (item_pool q) p'\<rbrakk> \<Longrightarrow>
    queue_step take_permit give_permit tau q (q\<lparr>item_pool := p', popping := n, underflows := underflows q + 1\<rparr>)"
| free_slot: "\<lbrakk>vacated q = Suc n; slot_pool q = Some p; give_permit p p'\<rbrakk> \<Longrightarrow>
    queue_step take_permit give_permit tau q (q\<lparr>slot_pool := Some p', vacated := n\<rparr>)"
| free_no_slot: "\<lbrakk>vacated q = Suc n; slot_pool q = None\<rbrakk> \<Longrightarrow>
    queue_step take_permit give_permit tau q (q\<lparr>vacated := n\<rparr>)"
| item_tau: "tau (item_pool q) p' \<Longrightarrow> queue_step take_permit give_permit tau q (q\<lparr>item_pool := p'\<rparr>)"
| slot_tau: "\<lbrakk>slot_pool q = Some p; tau p p'\<rbrakk> \<Longrightarrow>
    queue_step take_permit give_permit tau q (q\<lparr>slot_pool := Some p'\<rparr>)"

definition queue_init :: "(nat \<Rightarrow> 'p \<Rightarrow> bool) \<Rightarrow> nat \<Rightarrow> ('a, 'p) queue_sys \<Rightarrow> bool" where
  "queue_init pool_init cap q \<longleftrightarrow> pool_init 0 (item_pool q) \<and>
     (case slot_pool q of None \<Rightarrow> cap = size_max | Some p \<Rightarrow> cap \<noteq> size_max \<and> pool_init cap p) \<and>
     contents q = [] \<and> pushing q = [] \<and> unannounced q = 0 \<and> popping q = 0 \<and> vacated q = 0 \<and>
     inserted q = [] \<and> removed q = [] \<and> underflows q = 0"

lemma length_by_remove1: "v \<in> set xs \<Longrightarrow> length xs = Suc (length (remove1 v xs))"
  by (induction xs) auto

text \<open>What the queue relies on: the pool counts its permits.\<close>

locale permit_pool =
  fixes pool_init :: "nat \<Rightarrow> 'p \<Rightarrow> bool" and take_permit :: "'p \<Rightarrow> 'p \<Rightarrow> bool" and give_permit :: "'p \<Rightarrow> 'p \<Rightarrow> bool"
    and tau :: "'p \<Rightarrow> 'p \<Rightarrow> bool" and pool_ok :: "'p \<Rightarrow> bool" and level :: "'p \<Rightarrow> nat"
  assumes pool_start: "pool_init n p \<Longrightarrow> pool_ok p \<and> level p = n"
    and pool_take: "pool_ok p \<Longrightarrow> take_permit p p' \<Longrightarrow> pool_ok p' \<and> level p = Suc (level p')"
    and pool_give: "pool_ok p \<Longrightarrow> give_permit p p' \<Longrightarrow> pool_ok p' \<and> level p' = Suc (level p)"
    and pool_tau: "pool_ok p \<Longrightarrow> tau p p' \<Longrightarrow> pool_ok p' \<and> level p' = level p"
begin

definition queue_good :: "nat \<Rightarrow> ('a, 'p) queue_sys \<Rightarrow> bool" where
  "queue_good cap q \<longleftrightarrow> pool_ok (item_pool q) \<and>
     level (item_pool q) + popping q + unannounced q = length (contents q) \<and>
     (case slot_pool q of
        None \<Rightarrow> cap = size_max
      | Some p \<Rightarrow> pool_ok p \<and> level p + length (pushing q) + length (contents q) + vacated q = cap) \<and>
     inserted q = removed q @ contents q \<and> underflows q = 0"

lemma queue_good_step:
  assumes "queue_step take_permit give_permit tau q q'" "queue_good cap q"
  shows "queue_good cap q'"
  using assms
proof (induction rule: queue_step.induct)
  case (push_back_throws v q p p')
  then show ?case using pool_give[of p p'] length_by_remove1[of v "pushing q"] by (auto simp: queue_good_def)
qed (auto simp: queue_good_def dest: pool_take pool_give pool_tau length_by_remove1 split: option.splits)

lemma queue_good_init: "queue_init pool_init cap q \<Longrightarrow> queue_good cap q"
  by (auto simp: queue_init_def queue_good_def dest: pool_start split: option.splits)

lemma queue_good_reachable:
  assumes "reachable (queue_init pool_init cap) (queue_step take_permit give_permit tau) q"
  shows "queue_good cap q"
  using assms by (induction rule: reachable.induct) (auto intro: queue_good_init queue_good_step)

lemma queue_safe:
  assumes "reachable (queue_init pool_init cap) (queue_step take_permit give_permit tau) q"
  shows "length (contents q) \<le> cap \<or> slot_pool q = None" "inserted q = removed q @ contents q" "underflows q = 0"
    "popping q \<le> length (contents q)" "level (item_pool q) + popping q + unannounced q = length (contents q)"
  using queue_good_reachable[OF assms] by (auto simp: queue_good_def split: option.splits)

end

section \<open>The semaphore as a pool\<close>

text \<open>
  The count of the pool is the stock of the semaphore: its permits that are
  not taken away for good, whether free, granted to a task or lost.
\<close>

definition sem_pool_init :: "nat \<Rightarrow> sem_sys \<Rightarrow> bool" where
  "sem_pool_init n \<sigma> \<longleftrightarrow> sem_init \<sigma> \<and> stock \<sigma> = n"

definition sem_take :: "sem_sys \<Rightarrow> sem_sys \<Rightarrow> bool" where
  "sem_take \<sigma> \<sigma>' \<longleftrightarrow>
     (\<exists>t<ntasks \<sigma>. pcs \<sigma> t = Holding \<and> \<sigma>' = set_pc t Idle (\<sigma>\<lparr>stock := stock \<sigma> - 1\<rparr>)) \<or>
     (\<exists>s. try_acquire (sm \<sigma>) = (True, s) \<and> \<sigma>' = \<sigma>\<lparr>sm := s, stock := stock \<sigma> - 1\<rparr>)"

definition sem_give :: "sem_sys \<Rightarrow> sem_sys \<Rightarrow> bool" where
  "sem_give \<sigma> \<sigma>' \<longleftrightarrow> (\<exists>ws s. release_locked 1 (sm \<sigma>) = (Inr ws, s) \<and>
     \<sigma>' = \<sigma>\<lparr>sm := s, to_wake := to_wake \<sigma> @ ws, stock := stock \<sigma> + 1\<rparr>)"

definition sem_tau :: "sem_sys \<Rightarrow> sem_sys \<Rightarrow> bool" where
  "sem_tau \<sigma> \<sigma>' \<longleftrightarrow> sem_step \<sigma> \<sigma>' \<and> stock \<sigma>' = stock \<sigma>"

lemma sem_take_step: "sem_take \<sigma> \<sigma>' \<Longrightarrow> sem_step \<sigma> \<sigma>'"
  unfolding sem_take_def
proof (elim disjE exE conjE)
  fix t assume "t < ntasks \<sigma>" "pcs \<sigma> t = Holding" "\<sigma>' = set_pc t Idle (\<sigma>\<lparr>stock := stock \<sigma> - 1\<rparr>)"
  then show "sem_step \<sigma> \<sigma>'" using take_away[of t \<sigma>] by simp
next
  fix s assume "try_acquire (sm \<sigma>) = (True, s)" "\<sigma>' = \<sigma>\<lparr>sm := s, stock := stock \<sigma> - 1\<rparr>"
  then show "sem_step \<sigma> \<sigma>'" using try_take[of \<sigma> True s] by simp
qed

lemma sem_give_step: "sem_give \<sigma> \<sigma>' \<Longrightarrow> sem_step \<sigma> \<sigma>'"
  using add[of 1 \<sigma>] by (auto simp: sem_give_def)

lemma sem_take_stock:
  assumes "sem_inv \<sigma>" "sem_take \<sigma> \<sigma>'"
  shows "stock \<sigma> = Suc (stock \<sigma>')"
  using assms(2) unfolding sem_take_def
proof (elim disjE exE conjE)
  fix t assume t: "t < ntasks \<sigma>" "pcs \<sigma> t = Holding" "\<sigma>' = set_pc t Idle (\<sigma>\<lparr>stock := stock \<sigma> - 1\<rparr>)"
  have "1 \<le> (\<Sum>t'<ntasks \<sigma>. owned (sm \<sigma>) (pcs \<sigma> t'))"
    using member_le_sum[of t "{..<ntasks \<sigma>}" "\<lambda>t'. owned (sm \<sigma>) (pcs \<sigma> t')"] t by simp
  then show ?thesis using assms(1) t(3) by (simp add: sem_inv_def sem_balance_def)
next
  fix s assume s: "try_acquire (sm \<sigma>) = (True, s)" "\<sigma>' = \<sigma>\<lparr>sm := s, stock := stock \<sigma> - 1\<rparr>"
  have "0 < permits (sm \<sigma>)" using try_acquire_facts(5)[OF s(1)] by simp
  then show ?thesis using assms(1) s(2) by (simp add: sem_inv_def sem_balance_def)
qed

interpretation sem_queue: permit_pool sem_pool_init sem_take sem_give sem_tau sem_inv stock
proof unfold_locales
  fix n p p'
  show "sem_inv p \<and> stock p = n" if "sem_pool_init n p"
    using sem_run.init_good[of p] that by (simp add: sem_pool_init_def)
  show "sem_inv p' \<and> stock p = Suc (stock p')" if "sem_inv p" "sem_take p p'"
    using sem_run.step_good[OF that(1) sem_take_step[OF that(2)]] sem_take_stock[OF that] by simp
  show "sem_inv p' \<and> stock p' = Suc (stock p)" if "sem_inv p" "sem_give p p'"
    using sem_run.step_good[OF that(1) sem_give_step[OF that(2)]] that(2) by (auto simp: sem_give_def)
  show "sem_inv p' \<and> stock p' = stock p" if "sem_inv p" "sem_tau p p'"
    using sem_run.step_good[OF that(1)] that(2) by (simp add: sem_tau_def)
qed

text \<open>C7: However push, pop, try_push and try_pop interleave, with cancellation, a bounded queue never holds
  more than its capacity, the values come out in the order in which they went in, each once, and pop
  never meets the internal underflow.\<close>

theorem queue_bounded_fifo:
  assumes "reachable (queue_init sem_pool_init cap) (queue_step sem_take sem_give sem_tau) q"
  shows "(length (contents q) \<le> cap \<or> slot_pool q = None) \<and> inserted q = removed q @ contents q \<and> underflows q = 0"
  using sem_queue.queue_safe[OF assms] by blast

definition sample_queue :: "(nat, sem_sys) queue_sys" where
  "sample_queue = \<lparr>item_pool = sample_sem 2 0, slot_pool = Some (sample_sem 2 1), contents = [], pushing = [],
     unannounced = 0, popping = 0, vacated = 0, inserted = [], removed = [], underflows = 0\<rparr>"

lemma sample_queue_pushes:
  "\<exists>q. reachable (queue_init sem_pool_init 1) (queue_step sem_take sem_give sem_tau) q \<and> contents q = [7::nat] \<and>
     slot_pool q \<noteq> None"
proof -
  let ?p = "(sample_sem 2 1)\<lparr>sm := semaphore 0, stock := 0\<rparr>"
  let ?q1 = "sample_queue\<lparr>slot_pool := Some ?p, pushing := 7 # pushing sample_queue\<rparr>"
  let ?q2 = "?q1\<lparr>contents := contents ?q1 @ [7], pushing := remove1 7 (pushing ?q1),
      unannounced := unannounced ?q1 + 1, inserted := inserted ?q1 @ [7]\<rparr>"
  have "reachable (queue_init sem_pool_init 1) (queue_step sem_take sem_give sem_tau) sample_queue"
    by (rule start) (simp add: queue_init_def sem_pool_init_def sample_queue_def sem_init_def sample_sem_def size_max_def)
  moreover have "queue_step sem_take sem_give sem_tau sample_queue ?q1"
    by (rule get_slot[where p = "sample_sem 2 1"])
       (simp_all add: sample_queue_def sem_take_def sample_sem_def try_acquire_def compact_waiters_locked_def semaphore_def)
  moreover have "queue_step sem_take sem_give sem_tau ?q1 ?q2"
    by (rule push_back) (simp add: sample_queue_def)
  ultimately have "reachable (queue_init sem_pool_init 1) (queue_step sem_take sem_give sem_tau) ?q2"
    by (meson next_state)
  then show ?thesis by (intro exI[of _ ?q2]) (simp add: sample_queue_def)
qed

theorem queue_bounded_fifo_witness:
  "\<exists>q :: (nat, sem_sys) queue_sys. contents q = [7] \<and> slot_pool q \<noteq> None \<and>
     (length (contents q) \<le> 1 \<or> slot_pool q = None) \<and> inserted q = removed q @ contents q \<and> underflows q = 0"
proof -
  obtain q where q: "reachable (queue_init sem_pool_init 1) (queue_step sem_take sem_give sem_tau) q"
    "contents q = [7::nat]" "slot_pool q \<noteq> None"
    using sample_queue_pushes by blast
  from queue_bounded_fifo[OF q(1)] q(2,3) show ?thesis by blast
qed

section \<open>DatagramChannel\<close>

text \<open>
  pump forwards what the socket receives into the channel while the socket is
  open; a logic_error ends it quietly when the socket was closed meanwhile.
  The socket is a script of results of recv_from, each with whether the
  socket is open afterwards; an exhausted script is a closed socket.  push is
  the channel's push, on any channel state.
\<close>

fun pump :: "('d \<Rightarrow> 'q \<Rightarrow> unit result \<times> 'q) \<Rightarrow> ('d result \<times> bool) list \<Rightarrow> bool \<Rightarrow> 'q \<Rightarrow> unit result \<times> 'q" where
  "pump push [] is_open q = (Inr (), q)"
| "pump push ((received, open_after) # script) is_open q =
     (if \<not> is_open then (Inr (), q)
      else case (case received of Inl e \<Rightarrow> (Inl e, q) | Inr d \<Rightarrow> push d q) of
             (Inr _, q') \<Rightarrow> pump push script open_after q'
           | (Inl (LogicError what), q') \<Rightarrow> if \<not> open_after then (Inr (), q') else (Inl (LogicError what), q')
           | (Inl e, q') \<Rightarrow> (Inl e, q'))"

lemma pump_in_order:
  assumes "\<And>d q. push d q = (Inr (), q @ [d])"
  shows "pump push (map (\<lambda>d. (Inr d, True)) ds @ [(Inl (LogicError what), False)]) True q = (Inr (), q @ ds)"
  by (induction ds arbitrary: q) (simp_all add: assms)

end
