(* ===== verification/Uv_Executor.thy ===== *)
theory Uv_Executor
  imports Prelude Transition
begin

text \<open>
  UvExecutor (src/src/uv_executor.cpp): functions scheduled from any thread
  are queued under a lock and run on the loop thread when libuv calls
  on_async.  libuv calls it at least once after a uv_async_send unless the
  handle was closed.  The timed schedule runs its function when the timer
  fires or the operation is canceled, once.
\<close>

section \<open>The queue\<close>

record 'f executor =
  ex_queue :: "'f list"
  ex_pending :: nat
  ex_closing :: bool

definition UvExecutor :: "'f executor" where
  "UvExecutor = \<lparr>ex_queue = [], ex_pending = 0, ex_closing = False\<rparr>"

text \<open>enqueue after its check of closing: the push under the lock.\<close>

definition push_locked :: "'f \<Rightarrow> 'f executor \<Rightarrow> 'f executor" where
  "push_locked f s = s\<lparr>ex_queue := ex_queue s @ [f], ex_pending := ex_pending s + 1\<rparr>"

definition ex_enqueue :: "'f \<Rightarrow> 'f executor \<Rightarrow> bool \<times> 'f executor" where
  "ex_enqueue f s = (if ex_closing s then (False, s) else (True, push_locked f s))"

text \<open>on_async takes the whole queue; the functions then run in order.\<close>

definition drain_locked :: "'f executor \<Rightarrow> 'f list \<times> 'f executor" where
  "drain_locked s = (ex_queue s, s\<lparr>ex_queue := [], ex_pending := ex_pending s - length (ex_queue s)\<rparr>)"

definition ex_stat :: "'f executor \<Rightarrow> nat" where
  "ex_stat s = ex_pending s"

text \<open>shutdown on the loop thread (elsewhere it throws); the first call closes the handle.\<close>

definition ex_shutdown :: "bool \<Rightarrow> 'f executor \<Rightarrow> bool result \<times> 'f executor" where
  "ex_shutdown on_loop_thread s = (if \<not> on_loop_thread
     then (Inl (LogicError ''UvExecutor::shutdown must be called on the loop thread''), s)
     else (Inr (\<not> ex_closing s), s\<lparr>ex_closing := True\<rparr>))"

section \<open>Running the executor\<close>

text \<open>
  entering are the calls of enqueue that passed the check of closing, unsent
  counts those that pushed and have not yet called uv_async_send, sent says
  that libuv owes a call of on_async, batch is what on_async has still to run.
  accepted and executed are the functions pushed and run so far.
\<close>

record 'f ex_sys =
  ex :: "'f executor"
  entering :: "'f list"
  unsent :: nat
  sent :: bool
  handle_closed :: bool
  batch :: "'f list"
  accepted :: "'f list"
  executed :: "'f list"

definition ex_init :: "'f ex_sys \<Rightarrow> bool" where
  "ex_init \<sigma> \<longleftrightarrow> ex \<sigma> = UvExecutor \<and> entering \<sigma> = [] \<and> unsent \<sigma> = 0 \<and> \<not> sent \<sigma> \<and> \<not> handle_closed \<sigma> \<and>
     batch \<sigma> = [] \<and> accepted \<sigma> = [] \<and> executed \<sigma> = []"

inductive ex_step :: "'f ex_sys \<Rightarrow> 'f ex_sys \<Rightarrow> bool" where
  ex_enter: "\<not> ex_closing (ex \<sigma>) \<Longrightarrow> ex_step \<sigma> (\<sigma>\<lparr>entering := f # entering \<sigma>\<rparr>)"
| ex_push: "f \<in> set (entering \<sigma>) \<Longrightarrow>
    ex_step \<sigma> (\<sigma>\<lparr>ex := push_locked f (ex \<sigma>), entering := remove1 f (entering \<sigma>), unsent := unsent \<sigma> + 1,
      accepted := accepted \<sigma> @ [f]\<rparr>)"
| ex_send: "unsent \<sigma> = Suc n \<Longrightarrow> ex_step \<sigma> (\<sigma>\<lparr>unsent := n, sent := True\<rparr>)"
| ex_on_async: "\<lbrakk>sent \<sigma>; \<not> handle_closed \<sigma>; batch \<sigma> = []; drain_locked (ex \<sigma>) = (fs, s)\<rbrakk> \<Longrightarrow>
    ex_step \<sigma> (\<sigma>\<lparr>ex := s, sent := False, batch := fs\<rparr>)"
| ex_call: "batch \<sigma> = f # fs \<Longrightarrow> ex_step \<sigma> (\<sigma>\<lparr>batch := fs, executed := executed \<sigma> @ [f]\<rparr>)"
| ex_close: "ex_shutdown True (ex \<sigma>) = (Inr closes, s) \<Longrightarrow>
    ex_step \<sigma> (\<sigma>\<lparr>ex := s, handle_closed := (closes \<or> handle_closed \<sigma>)\<rparr>)"

definition ex_good :: "'f ex_sys \<Rightarrow> bool" where
  "ex_good \<sigma> \<longleftrightarrow> accepted \<sigma> = executed \<sigma> @ batch \<sigma> @ ex_queue (ex \<sigma>) \<and> ex_stat (ex \<sigma>) = length (ex_queue (ex \<sigma>)) \<and>
     (ex_queue (ex \<sigma>) \<noteq> [] \<longrightarrow> sent \<sigma> \<or> 0 < unsent \<sigma>) \<and> (handle_closed \<sigma> \<longleftrightarrow> ex_closing (ex \<sigma>))"

interpretation executor_run: invariant_system ex_init ex_step ex_good
proof unfold_locales
  fix \<sigma> :: "'f ex_sys"
  show "ex_good \<sigma>" if "ex_init \<sigma>" using that by (simp add: ex_init_def ex_good_def UvExecutor_def ex_stat_def)
next
  fix \<sigma> \<sigma>' :: "'f ex_sys"
  assume "ex_good \<sigma>" "ex_step \<sigma> \<sigma>'"
  from this(2,1) show "ex_good \<sigma>'"
    by (induction rule: ex_step.induct)
       (auto simp: ex_good_def push_locked_def drain_locked_def ex_shutdown_def ex_stat_def)
qed

text \<open>C19: The functions scheduled on the executor run in the order in which they were queued, each at most once,
  and none is stuck: unless the executor was shut down, a queued function has a call of on_async to come.\<close>

theorem executor_fifo:
  assumes "reachable ex_init ex_step \<sigma>"
  shows "accepted \<sigma> = executed \<sigma> @ batch \<sigma> @ ex_queue (ex \<sigma>) \<and> ex_stat (ex \<sigma>) = length (ex_queue (ex \<sigma>)) \<and>
    (ex_queue (ex \<sigma>) = [] \<or> sent \<sigma> \<or> 0 < unsent \<sigma>)"
  using executor_run.reachable_good[OF assms] by (auto simp: ex_good_def)

definition sample_executor :: "nat ex_sys" where
  "sample_executor = \<lparr>ex = UvExecutor, entering = [], unsent = 0, sent = False, handle_closed = False, batch = [],
     accepted = [], executed = []\<rparr>"

lemma sample_executor_reached:
  "reachable ex_init ex_step (sample_executor\<lparr>ex := push_locked 5 UvExecutor, entering := [], unsent := 1, accepted := [5]\<rparr>)"
proof -
  have r0: "reachable ex_init ex_step sample_executor" by (rule start) (simp add: ex_init_def sample_executor_def)
  have "ex_step sample_executor (sample_executor\<lparr>entering := 5 # entering sample_executor\<rparr>)"
    by (rule ex_enter) (simp add: sample_executor_def UvExecutor_def)
  note r1 = next_state[OF r0 this]
  have "ex_step (sample_executor\<lparr>entering := 5 # entering sample_executor\<rparr>)
    (sample_executor\<lparr>ex := push_locked 5 UvExecutor, entering := [], unsent := 1, accepted := [5]\<rparr>)"
    using ex_push[of 5 "sample_executor\<lparr>entering := 5 # entering sample_executor\<rparr>"] by (simp add: sample_executor_def)
  then show ?thesis by (rule next_state[OF r1])
qed

theorem executor_fifo_witness:
  "\<exists>\<sigma> :: nat ex_sys. reachable ex_init ex_step \<sigma> \<and> ex_queue (ex \<sigma>) = [5] \<and>
     accepted \<sigma> = executed \<sigma> @ batch \<sigma> @ ex_queue (ex \<sigma>) \<and> ex_stat (ex \<sigma>) = length (ex_queue (ex \<sigma>)) \<and>
     (ex_queue (ex \<sigma>) = [] \<or> sent \<sigma> \<or> 0 < unsent \<sigma>)"
  using executor_fifo[OF sample_executor_reached] sample_executor_reached
  by (intro exI[of _ "sample_executor\<lparr>ex := push_locked 5 UvExecutor, entering := [], unsent := 1, accepted := [5]\<rparr>"])
     (simp add: push_locked_def UvExecutor_def)

section \<open>Timed functions\<close>

text \<open>
  A TimerOp of the timed schedule: has_func while the function is not moved
  out, armed while the libuv timer runs; calls counts the runs of the
  function.
\<close>

record timer_op =
  t_done :: bool
  t_started :: bool
  t_armed :: bool
  t_has_func :: bool
  t_calls :: nat

definition TimerOp :: timer_op where
  "TimerOp = \<lparr>t_done = False, t_started = False, t_armed = False, t_has_func = True, t_calls = 0\<rparr>"

text \<open>The codes returned by uv_timer_init and uv_timer_start are arguments.\<close>

definition start_timer_on_loop :: "uv_err option \<Rightarrow> uv_err option \<Rightarrow> timer_op \<Rightarrow> unit result \<times> timer_op" where
  "start_timer_on_loop init_rc start_rc op = (if t_done op then (Inr (), op)
     else case init_rc of
            Some e \<Rightarrow> (Inl (UvError e ''uv_timer_init''), op)
          | None \<Rightarrow>
              (case start_rc of
                 Some e \<Rightarrow> (Inl (UvError e ''uv_timer_start''), op)
               | None \<Rightarrow> (Inr (), op\<lparr>t_started := True, t_armed := True\<rparr>)))"

definition complete_on_loop :: "timer_op \<Rightarrow> timer_op" where
  "complete_on_loop op = (if t_done op then op else
     op\<lparr>t_done := True, t_armed := (if t_started op then False else t_armed op), t_has_func := False,
        t_calls := t_calls op + of_bool (t_has_func op)\<rparr>)"

definition timeout_ms :: "int \<Rightarrow> nat" where
  "timeout_ms ms = (if ms \<le> 0 then 0 else nat ms mod 2 ^ 64)"

datatype timer_event = StartTimer "uv_err option" "uv_err option" | TimerFires | CancelRuns

text \<open>The events of one operation on the loop thread; a timer that is not armed does not fire.\<close>

fun timer_event_step :: "timer_event \<Rightarrow> timer_op \<Rightarrow> timer_op" where
  "timer_event_step (StartTimer i s) op = snd (start_timer_on_loop i s op)"
| "timer_event_step TimerFires op = (if t_armed op then complete_on_loop op else op)"
| "timer_event_step CancelRuns op = complete_on_loop op"

definition timer_ok :: "timer_op \<Rightarrow> bool" where
  "timer_ok op \<longleftrightarrow> (t_armed op \<longrightarrow> t_started op \<and> \<not> t_done op) \<and> (t_has_func op \<longleftrightarrow> \<not> t_done op) \<and>
     t_calls op = of_bool (t_done op)"

lemma timer_ok_step: "timer_ok op \<Longrightarrow> timer_ok (timer_event_step e op)"
  by (cases e) (auto simp: timer_ok_def start_timer_on_loop_def complete_on_loop_def split: option.splits)

lemma timer_ok_run: "timer_ok op \<Longrightarrow> timer_ok (fold timer_event_step es op)"
  by (induction es arbitrary: op) (auto intro: timer_ok_step)

text \<open>Whatever the order of start, expiry and cancellation, the function runs once if the operation ends, else not at all.\<close>

lemma timed_function_once:
  "t_calls (fold timer_event_step es TimerOp) = of_bool (t_done (fold timer_event_step es TimerOp))"
  using timer_ok_run[of TimerOp es] by (simp add: timer_ok_def TimerOp_def)

lemma canceled_timer_runs: "t_calls (complete_on_loop (fold timer_event_step es TimerOp)) = 1"
  using timer_ok_run[of TimerOp "es @ [CancelRuns]"] timed_function_once[of "es @ [CancelRuns]"]
  by (simp add: timer_ok_def TimerOp_def complete_on_loop_def split: if_splits)

end
