(* ===== verification/Sql_Url.thy ===== *)
theory Sql_Url
  imports Percent Http_Url
begin

text \<open>
  The connection URLs of src/sql.cpp: the text helpers of its anonymous
  namespace, the mapping between schemes and back ends, and
  parse_connection_url. std::unordered_map is a map. The round trip at the
  end reads back a URL written the way the grammar of connection URLs asks.
\<close>

datatype Backend = Unknown | SQLite | PostgreSQL | MySQL

record ConnectionInfo =
  ci_backend :: Backend
  ci_scheme :: string
  ci_host :: string
  ci_port :: nat
  ci_database :: string
  ci_username :: string
  ci_password :: string
  ci_path :: string
  ci_options :: "string \<rightharpoonup> string"

text \<open>A value-initialised ConnectionInfo.\<close>

definition no_info :: ConnectionInfo where
  "no_info = \<lparr>ci_backend = Unknown, ci_scheme = [], ci_host = [], ci_port = 0, ci_database = [],
     ci_username = [], ci_password = [], ci_path = [], ci_options = Map.empty\<rparr>"

definition to_lower_copy :: "string \<Rightarrow> string" where
  "to_lower_copy text = map to_lower text"

definition strip_prefix :: "string \<Rightarrow> string \<Rightarrow> string" where
  "strip_prefix text prefix = (if starts_with prefix text then drop (length prefix) text else text)"

abbreviation sql_error :: "string \<Rightarrow> exn" where
  "sql_error m \<equiv> InvalidArgument (''corouv::sql '' @ m)"

abbreviation pct_error :: exn where
  "pct_error \<equiv> sql_error ''invalid percent-encoding in URL''"

text \<open>The test i + 2 >= size says that fewer than two characters follow the percent sign.\<close>

fun decode_percent :: "string \<Rightarrow> string result" where
  "decode_percent [] = Inr []"
| "decode_percent (ch # cs) =
     (if ch \<noteq> CHR ''%'' then map_result (Cons ch) (decode_percent cs)
      else case cs of
             h # l # rest \<Rightarrow>
               (case (hex_value h, hex_value l) of
                  (Some hi, Some lo) \<Rightarrow> map_result (Cons (hex_byte hi lo)) (decode_percent rest)
                | _ \<Rightarrow> Inl pct_error)
           | _ \<Rightarrow> Inl pct_error)"

interpretation sql_pct: pct_decoder decode_percent "\<lambda>c. c \<noteq> CHR ''%''"
  by unfold_locales simp_all

text \<open>from_chars into an unsigned int; an empty text is no port.\<close>

definition parse_port :: "string \<Rightarrow> nat option result" where
  "parse_port text =
     (if text = [] then Inr None
      else case parse_whole 10 (2 ^ 32 - 1) text of
             None \<Rightarrow> Inl (sql_error ''invalid port in URL'')
           | Some parsed \<Rightarrow>
               if parsed > 65535 then Inl (sql_error ''invalid port in URL'') else Inr (Some parsed))"

definition value_or :: "'a option \<Rightarrow> 'a \<Rightarrow> 'a" where
  "value_or x d = (case x of None \<Rightarrow> d | Some v \<Rightarrow> v)"

definition parse_option :: "string \<Rightarrow> (string \<rightharpoonup> string) \<Rightarrow> (string \<rightharpoonup> string) result" where
  "parse_option token out =
     (let eq = find_char (CHR ''='') token
      in case decode_percent (head_to eq token) of
           Inl e \<Rightarrow> Inl e
         | Inr key \<Rightarrow>
             map_result (\<lambda>v. if key \<noteq> [] then out(key \<mapsto> v) else out)
               (case eq of None \<Rightarrow> Inr [] | Some i \<Rightarrow> decode_percent (drop (Suc i) token)))"

text \<open>One turn of the loop per token; query is what starts at the cursor.\<close>

function parse_options_loop :: "string \<Rightarrow> (string \<rightharpoonup> string) \<Rightarrow> (string \<rightharpoonup> string) result" where
  "parse_options_loop query out =
     (let amp = find_char (CHR ''&'') query;
          token = head_to amp query
      in case (if token = [] then Inr out else parse_option token out) of
           Inl e \<Rightarrow> Inl e
         | Inr out' \<Rightarrow>
             (case amp of
                None \<Rightarrow> Inr out'
              | Some i \<Rightarrow> parse_options_loop (drop (Suc i) query) out'))"
  by pat_completeness auto
termination
  by (relation "measure (\<lambda>(query, _). length query)") (auto dest: find_char_length find_char_length[OF sym])

declare parse_options_loop.simps [simp del]

definition parse_query_options :: "string \<Rightarrow> (string \<rightharpoonup> string) result" where
  "parse_query_options query = parse_options_loop query Map.empty"

definition backend_from_scheme :: "string \<Rightarrow> Backend" where
  "backend_from_scheme scheme =
     (let normalized = to_lower_copy (trim_copy scheme)
      in if normalized = ''sqlite'' \<or> normalized = ''sqlite3'' then SQLite
         else if normalized = ''pgsql'' \<or> normalized = ''postgres'' \<or>
                 normalized = ''postgresql'' \<or> normalized = ''pg'' then PostgreSQL
         else if normalized = ''mysql'' \<or> normalized = ''mariadb'' then MySQL
         else Unknown)"

fun backend_name :: "Backend \<Rightarrow> string" where
  "backend_name SQLite = ''sqlite''"
| "backend_name PostgreSQL = ''pgsql''"
| "backend_name MySQL = ''mysql''"
| "backend_name Unknown = ''unknown''"

text \<open>
  parse_connection_url in the order of the source: the sqlite form, then the
  user information, the host and port, the database and the options of the
  scheme form.
\<close>

definition parse_sqlite_url :: "string \<Rightarrow> ConnectionInfo result" where
  "parse_sqlite_url url =
     (let info = no_info\<lparr>ci_backend := SQLite, ci_scheme := ''sqlite''\<rparr>;
          path = strip_prefix (strip_prefix url ''sqlite:'') ''//''
      in map_result (\<lambda>p. info\<lparr>ci_path := (if p = [] then '':memory:'' else p)\<rparr>)
           (if path = ''/:memory:'' then Inr '':memory:'' else decode_percent path))"

definition parse_userinfo :: "string \<Rightarrow> ConnectionInfo \<Rightarrow> ConnectionInfo result" where
  "parse_userinfo userinfo info =
     (case find_char (CHR '':'') userinfo of
        None \<Rightarrow> map_result (\<lambda>u. info\<lparr>ci_username := u\<rparr>) (decode_percent userinfo)
      | Some colon \<Rightarrow>
          (case decode_percent (take colon userinfo) of
             Inl e \<Rightarrow> Inl e
           | Inr u \<Rightarrow>
               map_result (\<lambda>p. info\<lparr>ci_username := u, ci_password := p\<rparr>)
                 (decode_percent (drop (Suc colon) userinfo))))"

definition parse_host_port :: "string \<Rightarrow> ConnectionInfo \<Rightarrow> ConnectionInfo result" where
  "parse_host_port host_port info =
     (if host_port = [] then Inr info
      else if hd host_port = CHR ''['' then
        (case find_char (CHR '']'') host_port of
           None \<Rightarrow> Inl (sql_error ''invalid bracketed host in URL'')
         | Some close \<Rightarrow>
             (let info = info\<lparr>ci_host := take (close - 1) (drop 1 host_port)\<rparr>
              in if close + 1 < length host_port then
                   (if host_port ! (close + 1) \<noteq> CHR '':'' then Inl (sql_error ''invalid host:port'')
                    else map_result (\<lambda>p. info\<lparr>ci_port := value_or p 0\<rparr>)
                           (parse_port (drop (close + 2) host_port)))
                 else Inr info))
      else
        (case rfind_char (CHR '':'') host_port of
           None \<Rightarrow> Inr (info\<lparr>ci_host := host_port\<rparr>)
         | Some colon \<Rightarrow>
             if find_char (CHR '':'') host_port = Some colon
             then map_result (\<lambda>p. info\<lparr>ci_host := take colon host_port, ci_port := value_or p 0\<rparr>)
                    (parse_port (drop (Suc colon) host_port))
             else Inr (info\<lparr>ci_host := host_port\<rparr>)))"

definition parse_tail :: "string \<Rightarrow> ConnectionInfo \<Rightarrow> ConnectionInfo result" where
  "parse_tail tail info =
     (if starts_with ''/'' tail then
        (let q = find_char (CHR ''?'') tail;
             db = (case q of None \<Rightarrow> drop 1 tail | Some i \<Rightarrow> take (i - 1) (drop 1 tail))
         in case decode_percent db of
              Inl e \<Rightarrow> Inl e
            | Inr d \<Rightarrow>
                (case q of
                   None \<Rightarrow> Inr (info\<lparr>ci_database := d\<rparr>)
                 | Some i \<Rightarrow> map_result (\<lambda>os. info\<lparr>ci_database := d, ci_options := os\<rparr>)
                               (parse_query_options (drop (Suc i) tail))))
      else if starts_with ''?'' tail then
        map_result (\<lambda>os. info\<lparr>ci_options := os\<rparr>) (parse_query_options (drop 1 tail))
      else Inr info)"

definition default_port :: "ConnectionInfo \<Rightarrow> ConnectionInfo" where
  "default_port info =
     (if ci_port info = 0 then
        (if ci_backend info = PostgreSQL then info\<lparr>ci_port := 5432\<rparr>
         else if ci_backend info = MySQL then info\<lparr>ci_port := 3306\<rparr>
         else info)
      else info)"

definition parse_authority :: "string \<Rightarrow> ConnectionInfo \<Rightarrow> ConnectionInfo result" where
  "parse_authority authority info =
     (case rfind_char (CHR ''@'') authority of
        None \<Rightarrow> parse_host_port authority info
      | Some i \<Rightarrow>
          (case parse_userinfo (take i authority) info of
             Inl e \<Rightarrow> Inl e
           | Inr info' \<Rightarrow> parse_host_port (drop (Suc i) authority) info'))"

definition parse_connection_url :: "string \<Rightarrow> ConnectionInfo result" where
  "parse_connection_url url =
     (if url = [] then Inl (sql_error ''connection URL is empty'')
      else if starts_with ''sqlite:'' url then parse_sqlite_url url
      else case find_sub ''://'' url of
        None \<Rightarrow> Inl (sql_error ''connection URL must use scheme://'')
      | Some scheme_end \<Rightarrow>
          (let scheme = to_lower_copy (take scheme_end url);
               backend = backend_from_scheme scheme
           in if backend = Unknown then Inl (sql_error (''unsupported scheme: '' @ scheme))
              else
                (let rest = drop (scheme_end + 3) url;
                     path_pos = find_first_of ''/?'' rest;
                     tail = (case path_pos of None \<Rightarrow> [] | Some i \<Rightarrow> drop i rest)
                 in case parse_authority (head_to path_pos rest)
                           (no_info\<lparr>ci_scheme := scheme, ci_backend := backend\<rparr>) of
                      Inl e \<Rightarrow> Inl e
                    | Inr info \<Rightarrow> map_result default_port (parse_tail tail info))))"

section \<open>What a parsed URL looks like\<close>

lemma parse_port_bound: "parse_port s = Inr p \<Longrightarrow> value_or p 0 \<le> 65535"
  by (auto simp: parse_port_def value_or_def split: option.splits if_splits)

lemma parse_userinfo_keeps:
  "parse_userinfo u i = Inr i' \<Longrightarrow>
   ci_backend i' = ci_backend i \<and> ci_scheme i' = ci_scheme i \<and> ci_port i' = ci_port i"
  by (auto simp: parse_userinfo_def map_result_eq_Inr split: option.splits sum.splits)

lemma parse_host_port_keeps:
  "parse_host_port h i = Inr i' \<Longrightarrow> ci_port i \<le> 65535 \<Longrightarrow>
   ci_backend i' = ci_backend i \<and> ci_scheme i' = ci_scheme i \<and> ci_port i' \<le> 65535"
  by (auto simp: parse_host_port_def map_result_eq_Inr Let_def dest: parse_port_bound
      split: option.splits if_splits)

lemma parse_authority_keeps:
  "parse_authority a i = Inr i' \<Longrightarrow> ci_port i \<le> 65535 \<Longrightarrow>
   ci_backend i' = ci_backend i \<and> ci_scheme i' = ci_scheme i \<and> ci_port i' \<le> 65535"
  by (auto simp: parse_authority_def split: option.splits sum.splits
      dest!: parse_host_port_keeps parse_userinfo_keeps)

lemma parse_tail_keeps:
  "parse_tail t i = Inr i' \<Longrightarrow>
   ci_backend i' = ci_backend i \<and> ci_scheme i' = ci_scheme i \<and> ci_port i' = ci_port i"
  by (auto simp: parse_tail_def map_result_eq_Inr Let_def split: option.splits sum.splits if_splits)

lemma default_port_facts:
  "ci_backend (default_port i) = ci_backend i" "ci_scheme (default_port i) = ci_scheme i"
  "ci_port i \<le> 65535 \<Longrightarrow> ci_port (default_port i) \<le> 65535"
  "ci_backend i = PostgreSQL \<or> ci_backend i = MySQL \<Longrightarrow> ci_port (default_port i) \<noteq> 0"
  by (auto simp: default_port_def)

text \<open>
  The scheme of an accepted URL names its back end, the port fits 16 bits, and
  a network back end has a port.
\<close>

lemma parse_connection_url_wf:
  assumes "parse_connection_url url = Inr info"
  shows "ci_backend info \<noteq> Unknown"
    and "ci_backend info = backend_from_scheme (ci_scheme info)"
    and "ci_port info \<le> 65535"
    and "ci_backend info = PostgreSQL \<or> ci_backend info = MySQL \<Longrightarrow> ci_port info \<noteq> 0"
proof -
  have "ci_backend info \<noteq> Unknown \<and> ci_backend info = backend_from_scheme (ci_scheme info) \<and>
        ci_port info \<le> 65535 \<and>
        (ci_backend info = PostgreSQL \<or> ci_backend info = MySQL \<longrightarrow> ci_port info \<noteq> 0)"
  proof (cases "starts_with ''sqlite:'' url")
    case True
    moreover have "url \<noteq> []" using True by auto
    moreover have "backend_from_scheme ''sqlite'' = SQLite" by code_simp
    ultimately show ?thesis using assms
      by (auto simp: parse_connection_url_def parse_sqlite_url_def Let_def map_result_eq_Inr no_info_def)
  next
    case False
    with assms obtain e where e: "find_sub ''://'' url = Some e" "url \<noteq> []"
      by (auto simp: parse_connection_url_def split: if_splits option.splits)
    define sch where "sch = to_lower_copy (take e url)"
    define i where "i = no_info\<lparr>ci_scheme := sch, ci_backend := backend_from_scheme sch\<rparr>"
    have i: "ci_port i \<le> 65535" "ci_backend i = backend_from_scheme sch" "ci_scheme i = sch"
      by (simp_all add: i_def no_info_def)
    from assms False e obtain a t j k where
      "parse_authority a i = Inr j" "parse_tail t j = Inr k" "info = default_port k"
      and u: "backend_from_scheme sch \<noteq> Unknown"
      unfolding parse_connection_url_def sch_def[symmetric] i_def
      by (auto simp: Let_def map_result_eq_Inr sch_def split: if_splits sum.splits)
    with i show ?thesis
      using parse_authority_keeps[of a i j] parse_tail_keeps[of t j k] default_port_facts[of k] by auto
  qed
  then show "ci_backend info \<noteq> Unknown" "ci_backend info = backend_from_scheme (ci_scheme info)"
    "ci_port info \<le> 65535"
    "ci_backend info = PostgreSQL \<or> ci_backend info = MySQL \<Longrightarrow> ci_port info \<noteq> 0"
    by blast+
qed

section \<open>Round trip\<close>

text \<open>
  The text form of a connection: every component escaped byte by byte except
  letters and digits, the address as endpoint_to_string writes it.
\<close>

definition pct_encode :: "string \<Rightarrow> string" where
  "pct_encode s = concat (map (\<lambda>c. if is_alnum c then [c] else pct_escape c) s)"

definition option_text :: "string \<times> string \<Rightarrow> string" where
  "option_text kv = pct_encode (fst kv) @ ''='' @ pct_encode (snd kv)"

fun options_text :: "(string \<times> string) list \<Rightarrow> string" where
  "options_text [] = []"
| "options_text [kv] = option_text kv"
| "options_text (kv # kvs) = option_text kv @ ''&'' @ options_text kvs"

definition authority_text :: "string \<Rightarrow> string \<Rightarrow> string \<Rightarrow> nat \<Rightarrow> string" where
  "authority_text user pass host port =
     pct_encode user @ '':'' @ pct_encode pass @ ''@'' @
     endpoint_to_string \<lparr>ep_host = host, ep_port = port\<rparr>"

definition tail_text :: "string \<Rightarrow> (string \<times> string) list \<Rightarrow> string" where
  "tail_text db opts = ''/'' @ pct_encode db @ (if opts = [] then [] else ''?'' @ options_text opts)"

definition connection_url ::
  "string \<Rightarrow> string \<Rightarrow> string \<Rightarrow> string \<Rightarrow> nat \<Rightarrow> string \<Rightarrow> (string \<times> string) list \<Rightarrow> string" where
  "connection_url scheme user pass host port db opts =
     scheme @ ''://'' @ authority_text user pass host port @ tail_text db opts"

lemma decode_pct_encode [simp]: "decode_percent (pct_encode s) = Inr s"
  unfolding pct_encode_def
  by (rule sql_pct.dec_concat) (auto simp: is_alnum_def is_digit_def is_upper_def is_lower_def ord_def)

lemma pct_escape_chars: "c \<in> set (pct_escape x) \<Longrightarrow> is_alnum c \<or> c = CHR ''%''"
proof -
  have "\<forall>d \<in> set [0..<16]. is_alnum (hex_upper d)" by code_simp
  then have "is_alnum (hex_upper (ord x div 16))" "is_alnum (hex_upper (ord x mod 16))"
    using ord_less_256[of x] less_mult_imp_div_less[of "ord x" 16 16] by simp_all
  then show "c \<in> set (pct_escape x) \<Longrightarrow> ?thesis" by (auto simp: pct_escape_def)
qed

lemma pct_encode_chars: "c \<in> set (pct_encode s) \<Longrightarrow> is_alnum c \<or> c = CHR ''%''"
  by (auto simp: pct_encode_def dest: pct_escape_chars split: if_splits)

lemma pct_encode_no_sep:
  assumes "c \<in> set '':@/?&=[]''"
  shows "c \<notin> set (pct_encode s)"
proof -
  have "\<forall>c \<in> set '':@/?&=[]''. \<not> is_alnum c \<and> c \<noteq> CHR ''%''" by code_simp
  note n = bspec[OF this assms]
  show ?thesis
  proof
    assume "c \<in> set (pct_encode s)"
    from pct_encode_chars[OF this] n show False by simp
  qed
qed

lemma pct_encode_no_seps [simp]:
  "CHR '':'' \<notin> set (pct_encode s)" "CHR ''@'' \<notin> set (pct_encode s)" "CHR ''/'' \<notin> set (pct_encode s)"
  "CHR ''?'' \<notin> set (pct_encode s)" "CHR ''&'' \<notin> set (pct_encode s)" "CHR ''='' \<notin> set (pct_encode s)"
  by (rule pct_encode_no_sep; simp)+

lemma parse_option_text:
  "k \<noteq> [] \<Longrightarrow> parse_option (option_text (k, v)) out = Inr (out(k \<mapsto> v))"
  by (simp add: parse_option_def option_text_def find_char_append)

lemma option_text_facts: "option_text kv \<noteq> []" "CHR ''&'' \<notin> set (option_text kv)"
  by (simp_all add: option_text_def)

lemma map_add_singleton: "out ++ map_of [(k, v)] = out(k \<mapsto> v)"
  by simp

lemma parse_options_last:
  assumes "k \<noteq> []"
  shows "parse_options_loop (option_text (k, v)) out = Inr (out(k \<mapsto> v))"
proof -
  have "find_char (CHR ''&'') (option_text (k, v)) = None"
    by (simp add: find_char_None option_text_facts)
  then show ?thesis
    by (subst parse_options_loop.simps) (simp add: assms option_text_facts parse_option_text)
qed

lemma parse_options_more:
  assumes "k \<noteq> []"
  shows "parse_options_loop (option_text (k, v) @ CHR ''&'' # rest) out =
         parse_options_loop rest (out(k \<mapsto> v))"
proof -
  have "find_char (CHR ''&'') (option_text (k, v) @ CHR ''&'' # rest) = Some (length (option_text (k, v)))"
    by (rule find_char_append) (rule option_text_facts)
  then show ?thesis
    by (subst parse_options_loop.simps) (simp add: assms option_text_facts parse_option_text)
qed

lemma parse_options_text:
  assumes "[] \<notin> fst ` set opts" and "opts \<noteq> []"
  shows "parse_options_loop (options_text opts) out = Inr (out ++ map_of (rev opts))"
  using assms
proof (induction opts arbitrary: out rule: options_text.induct)
  case (2 kv)
  then have "parse_options_loop (options_text [kv]) out = Inr (out(fst kv \<mapsto> snd kv))"
    using parse_options_last[of "fst kv" "snd kv" out] by auto
  also have "out(fst kv \<mapsto> snd kv) = out ++ map_of (rev [kv])"
    by (cases kv) (simp add: map_add_def fun_eq_iff)
  finally show ?case .
next
  case (3 kv kv' kvs)
  have "parse_options_loop (options_text (kv # kv' # kvs)) out =
        parse_options_loop (options_text (kv' # kvs)) (out(fst kv \<mapsto> snd kv))"
    using parse_options_more[of "fst kv" "snd kv" "options_text (kv' # kvs)" out] 3(2) by auto
  also have "\<dots> = Inr (out(fst kv \<mapsto> snd kv) ++ map_of (rev (kv' # kvs)))"
    using 3 by (intro 3(1)) auto
  also have "out(fst kv \<mapsto> snd kv) ++ map_of (rev (kv' # kvs)) = out ++ map_of (rev (kv # kv' # kvs))"
    using map_add_singleton[of out "fst kv" "snd kv"]
    by (simp only: rev.simps(2)[of kv] map_of_append map_add_assoc prod.collapse)
  finally show ?case .
qed simp

lemma parse_userinfo_text:
  "parse_userinfo (pct_encode user @ CHR '':'' # pct_encode pass) info =
   Inr (info\<lparr>ci_username := user, ci_password := pass\<rparr>)"
  by (simp add: parse_userinfo_def find_char_append)

lemma parse_port_dec: "p \<le> 65535 \<Longrightarrow> parse_port (dec_string p) = Inr (Some p)"
  by (simp add: parse_port_def parse_whole_to_base)

lemma parse_host_port_endpoint:
  assumes "host \<noteq> []" "CHR ''['' \<notin> set host" "CHR '']'' \<notin> set host" "p \<le> 65535"
  shows "parse_host_port (endpoint_to_string \<lparr>ep_host = host, ep_port = p\<rparr>) info =
         Inr (info\<lparr>ci_host := host, ci_port := p\<rparr>)"
proof (cases "CHR '':'' \<in> set host")
  case True
  then have e: "endpoint_to_string \<lparr>ep_host = host, ep_port = p\<rparr> =
      (CHR ''['' # host) @ CHR '']'' # CHR '':'' # dec_string p"
    using find_char_None[of "CHR '':''" host] by (simp add: endpoint_to_string_def)
  have "find_char (CHR '']'') ((CHR ''['' # host) @ CHR '']'' # CHR '':'' # dec_string p) =
      Some (length (CHR ''['' # host))"
    using assms(3) by (intro find_char_append) simp
  then show ?thesis using e assms by (simp add: parse_host_port_def parse_port_dec value_or_def nth_append)
next
  case False
  then have e: "endpoint_to_string \<lparr>ep_host = host, ep_port = p\<rparr> = host @ CHR '':'' # dec_string p"
    using find_char_None[of "CHR '':''" host] by (simp add: endpoint_to_string_def)
  have "hd host \<noteq> CHR ''[''" using assms(1,2) by (cases host) auto
  then show ?thesis using e assms False colon_not_dec(1)[of p]
    by (simp add: parse_host_port_def parse_port_dec value_or_def find_char_append rfind_char_append)
qed

text \<open>What a host may contain for the text to be read back.\<close>

definition plain_host :: "string \<Rightarrow> bool" where
  "plain_host host \<longleftrightarrow> host \<noteq> [] \<and> (\<forall>c \<in> set ''[]/?@''. c \<notin> set host)"

lemma endpoint_chars:
  assumes "plain_host host" "c \<in> set ''/?@''"
  shows "c \<notin> set (endpoint_to_string \<lparr>ep_host = host, ep_port = p\<rparr>)"
proof -
  have "\<forall>c \<in> set ''/?@''. \<not> base_digit 10 c \<and> c \<noteq> CHR ''['' \<and> c \<noteq> CHR '']'' \<and> c \<noteq> CHR '':''" by code_simp
  then have "c \<notin> set (dec_string p)" "c \<noteq> CHR ''[''" "c \<noteq> CHR '']''" "c \<noteq> CHR '':''"
    using assms(2) to_base_no_char[of 10 c p] by auto
  with assms show ?thesis by (auto simp: endpoint_to_string_def plain_host_def)
qed

lemma parse_authority_text:
  assumes "plain_host host" "p \<le> 65535"
  shows "parse_authority (authority_text user pass host p) info =
         Inr (info\<lparr>ci_username := user, ci_password := pass, ci_host := host, ci_port := p\<rparr>)"
proof -
  let ?u = "pct_encode user @ CHR '':'' # pct_encode pass"
  let ?e = "endpoint_to_string \<lparr>ep_host = host, ep_port = p\<rparr>"
  have t: "authority_text user pass host p = ?u @ CHR ''@'' # ?e" by (simp add: authority_text_def)
  have "CHR ''@'' \<notin> set ?e" by (rule endpoint_chars[OF assms(1)]) simp
  then have "rfind_char (CHR ''@'') (?u @ CHR ''@'' # ?e) = Some (length ?u)" by (rule rfind_char_append)
  moreover have "host \<noteq> []" "CHR ''['' \<notin> set host" "CHR '']'' \<notin> set host"
    using assms(1) by (auto simp: plain_host_def)
  ultimately show ?thesis unfolding t
    by (simp add: parse_authority_def parse_userinfo_text parse_host_port_endpoint assms(2))
qed

lemma authority_chars:
  "plain_host host \<Longrightarrow> c \<in> set ''/?'' \<Longrightarrow> c \<notin> set (authority_text user pass host p)"
  using endpoint_chars[of host c p] by (auto simp: authority_text_def)

lemma authority_seps:
  "plain_host host \<Longrightarrow> c \<in> set (authority_text user pass host p) \<Longrightarrow> c \<notin> set ''/?''"
  using authority_chars by metis

lemma parse_tail_text:
  assumes "[] \<notin> fst ` set opts"
  shows "parse_tail (tail_text db opts) info =
         Inr (info\<lparr>ci_database := db, ci_options := (if opts = [] then ci_options info else map_of (rev opts))\<rparr>)"
proof (cases "opts = []")
  case True
  then show ?thesis by (simp add: tail_text_def parse_tail_def find_char_None[THEN iffD2])
next
  case False
  have "find_char (CHR ''?'') (pct_encode db @ CHR ''?'' # options_text opts) = Some (length (pct_encode db))"
    by (rule find_char_append) simp
  with False parse_options_text[OF assms False, of Map.empty] show ?thesis
    by (simp add: tail_text_def parse_tail_def parse_query_options_def)
qed

lemma find_scheme_sep: "CHR '':'' \<notin> set s \<Longrightarrow> find_sub ''://'' (s @ ''://'' @ r) = Some (length s)"
  by (induction s) auto

lemma network_schemes:
  assumes "scheme \<in> {''pgsql'', ''postgres'', ''postgresql'', ''pg'', ''mysql'', ''mariadb''}"
  shows "CHR '':'' \<notin> set scheme" "to_lower_copy scheme = scheme" "backend_from_scheme scheme \<noteq> Unknown"
    "\<not> starts_with ''sqlite:'' (scheme @ r)" "scheme \<noteq> []"
proof -
  have "list_all (\<lambda>s. CHR '':'' \<notin> set s \<and> to_lower_copy s = s \<and> backend_from_scheme s \<noteq> Unknown)
    [''pgsql'', ''postgres'', ''postgresql'', ''pg'', ''mysql'', ''mariadb'']" by code_simp
  then show "CHR '':'' \<notin> set scheme" "to_lower_copy scheme = scheme" "backend_from_scheme scheme \<noteq> Unknown"
    using assms by (auto simp: list_all_iff)
  show "\<not> starts_with ''sqlite:'' (scheme @ r)" "scheme \<noteq> []" using assms by auto
qed

text \<open>
  C30: the text of a connection to a network back end is read back: scheme,
  user, password, host (also an IPv6 address), port, database and options,
  whatever bytes user, password, database and options contain.
\<close>

theorem connection_url_roundtrip:
  assumes "scheme \<in> {''pgsql'', ''postgres'', ''postgresql'', ''pg'', ''mysql'', ''mariadb''}"
    and "plain_host host" and "0 < port" and "port \<le> 65535" and "[] \<notin> fst ` set opts"
  shows "parse_connection_url (connection_url scheme user pass host port db opts) =
     Inr \<lparr>ci_backend = backend_from_scheme scheme, ci_scheme = scheme, ci_host = host, ci_port = port,
       ci_database = db, ci_username = user, ci_password = pass, ci_path = [],
       ci_options = map_of (rev opts)\<rparr>"
proof -
  let ?a = "authority_text user pass host port" and ?t = "tail_text db opts"
  let ?url = "connection_url scheme user pass host port db opts"
  have t: "?t \<noteq> []" "hd ?t \<in> set ''/?''" by (simp_all add: tail_text_def)
  have s: "CHR '':'' \<notin> set scheme" "to_lower_copy scheme = scheme" "backend_from_scheme scheme \<noteq> Unknown"
    "\<not> starts_with ''sqlite:'' (scheme @ r)" "scheme \<noteq> []" for r
    by (rule network_schemes[OF assms(1)])+
  have f: "find_sub ''://'' ?url = Some (length scheme)"
    unfolding connection_url_def by (rule find_scheme_sep) (rule s)
  have p: "find_first_of ''/?'' (?a @ ?t) = Some (length ?a)"
    using find_first_of_append[of ?a "''/?''" ?t, OF authority_seps[OF assms(2)] disjI2[OF t(2)]] t(1)
    by (simp only: if_False)
  have d: "drop (length scheme + 3) ?url = ?a @ ?t" "take (length scheme) ?url = scheme" "?url \<noteq> []"
    "\<not> starts_with ''sqlite:'' ?url"
    using s(4,5) by (simp_all add: connection_url_def)
  show ?thesis
    unfolding parse_connection_url_def f option.case d(1,2) Let_def s(2) p head_to_simps
    using d(3,4) s(3) assms(3)
    by (simp add: parse_authority_text[OF assms(2,4)] parse_tail_text[OF assms(5)] default_port_def no_info_def)
qed

theorem connection_url_roundtrip_witness:
  "parse_connection_url (connection_url ''pg'' ''us:er'' ''p@ss'' ''::1'' 6432 ''my db'' [(''a&b'', ''1'')]) =
     Inr \<lparr>ci_backend = PostgreSQL, ci_scheme = ''pg'', ci_host = ''::1'', ci_port = 6432,
       ci_database = ''my db'', ci_username = ''us:er'', ci_password = ''p@ss'', ci_path = [],
       ci_options = map_of [(''a&b'', ''1'')]\<rparr>"
proof -
  have "backend_from_scheme ''pg'' = PostgreSQL" by code_simp
  then show ?thesis
    using connection_url_roundtrip[of "''pg''" "''::1''" 6432 "[(''a&b'', ''1'')]" "''us:er''" "''p@ss''" "''my db''"]
    by (simp add: plain_host_def)
qed

end
