(* ===== verification/Sql_Value.thy ===== *)
theory Sql_Value
  imports Prelude
begin

text \<open>
  Values and results of src/sql.cpp and their JSON text. A double is its
  binary64 content (sign, significand, exponent), so that std::to_string, the
  %f conversion, is computed exactly. The JSON grammar of RFC 8259 is a
  relation json_text between a document and its text, and the printer is
  shown to produce texts of that grammar.
\<close>

datatype double = Finite bool nat int | Inf bool | NaN bool

datatype Value =
    Null
  | Bool bool
  | Int64 int
  | Double double
  | Text string
  | Blob "nat list"

type_synonym SqlParams = "Value list"

record Result =
  res_columns :: "string list"
  res_rows :: "Value list list"
  res_affected_rows :: int
  res_last_insert_id :: int

definition column_index :: "Result \<Rightarrow> string \<Rightarrow> nat option" where
  "column_index r name = List.find (\<lambda>i. res_columns r ! i = name) [0..<length (res_columns r)]"

definition result_value :: "Result \<Rightarrow> nat \<Rightarrow> string \<Rightarrow> Value option" where
  "result_value r row column =
     (if row \<ge> length (res_rows r) then None
      else case column_index r column of
             None \<Rightarrow> None
           | Some index \<Rightarrow>
               if index \<ge> length (res_rows r ! row) then None else Some (res_rows r ! row ! index))"

section \<open>Numbers\<close>

text \<open>
  The %f conversion: the magnitude m * 2^e in millionths, rounded to the
  nearest integer with ties to even, printed with six digits after the point.
\<close>

definition round_half_even :: "nat \<Rightarrow> nat \<Rightarrow> nat" where
  "round_half_even n d =
     (let q = n div d; r = n mod d
      in if 2 * r < d \<or> (2 * r = d \<and> even q) then q else Suc q)"

definition millionths :: "nat \<Rightarrow> int \<Rightarrow> nat" where
  "millionths m e =
     (if 0 \<le> e then m * 2 ^ nat e * 1000000 else round_half_even (m * 1000000) (2 ^ nat (- e)))"

definition pad_zeros :: "nat \<Rightarrow> string \<Rightarrow> string" where
  "pad_zeros n s = replicate (n - length s) (CHR ''0'') @ s"

definition sign_string :: "bool \<Rightarrow> string" where
  "sign_string neg = (if neg then ''-'' else [])"

fun double_string :: "double \<Rightarrow> string" where
  "double_string (Finite neg m e) =
     sign_string neg @ dec_string (millionths m e div 1000000) @ ''.'' @
     pad_zeros 6 (dec_string (millionths m e mod 1000000))"
| "double_string (Inf neg) = sign_string neg @ ''inf''"
| "double_string (NaN neg) = sign_string neg @ ''nan''"

section \<open>Printing\<close>

text \<open>One turn of the loop of json_escape; snprintf pads to four hexadecimal digits.\<close>

definition json_escape_char :: "char \<Rightarrow> string" where
  "json_escape_char ch =
     (if ch = dquote then [CHR 0x5C, dquote]
      else if ch = CHR 0x5C then [CHR 0x5C, CHR 0x5C]
      else if ch = CHR 0x08 then [CHR 0x5C, CHR ''b'']
      else if ch = CHR 0x0C then [CHR 0x5C, CHR ''f'']
      else if ch = LF then [CHR 0x5C, CHR ''n'']
      else if ch = CR then [CHR 0x5C, CHR ''r'']
      else if ch = CHR 0x09 then [CHR 0x5C, CHR ''t'']
      else if ord ch < 32 then [CHR 0x5C, CHR ''u''] @ pad_zeros 4 (hex_string (ord ch))
      else [ch])"

definition json_escape :: "string \<Rightarrow> string" where
  "json_escape v = concat (map json_escape_char v)"

fun value_to_string :: "Value \<Rightarrow> string" where
  "value_to_string Null = ''NULL''"
| "value_to_string (Bool v) = (if v then ''1'' else ''0'')"
| "value_to_string (Int64 v) = int_string v"
| "value_to_string (Double v) = double_string v"
| "value_to_string (Text v) = v"
| "value_to_string (Blob v) = ''<blob:'' @ dec_string (length v) @ ''>''"

definition quoted :: "string \<Rightarrow> string" where
  "quoted s = [dquote] @ s @ [dquote]"

fun value_to_json :: "Value \<Rightarrow> string" where
  "value_to_json Null = ''null''"
| "value_to_json (Bool v) = (if v then ''true'' else ''false'')"
| "value_to_json (Int64 v) = int_string v"
| "value_to_json (Double v) = double_string v"
| "value_to_json (Text v) = quoted (json_escape v)"
| "value_to_json (Blob v) = quoted (''<blob:'' @ dec_string (length v) @ ''>'')"

text \<open>A loop that appends the items of a list with a comma before all but the first.\<close>

fun comma_list :: "string list \<Rightarrow> string" where
  "comma_list [] = []"
| "comma_list [x] = x"
| "comma_list (x # xs) = x @ '','' @ comma_list xs"

definition cell_key :: "string list \<Rightarrow> nat \<Rightarrow> string" where
  "cell_key columns c = (if c < length columns then columns ! c else ''col'' @ dec_string c)"

definition cell_json :: "string list \<Rightarrow> Value list \<Rightarrow> nat \<Rightarrow> string" where
  "cell_json columns row c =
     quoted (json_escape (cell_key columns c)) @ '':'' @ value_to_json (row ! c)"

definition row_json :: "string list \<Rightarrow> Value list \<Rightarrow> string" where
  "row_json columns row = ''{'' @ comma_list (map (cell_json columns row) [0..<length row]) @ ''}''"

definition result_to_json :: "Result \<Rightarrow> string" where
  "result_to_json r =
     ''{'' @ quoted ''columns'' @ '':['' @ comma_list (map (\<lambda>c. quoted (json_escape c)) (res_columns r)) @
     ''],'' @ quoted ''rows'' @ '':['' @ comma_list (map (row_json (res_columns r)) (res_rows r)) @
     ''],'' @ quoted ''affected_rows'' @ '':'' @ int_string (res_affected_rows r) @
     '','' @ quoted ''last_insert_id'' @ '':'' @ int_string (res_last_insert_id r) @ ''}''"

section \<open>Lookup of a cell\<close>

lemma find_upt_Some:
  "List.find P [0..<n] = Some i \<longleftrightarrow> i < n \<and> P i \<and> (\<forall>j < i. \<not> P j)"
  by (auto simp: find_Some_iff)

lemma column_index_Some:
  "column_index r name = Some i \<longleftrightarrow>
   i < length (res_columns r) \<and> res_columns r ! i = name \<and> (\<forall>j < i. res_columns r ! j \<noteq> name)"
  by (simp add: column_index_def find_upt_Some)

lemma column_index_None: "column_index r name = None \<longleftrightarrow> name \<notin> set (res_columns r)"
  by (auto simp: column_index_def find_None_iff in_set_conv_nth)

section \<open>The JSON grammar\<close>

text \<open>
  The content of a JSON string: json_unescape reads the escapes of RFC 8259
  (below U+0100 for the numeric one) and refuses bare quotes and control
  characters.
\<close>

definition hex4_value :: "char \<Rightarrow> char \<Rightarrow> char \<Rightarrow> char \<Rightarrow> nat option" where
  "hex4_value a b c d =
     (if list_all (base_digit 16) [a, b, c, d] then Some (digits_value 16 [a, b, c, d]) else None)"

definition simple_escape :: "char \<Rightarrow> char option" where
  "simple_escape c = map_of
     [(dquote, dquote), (CHR 0x5C, CHR 0x5C), (CHR ''/'', CHR ''/''), (CHR ''b'', CHR 0x08),
      (CHR ''f'', CHR 0x0C), (CHR ''n'', LF), (CHR ''r'', CR), (CHR ''t'', CHR 0x09)] c"

fun json_unescape :: "string \<Rightarrow> string option" where
  "json_unescape [] = Some []"
| "json_unescape (ch # cs) =
     (if ch = dquote \<or> ord ch < 32 then None
      else if ch \<noteq> CHR 0x5C then map_option (Cons ch) (json_unescape cs)
      else case cs of
             [] \<Rightarrow> None
           | e # rest \<Rightarrow>
               if e = CHR ''u'' then
                 (case rest of
                    a # b # c # d # rest' \<Rightarrow>
                      (case hex4_value a b c d of
                         Some n \<Rightarrow> if n < 256 then map_option (Cons (char_of n)) (json_unescape rest') else None
                       | None \<Rightarrow> None)
                  | _ \<Rightarrow> None)
               else case simple_escape e of
                      None \<Rightarrow> None
                    | Some x \<Rightarrow> map_option (Cons x) (json_unescape rest))"

text \<open>The number token: an optional minus, an integer without leading zero, an optional fraction.\<close>

definition json_int :: "string \<Rightarrow> bool" where
  "json_int t \<longleftrightarrow> t \<noteq> [] \<and> list_all is_digit t \<and> (hd t = CHR ''0'' \<longrightarrow> length t = 1)"

definition json_frac :: "string \<Rightarrow> bool" where
  "json_frac f \<longleftrightarrow> f = [] \<or> (hd f = CHR ''.'' \<and> tl f \<noteq> [] \<and> list_all is_digit (tl f))"

definition json_number :: "string \<Rightarrow> bool" where
  "json_number t =
     (let u = (if t \<noteq> [] \<and> hd t = CHR ''-'' then tl t else t)
      in json_int (takeWhile is_digit u) \<and> json_frac (dropWhile is_digit u))"

datatype json =
    JNull
  | JBool bool
  | JNumber string
  | JString string
  | JArray "json list"
  | JObject "(string \<times> json) list"

inductive json_text :: "json \<Rightarrow> string \<Rightarrow> bool" where
  null: "json_text JNull ''null''"
| bool: "json_text (JBool b) (if b then ''true'' else ''false'')"
| number: "json_number t \<Longrightarrow> json_text (JNumber t) t"
| string: "json_unescape b = Some s \<Longrightarrow> json_text (JString s) (quoted b)"
| array: "list_all2 json_text js ts \<Longrightarrow> json_text (JArray js) (''['' @ comma_list ts @ '']'')"
| object: "list_all2 (\<lambda>kv t. json_unescape (fst t) = Some (fst kv) \<and> json_text (snd kv) (snd t)) kvs ts \<Longrightarrow>
     json_text (JObject kvs) (''{'' @ comma_list (map (\<lambda>t. quoted (fst t) @ '':'' @ snd t) ts) @ ''}'')"


inductive_cases json_textE: "json_text j t"

lemma digit_char_0: "digit_char 0 = CHR ''0''"
  by code_simp

lemma hex_string_2:
  assumes "n < 256"
  shows "hex_string n = (if n < 16 then [digit_char n] else [digit_char (n div 16), digit_char (n mod 16)])"
proof -
  have "n div 16 < 16" using assms by (simp add: less_mult_imp_div_less)
  then have "hex_string (n div 16) = [digit_char (n div 16)]" by (simp add: to_base.simps[of 16 "n div 16"])
  then show ?thesis by (simp add: to_base.simps[of 16 n])
qed

lemma pad_hex:
  assumes "n < 256"
  shows "pad_zeros 4 (hex_string n) = [digit_char 0, digit_char 0, digit_char (n div 16), digit_char (n mod 16)]"
  by (cases "n < 16")
    (simp_all add: hex_string_2[OF assms] pad_zeros_def digit_char_0 numeral_2_eq_2 numeral_3_eq_3)

lemma hex4_value_digits:
  assumes "n < 256"
  shows "hex4_value (digit_char 0) (digit_char 0) (digit_char (n div 16)) (digit_char (n mod 16)) = Some n"
proof -
  have "n div 16 < 16" "n mod 16 < 16" using assms by (simp_all add: less_mult_imp_div_less)
  then show ?thesis by (simp add: hex4_value_def base_digit_char digits_value_def digit_value_char)
qed

lemma unescape_raw:
  assumes "c \<noteq> dquote" "c \<noteq> CHR 0x5C" "\<not> ord c < 32"
  shows "json_unescape (c # r) = map_option (Cons c) (json_unescape r)"
  unfolding json_unescape.simps(2)[of c r] using assms
  by (simp only: if_False simp_thms if_True not_False_eq_True)

lemma backslash_escapes: "\<not> (CHR 0x5C = dquote \<or> ord (CHR 0x5C) < 32)"
  by code_simp

lemma unescape_simple:
  assumes "simple_escape e = Some x" "e \<noteq> CHR ''u''"
  shows "json_unescape (CHR 0x5C # e # r) = map_option (Cons x) (json_unescape r)"
  unfolding json_unescape.simps(2)[of "CHR 0x5C"] using assms
  by (simp only: backslash_escapes if_False simp_thms list.case option.case)

lemma unescape_hex:
  assumes "hex4_value a b c d = Some n" "n < 256"
  shows "json_unescape (CHR 0x5C # CHR ''u'' # a # b # c # d # r) = map_option (Cons (char_of n)) (json_unescape r)"
  unfolding json_unescape.simps(2)[of "CHR 0x5C"] using assms
  by (simp only: backslash_escapes if_False if_True simp_thms list.case option.case)

declare json_unescape.simps(2) [simp del]

lemma simple_escapes:
  "simple_escape dquote = Some dquote" "simple_escape (CHR 0x5C) = Some (CHR 0x5C)"
  "simple_escape (CHR ''b'') = Some (CHR 0x08)" "simple_escape (CHR ''f'') = Some (CHR 0x0C)"
  "simple_escape (CHR ''n'') = Some LF" "simple_escape (CHR ''r'') = Some CR"
  "simple_escape (CHR ''t'') = Some (CHR 0x09)"
  by code_simp+

lemma escape_char_cases:
  obtains e where "json_escape_char c = [CHR 0x5C, e]" "simple_escape e = Some c" "e \<noteq> CHR ''u''"
  | "ord c < 32" "json_escape_char c = CHR 0x5C # CHR ''u'' # pad_zeros 4 (hex_string (ord c))"
  | "json_escape_char c = [c]" "c \<noteq> dquote" "c \<noteq> CHR 0x5C" "\<not> ord c < 32"
proof (cases "c \<in> {dquote, CHR 0x5C, CHR 0x08, CHR 0x0C, LF, CR, CHR 0x09}")
  case True
  then show ?thesis using that(1) simple_escapes by (auto simp: json_escape_char_def)
next
  case False
  then show ?thesis using that(2,3) by (auto simp: json_escape_char_def)
qed

lemma unescape_escape_char:
  "json_unescape (json_escape_char c @ r) = map_option (Cons c) (json_unescape r)"
proof (cases rule: escape_char_cases[of c])
  case (1 e)
  then show ?thesis by (simp add: unescape_simple)
next
  case 2
  then show ?thesis
    by (simp add: pad_hex unescape_hex[OF hex4_value_digits])
next
  case 3
  then show ?thesis by (simp add: unescape_raw)
qed

lemma json_unescape_escape [simp]: "json_unescape (json_escape s) = Some s"
proof (induction s)
  case (Cons c s)
  then show ?case using unescape_escape_char[of c "json_escape s"] by (simp add: json_escape_def)
qed (simp add: json_escape_def)

lemma json_unescape_plain:
  "list_all (\<lambda>c. c \<noteq> dquote \<and> c \<noteq> CHR 0x5C \<and> \<not> ord c < 32) s \<Longrightarrow> json_unescape s = Some s"
  by (induction s) (auto simp: unescape_raw)

section \<open>Printed numbers\<close>

lemma is_digit_base10: "base_digit 10 c \<longleftrightarrow> is_digit c"
  by (auto simp: base_digit_def digit_value_def is_digit_def is_lower_def is_upper_def split: if_splits)

lemma dec_string_digits: "list_all is_digit (dec_string n)"
  using to_base_digits[of 10 _ n] by (auto simp: list_all_iff is_digit_base10)

lemma hd_to_base: "n \<noteq> 0 \<Longrightarrow> hd (dec_string n) \<noteq> CHR ''0''"
proof (induction "10::nat" n rule: to_base.induct)
  case (1 n)
  show ?case
  proof (cases "n < 10")
    case True
    moreover have "\<forall>d \<in> set [1..<10]. digit_char d \<noteq> CHR ''0''" by code_simp
    ultimately show ?thesis using 1(2) by (simp add: to_base.simps[of 10 n])
  next
    case False
    then have "n div 10 \<noteq> 0" by auto
    with 1 False show ?thesis by (simp add: to_base.simps[of 10 n])
  qed
qed

lemma dec_string_0: "dec_string 0 = ''0''"
  by code_simp

lemma json_int_dec: "json_int (dec_string n)"
  using hd_to_base[of n] dec_string_digits[of n] by (cases "n = 0") (auto simp: json_int_def dec_string_0)

lemma span_digits:
  assumes "list_all is_digit a" "b = [] \<or> \<not> is_digit (hd b)"
  shows "takeWhile is_digit (a @ b) = a" "dropWhile is_digit (a @ b) = b"
proof -
  have "takeWhile is_digit b = []" "dropWhile is_digit b = b" using assms(2) by (cases b; auto)+
  then show "takeWhile is_digit (a @ b) = a" "dropWhile is_digit (a @ b) = b"
    using assms(1) by (simp_all add: list_all_iff)
qed

lemma minus_not_digit: "\<not> is_digit (CHR ''-'')" "\<not> is_digit (CHR ''.'')" "is_digit (CHR ''0'')"
  by code_simp+

lemma json_numberI:
  assumes "json_int i" "json_frac f" and s: "s = [] \<or> s = ''-''"
  shows "json_number (s @ i @ f)"
proof -
  have i: "list_all is_digit i" "i \<noteq> []" using assms(1) by (auto simp: json_int_def)
  then have "is_digit (hd i)" by (cases i) auto
  then have h: "hd (i @ f) \<noteq> CHR ''-''" using minus_not_digit(1) i(2) by auto
  have "f = [] \<or> \<not> is_digit (hd f)" using assms(2) minus_not_digit(2) by (auto simp: json_frac_def)
  note sp = span_digits[OF i(1) this]
  have u: "(if s @ i @ f \<noteq> [] \<and> hd (s @ i @ f) = CHR ''-'' then tl (s @ i @ f) else s @ i @ f) = i @ f"
    using s h by (elim disjE) (simp_all only: append.simps list.sel if_True if_False simp_thms if_cancel list.distinct not_False_eq_True)
  show ?thesis unfolding json_number_def u Let_def sp
    using assms(1,2) by blast
qed

lemma json_number_int: "json_number (int_string v)"
  using json_numberI[of "dec_string (nat v)" "[]" "[]"] json_numberI[of "dec_string (nat (- v))" "[]" "''-''"]
  by (simp add: int_string_def json_int_dec json_frac_def)

lemma json_number_finite: "json_number (double_string (Finite neg m e))"
proof -
  have "list_all is_digit (pad_zeros 6 (dec_string n))" "pad_zeros 6 (dec_string n) \<noteq> []" for n
    using dec_string_digits[of n] minus_not_digit by (auto simp: pad_zeros_def list_all_iff)
  then show ?thesis
    using json_numberI[of "dec_string (millionths m e div 1000000)"
        "CHR ''.'' # pad_zeros 6 (dec_string (millionths m e mod 1000000))" "sign_string neg"]
    by (simp add: json_int_dec json_frac_def sign_string_def)
qed

section \<open>Printed documents\<close>

text \<open>The document a value and a result stand for.\<close>

fun value_json :: "Value \<Rightarrow> json" where
  "value_json Null = JNull"
| "value_json (Bool b) = JBool b"
| "value_json (Int64 v) = JNumber (int_string v)"
| "value_json (Double d) = JNumber (double_string d)"
| "value_json (Text s) = JString s"
| "value_json (Blob b) = JString (''<blob:'' @ dec_string (length b) @ ''>'')"

definition row_object :: "string list \<Rightarrow> Value list \<Rightarrow> json" where
  "row_object columns row =
     JObject (map (\<lambda>c. (cell_key columns c, value_json (row ! c))) [0..<length row])"

definition result_json :: "Result \<Rightarrow> json" where
  "result_json r = JObject
     [(''columns'', JArray (map JString (res_columns r))),
      (''rows'', JArray (map (row_object (res_columns r)) (res_rows r))),
      (''affected_rows'', JNumber (int_string (res_affected_rows r))),
      (''last_insert_id'', JNumber (int_string (res_last_insert_id r)))]"

fun finite_value :: "Value \<Rightarrow> bool" where
  "finite_value (Double (Inf _)) = False"
| "finite_value (Double (NaN _)) = False"
| "finite_value _ = True"

lemma blob_text_plain: "json_unescape (''<blob:'' @ dec_string n @ ''>'') = Some (''<blob:'' @ dec_string n @ ''>'')"
proof (rule json_unescape_plain)
  have "list_all (\<lambda>c. c \<noteq> dquote \<and> c \<noteq> CHR 0x5C \<and> \<not> ord c < 32) (dec_string n)"
    by (rule list.pred_mono_strong[OF dec_string_digits]) (auto simp: is_digit_def ord_def)
  then show "list_all (\<lambda>c. c \<noteq> dquote \<and> c \<noteq> CHR 0x5C \<and> \<not> ord c < 32) (''<blob:'' @ dec_string n @ ''>'')"
    by (simp add: ord_def)
qed

lemma value_to_json_text: "finite_value v \<Longrightarrow> json_text (value_json v) (value_to_json v)"
proof (cases v)
  case (Double d)
  assume "finite_value v"
  with Double show ?thesis
    by (cases d) (auto simp del: double_string.simps intro: json_text.number json_number_finite)
next
  case (Bool b)
  then show ?thesis using json_text.bool[of b] by simp
next
  case (Blob b)
  then show ?thesis using json_text.string[OF blob_text_plain] by simp
qed (auto intro: json_text.intros json_number_int)

lemma row_json_text:
  assumes "list_all finite_value row"
  shows "json_text (row_object columns row) (row_json columns row)"
proof -
  let ?ts = "map (\<lambda>c. (json_escape (cell_key columns c), value_to_json (row ! c))) [0..<length row]"
  have "list_all2 (\<lambda>kv t. json_unescape (fst t) = Some (fst kv) \<and> json_text (snd kv) (snd t))
      (map (\<lambda>c. (cell_key columns c, value_json (row ! c))) [0..<length row]) ?ts"
    using assms by (auto simp: list_all2_conv_all_nth list_all_length intro: value_to_json_text)
  from json_text.object[OF this] show ?thesis
    by (simp add: row_object_def row_json_def cell_json_def[abs_def] comp_def)
qed

lemma key_plain:
  "json_unescape ''columns'' = Some ''columns''" "json_unescape ''rows'' = Some ''rows''"
  "json_unescape ''affected_rows'' = Some ''affected_rows''"
  "json_unescape ''last_insert_id'' = Some ''last_insert_id''"
  by code_simp+

lemma columns_json_text:
  "json_text (JArray (map JString cs)) (''['' @ comma_list (map (\<lambda>c. quoted (json_escape c)) cs) @ '']'')"
  by (rule json_text.array) (auto simp: list_all2_conv_all_nth intro: json_text.string)

lemma rows_json_text:
  assumes "list_all (list_all finite_value) rows"
  shows "json_text (JArray (map (row_object cs) rows)) (''['' @ comma_list (map (row_json cs) rows) @ '']'')"
  by (rule json_text.array)
    (use assms in \<open>auto simp: list_all2_conv_all_nth list_all_length[of "list_all finite_value"]
       intro: row_json_text\<close>)

text \<open>The text of a query result is a JSON document: the object with the
  column names, one object per row, and the two counters, each string read
  back exactly whatever bytes it holds; provided no cell is an infinity or a
  NaN.\<close>

theorem result_to_json_valid:
  assumes "\<forall>row \<in> set (res_rows r). \<forall>v \<in> set row. finite_value v"
  shows "json_text (result_json r) (result_to_json r)"
proof -
  let ?cs = "''['' @ comma_list (map (\<lambda>c. quoted (json_escape c)) (res_columns r)) @ '']''"
  let ?rs = "''['' @ comma_list (map (row_json (res_columns r)) (res_rows r)) @ '']''"
  let ?ts = "[(''columns'', ?cs), (''rows'', ?rs), (''affected_rows'', int_string (res_affected_rows r)),
      (''last_insert_id'', int_string (res_last_insert_id r))]"
  have rows: "list_all (list_all finite_value) (res_rows r)"
    using assms by (simp add: list_all_iff)
  have "json_text (result_json r) (''{'' @ comma_list (map (\<lambda>t. quoted (fst t) @ '':'' @ snd t) ?ts) @ ''}'')"
    unfolding result_json_def
    by (rule json_text.object)
      (simp only: list_all2_Cons list_all2_Nil fst_conv snd_conv key_plain columns_json_text
        rows_json_text[OF rows] json_text.number[OF json_number_int] simp_thms)
  then show ?thesis by (simp add: result_to_json_def)
qed

theorem result_to_json_valid_witness:
  "json_text (result_json \<lparr>res_columns = [''a''], res_rows = [[Text [dquote, LF], Double (Finite True 5 (-1))]],
       res_affected_rows = -1, res_last_insert_id = 7\<rparr>)
     (result_to_json \<lparr>res_columns = [''a''], res_rows = [[Text [dquote, LF], Double (Finite True 5 (-1))]],
       res_affected_rows = -1, res_last_insert_id = 7\<rparr>)"
  by (rule result_to_json_valid) simp

lemma json_text_start:
  assumes "json_text j t"
  shows "t \<in> {''null'', ''true'', ''false''} \<or> json_number t \<or> (\<exists>c r. t = c # r \<and> c \<in> {dquote, CHR ''['', CHR ''{''})"
  using assms by (cases rule: json_text.cases) (auto simp: quoted_def)

definition not_json :: "string \<Rightarrow> bool" where
  "not_json t \<longleftrightarrow> t \<notin> {''null'', ''true'', ''false''} \<and> \<not> json_number t \<and>
     (case t of [] \<Rightarrow> True | c # _ \<Rightarrow> c \<notin> {dquote, CHR ''['', CHR ''{''})"

lemma not_json_text: "not_json t \<Longrightarrow> \<not> json_text j t"
  using json_text_start[of j t] by (auto simp: not_json_def)

text \<open>A NaN or an infinity, which SQL back ends can return in a double
  column, is printed as nan or inf: no JSON document has such a text.\<close>

theorem nan_is_no_json:
  "\<not> json_text j (value_to_json (Double (NaN neg))) \<and> \<not> json_text j (value_to_json (Double (Inf neg)))"
proof -
  have "\<forall>b \<in> set [True, False].
      not_json (value_to_json (Double (NaN b))) \<and> not_json (value_to_json (Double (Inf b)))"
    by code_simp
  then have "not_json (value_to_json (Double (NaN neg))) \<and> not_json (value_to_json (Double (Inf neg)))"
    by (rule bspec) (cases neg; simp only: list.set insert_iff simp_thms)
  then show ?thesis by (simp only: not_json_text simp_thms)
qed

end
