(* ===== verification/Blocking.thy ===== *)
theory Blocking
  imports Prelude Transition
begin

text \<open>
  blocking::run of include/corouv/blocking.h: a function runs on libuv's
  thread pool while the coroutine that awaits it is suspended on the loop.
  The awaiter's operations are definitions over the shared Op record; the
  step relation interleaves the coroutine, the loop, the worker thread and a
  canceling thread. uv_cancel takes a request out of the pool's queue only
  before a worker has taken it, as libuv documents. The function acts on a
  state of any type; run_work summarises a whole await.
\<close>

text \<open>Where the request is: not submitted, in the queue, with a worker, handed back to the loop.\<close>

datatype req_place = NoReq | InQueue | Working | Returned uv_err | Returned_ok | Finished

datatype coro = Running | Armed | Suspended | Resumed nat | Destroyed

record ('s, 'a) work_op =
  wo_queued :: bool
  wo_cancel_requested :: bool
  wo_abandoned :: bool
  wo_start_rc :: "uv_err option"
  wo_after_status :: "uv_err option"
  wo_result :: "'a result option"
  wo_place :: req_place
  wo_coro :: coro
  wo_signaled :: bool
  wo_cancels :: nat
  wo_state :: 's
  wo_runs :: nat

text \<open>The Op a fresh await_suspend builds, in a coroutine whose slot was or was not signaled.\<close>

definition new_work :: "bool \<Rightarrow> 's \<Rightarrow> ('s, 'a) work_op" where
  "new_work signaled s = \<lparr>wo_queued = False, wo_cancel_requested = False, wo_abandoned = False,
     wo_start_rc = None, wo_after_status = None, wo_result = None, wo_place = NoReq,
     wo_coro = Running, wo_signaled = signaled, wo_cancels = 0, wo_state = s, wo_runs = 0\<rparr>"

text \<open>
  The coroutine runs await_ready and tryEmplace while Running (a signal that
  came before makes either of them go on at once) and is Armed once the slot
  holds the handler.
\<close>

text \<open>The slot's handler: the flag, then a call of try_cancel_on_loop scheduled on the loop.\<close>

definition request_work_cancel :: "('s, 'a) work_op \<Rightarrow> ('s, 'a) work_op" where
  "request_work_cancel w = w\<lparr>wo_signaled := True, wo_cancel_requested := True, wo_cancels := Suc (wo_cancels w)\<rparr>"

definition try_cancel_on_loop :: "('s, 'a) work_op \<Rightarrow> ('s, 'a) work_op" where
  "try_cancel_on_loop w =
     (if \<not> wo_queued w then w
      else if wo_place w = InQueue then w\<lparr>wo_place := Returned UV_ECANCELED\<rparr>
      else w)"

text \<open>await_suspend after the handler is in place: submit, or keep the error and go on.\<close>

definition submit_work :: "uv_err option \<Rightarrow> ('s, 'a) work_op \<Rightarrow> ('s, 'a) work_op" where
  "submit_work rc w =
     (case rc of
        Some e \<Rightarrow> w\<lparr>wo_start_rc := Some e, wo_coro := Resumed 1\<rparr>
      | None \<Rightarrow>
          (let w1 = w\<lparr>wo_place := InQueue, wo_queued := True, wo_coro := Suspended\<rparr>
           in if wo_cancel_requested w1 then try_cancel_on_loop w1 else w1))"

definition on_work :: "('s \<Rightarrow> 'a result \<times> 's) \<Rightarrow> ('s, 'a) work_op \<Rightarrow> ('s, 'a) work_op" where
  "on_work fn w =
     (let (r, s) = fn (wo_state w)
      in w\<lparr>wo_result := Some r, wo_state := s, wo_runs := Suc (wo_runs w), wo_place := Returned_ok\<rparr>)"

definition resume_coro :: "coro \<Rightarrow> coro" where
  "resume_coro c = (case c of Resumed n \<Rightarrow> Resumed (Suc n) | _ \<Rightarrow> Resumed 1)"

definition on_after_work :: "uv_err option \<Rightarrow> ('s, 'a) work_op \<Rightarrow> ('s, 'a) work_op" where
  "on_after_work status w =
     (let w1 = w\<lparr>wo_after_status := status, wo_place := Finished\<rparr>
      in if wo_abandoned w1 then w1 else w1\<lparr>wo_coro := resume_coro (wo_coro w1)\<rparr>)"

text \<open>await_resume; an Op without a result cannot be reached here (the optional would be empty).\<close>

definition work_result :: "('s, 'a) work_op \<Rightarrow> 'a result" where
  "work_result w =
     (if wo_signaled w then Inl (SignalException ''corouv blocking::run canceled'')
      else case wo_start_rc w of
             Some e \<Rightarrow> Inl (UvError e ''uv_queue_work'')
           | None \<Rightarrow>
               if wo_after_status w = Some UV_ECANCELED
               then Inl (RuntimeError ''corouv blocking::run canceled (UV_ECANCELED)'')
               else case wo_result w of
                      Some r \<Rightarrow> r
                    | None \<Rightarrow> Inl (LogicError ''corouv blocking::run: missing state''))"

text \<open>~WorkAwaiter while the coroutine is suspended.\<close>

definition abandon_work :: "('s, 'a) work_op \<Rightarrow> ('s, 'a) work_op" where
  "abandon_work w = w\<lparr>wo_abandoned := True, wo_coro := Destroyed, wo_cancels := Suc (wo_cancels w)\<rparr>"

inductive work_step :: "('s \<Rightarrow> 'a result \<times> 's) \<Rightarrow> ('s, 'a) work_op \<Rightarrow> ('s, 'a) work_op \<Rightarrow> bool"
  for fn :: "'s \<Rightarrow> 'a result \<times> 's" where
  ready: "wo_coro w = Running \<Longrightarrow> wo_signaled w \<Longrightarrow> work_step fn w (w\<lparr>wo_coro := Resumed 1\<rparr>)"
| arm: "wo_coro w = Running \<Longrightarrow> \<not> wo_signaled w \<Longrightarrow> work_step fn w (w\<lparr>wo_coro := Armed\<rparr>)"
| submit: "wo_coro w = Armed \<Longrightarrow> work_step fn w (submit_work rc w)"
| signal_early: "wo_coro w = Running \<Longrightarrow> \<not> wo_signaled w \<Longrightarrow> work_step fn w (w\<lparr>wo_signaled := True\<rparr>)"
| signal: "wo_coro w \<noteq> Running \<Longrightarrow> \<not> wo_signaled w \<Longrightarrow> work_step fn w (request_work_cancel w)"
| loop_cancel: "wo_cancels w = Suc n \<Longrightarrow>
     work_step fn w (try_cancel_on_loop (w\<lparr>wo_cancels := n\<rparr>))"
| worker_takes: "wo_place w = InQueue \<Longrightarrow> work_step fn w (w\<lparr>wo_place := Working\<rparr>)"
| worker_runs: "wo_place w = Working \<Longrightarrow> work_step fn w (on_work fn w)"
| after_ok: "wo_place w = Returned_ok \<Longrightarrow> work_step fn w (on_after_work None w)"
| after_error: "wo_place w = Returned e \<Longrightarrow> work_step fn w (on_after_work (Some e) w)"
| destroy: "wo_coro w = Suspended \<Longrightarrow> work_step fn w (abandon_work w)"

definition work_init :: "bool \<Rightarrow> 's \<Rightarrow> ('s, 'a) work_op \<Rightarrow> bool" where
  "work_init signaled s w \<longleftrightarrow> w = new_work signaled s"

section \<open>A whole await\<close>

text \<open>
  What can happen to an awaited function: refused because the coroutine was
  canceled, not queued, taken out of the queue by a cancellation, run, or run
  while a cancellation arrived.
\<close>

datatype fate = Refused | NotQueued uv_err | Dequeued | Ran | RanCanceled

abbreviation work_canceled :: exn where
  "work_canceled \<equiv> SignalException ''corouv blocking::run canceled''"

fun run_work :: "fate \<Rightarrow> ('s \<Rightarrow> 'a result \<times> 's) \<Rightarrow> 's \<Rightarrow> 'a result \<times> 's" where
  "run_work Refused fn s = (Inl work_canceled, s)"
| "run_work (NotQueued e) fn s = (Inl (UvError e ''uv_queue_work''), s)"
| "run_work Dequeued fn s = (Inl work_canceled, s)"
| "run_work Ran fn s = fn s"
| "run_work RanCanceled fn s = (Inl work_canceled, snd (fn s))"

text \<open>
  The invariant, one predicate per concern: how often the function ran, who
  may hold the request, and what a cancellation may have done.
\<close>

definition work_done :: "('s, 'a) work_op \<Rightarrow> bool" where
  "work_done w \<longleftrightarrow> wo_place w = Returned_ok \<or> (wo_place w = Finished \<and> wo_after_status w = None)"

definition work_ran :: "('s \<Rightarrow> 'a result \<times> 's) \<Rightarrow> 's \<Rightarrow> ('s, 'a) work_op \<Rightarrow> bool" where
  "work_ran fn s w \<longleftrightarrow>
     (if work_done w then wo_runs w = 1 \<and> wo_state w = snd (fn s) \<and> wo_result w = Some (fst (fn s))
      else wo_runs w = 0 \<and> wo_state w = s \<and> wo_result w = None)"

definition work_held :: "('s, 'a) work_op \<Rightarrow> bool" where
  "work_held w \<longleftrightarrow>
     (wo_coro w \<in> {Running, Armed} \<longrightarrow> wo_place w = NoReq \<and> wo_start_rc w = None) \<and>
     (wo_coro w = Suspended \<longrightarrow> wo_place w \<notin> {NoReq, Finished}) \<and>
     (\<forall>n. wo_coro w = Resumed n \<longrightarrow> n = 1 \<and> wo_place w \<in> {NoReq, Finished} \<and>
        (wo_place w = NoReq \<longrightarrow> wo_signaled w \<or> wo_start_rc w \<noteq> None)) \<and>
     (wo_coro w = Destroyed \<longrightarrow> wo_place w \<noteq> NoReq) \<and>
     (wo_abandoned w \<longleftrightarrow> wo_coro w = Destroyed) \<and>
     (wo_place w \<noteq> NoReq \<longrightarrow> wo_start_rc w = None)"

definition work_error :: "('s, 'a) work_op \<Rightarrow> uv_err option" where
  "work_error w =
     (case wo_place w of Returned e \<Rightarrow> Some e | Finished \<Rightarrow> wo_after_status w | _ \<Rightarrow> None)"

definition work_cancels :: "('s, 'a) work_op \<Rightarrow> bool" where
  "work_cancels w \<longleftrightarrow>
     (work_error w \<noteq> None \<longrightarrow> work_error w = Some UV_ECANCELED \<and> (wo_signaled w \<or> wo_abandoned w)) \<and>
     (wo_cancel_requested w \<longrightarrow> wo_signaled w) \<and>
     (0 < wo_cancels w \<longrightarrow> wo_signaled w \<or> wo_abandoned w)"

definition work_good :: "('s \<Rightarrow> 'a result \<times> 's) \<Rightarrow> 's \<Rightarrow> ('s, 'a) work_op \<Rightarrow> bool" where
  "work_good fn s w \<longleftrightarrow> work_ran fn s w \<and> work_held w \<and> work_cancels w"

lemmas work_ops = try_cancel_on_loop_def submit_work_def request_work_cancel_def on_work_def
  on_after_work_def resume_coro_def abandon_work_def

lemma work_ran_step:
  "work_step fn w w' \<Longrightarrow> work_ran fn s w \<Longrightarrow> work_held w \<Longrightarrow> work_ran fn s w'"
  by (induction rule: work_step.induct)
    (auto simp: work_ops work_ran_def work_done_def work_held_def split_beta Let_def
      split: if_splits option.splits)

lemma work_held_step:
  "work_step fn w w' \<Longrightarrow> work_held w \<Longrightarrow> work_held w'"
  by (induction rule: work_step.induct)
    (auto simp: work_ops work_held_def split_beta Let_def split: if_splits option.splits coro.splits)

lemma work_error_simps [simp]:
  "work_error (w\<lparr>wo_coro := c\<rparr>) = work_error w"
  "work_error (w\<lparr>wo_signaled := g\<rparr>) = work_error w"
  "work_error (w\<lparr>wo_cancels := k\<rparr>) = work_error w"
  "work_error (request_work_cancel w) = work_error w"
  "work_error (abandon_work w) = work_error w"
  "wo_place w = InQueue \<Longrightarrow> work_error (w\<lparr>wo_place := Working\<rparr>) = None"
  "work_error (on_work fn w) = None"
  "work_error (on_after_work st w) = st"
  by (simp_all add: work_error_def work_ops split_beta Let_def split: req_place.splits)

lemma try_cancel_error:
  "work_error (try_cancel_on_loop w) =
     (if wo_queued w \<and> wo_place w = InQueue then Some UV_ECANCELED else work_error w)"
  by (simp add: work_error_def try_cancel_on_loop_def)

lemma submit_error:
  "wo_place w = NoReq \<Longrightarrow> work_error (submit_work rc w) =
     (if rc = None \<and> wo_cancel_requested w then Some UV_ECANCELED else None)"
  by (simp add: work_error_def submit_work_def try_cancel_on_loop_def Let_def split: option.splits)

lemma work_flags:
  "wo_signaled (submit_work rc w) = wo_signaled w" "wo_abandoned (submit_work rc w) = wo_abandoned w"
  "wo_cancels (submit_work rc w) = wo_cancels w"
  "wo_cancel_requested (submit_work rc w) = wo_cancel_requested w"
  "wo_signaled (try_cancel_on_loop w) = wo_signaled w" "wo_abandoned (try_cancel_on_loop w) = wo_abandoned w"
  "wo_cancels (try_cancel_on_loop w) = wo_cancels w"
  "wo_cancel_requested (try_cancel_on_loop w) = wo_cancel_requested w"
  "wo_signaled (on_work fn w) = wo_signaled w" "wo_abandoned (on_work fn w) = wo_abandoned w"
  "wo_cancels (on_work fn w) = wo_cancels w" "wo_cancel_requested (on_work fn w) = wo_cancel_requested w"
  "wo_signaled (on_after_work st w) = wo_signaled w" "wo_abandoned (on_after_work st w) = wo_abandoned w"
  "wo_cancels (on_after_work st w) = wo_cancels w"
  "wo_cancel_requested (on_after_work st w) = wo_cancel_requested w"
  by (simp_all add: work_ops split_beta Let_def split: option.splits)

lemma work_cancels_step:
  assumes "work_step fn w w'" "work_held w" "work_cancels w"
  shows "work_cancels w'"
  using assms
proof (induction rule: work_step.induct)
  case (submit w rc)
  then have "wo_place w = NoReq" by (simp add: work_held_def)
  with submit show ?case by (simp add: work_cancels_def submit_error work_flags)
next
  case (loop_cancel w n)
  then show ?case by (simp add: work_cancels_def try_cancel_error work_flags)
next
  case (signal w)
  then show ?case by (simp add: work_cancels_def) (simp add: request_work_cancel_def)
next
  case (after_error w e)
  then have "work_error w = Some e" by (simp add: work_error_def)
  with after_error show ?case by (simp add: work_cancels_def work_flags)
next
  case (destroy w)
  then show ?case by (simp add: work_cancels_def) (simp add: abandon_work_def)
qed (simp_all add: work_cancels_def work_flags)

lemma new_work_good: "work_good fn s (new_work signaled s)"
  by (simp add: work_good_def work_ran_def work_held_def work_cancels_def new_work_def work_done_def work_error_def)

interpretation work_run: invariant_system "work_init signaled s" "work_step fn" "work_good fn s"
proof unfold_locales
  show "work_init signaled s w \<Longrightarrow> work_good fn s w" for w
    by (simp only: work_init_def new_work_good)
  show "work_good fn s w \<Longrightarrow> work_step fn w w' \<Longrightarrow> work_good fn s w'" for w w'
    by (auto simp: work_good_def intro: work_ran_step work_held_step work_cancels_step)
qed

lemma work_result_fate:
  assumes "work_good fn s w" "wo_coro w = Resumed n"
  shows "\<exists>fate. (work_result w, wo_state w) = run_work fate fn s \<and>
    (wo_signaled w \<or> fate = Ran \<or> (\<exists>e. fate = NotQueued e))"
proof (cases "wo_signaled w")
  case True
  then have r: "work_result w = Inl work_canceled" by (simp add: work_result_def)
  show ?thesis
  proof (cases "work_done w")
    case True
    with assms r \<open>wo_signaled w\<close> show ?thesis
      by (intro exI[of _ RanCanceled]) (simp add: work_good_def work_ran_def)
  next
    case False
    with assms r \<open>wo_signaled w\<close> show ?thesis
      by (intro exI[of _ Dequeued]) (simp add: work_good_def work_ran_def)
  qed
next
  case False
  then have place: "wo_place w \<in> {NoReq, Finished}" "wo_abandoned w = False"
    "wo_place w = NoReq \<Longrightarrow> wo_start_rc w \<noteq> None" "wo_place w = Finished \<Longrightarrow> wo_start_rc w = None"
    using assms by (auto simp: work_good_def work_held_def)
  show ?thesis
  proof (cases "wo_place w = Finished")
    case True
    with False place(2) assms have "wo_after_status w = None"
      by (simp add: work_good_def work_cancels_def work_error_def)
    with True False place assms show ?thesis
      by (intro exI[of _ Ran]) (simp add: work_good_def work_ran_def work_done_def work_result_def)
  next
    case n: False
    then have "wo_place w = NoReq" using place by auto
    moreover then obtain e where "wo_start_rc w = Some e" using place by auto
    ultimately show ?thesis using n False assms
      by (intro exI[of _ "NotQueued e"]) (simp add: work_good_def work_ran_def work_done_def work_result_def)
  qed
qed

text \<open>
  C29: however the coroutine, the loop, the worker and a cancellation
  interleave, the function runs at most once, its coroutine is resumed at
  most once and never after it was destroyed, and a resumed await has one of
  the outcomes of run_work: without a cancellation, the function's own result
  or the error of queueing it.
\<close>

theorem blocking_outcome:
  assumes "reachable (work_init signaled s) (work_step fn) w"
  shows "wo_runs w \<le> 1 \<and> (wo_abandoned w \<longrightarrow> wo_coro w = Destroyed) \<and>
    (\<forall>n. wo_coro w = Resumed n \<longrightarrow> n = 1 \<and>
       (\<exists>fate. (work_result w, wo_state w) = run_work fate fn s \<and>
         (wo_signaled w \<or> fate = Ran \<or> (\<exists>e. fate = NotQueued e))))"
proof -
  have good: "work_good fn s w" using assms by (rule work_run.reachable_good)
  then have "wo_runs w \<le> 1" "wo_abandoned w \<longrightarrow> wo_coro w = Destroyed"
    "\<forall>n. wo_coro w = Resumed n \<longrightarrow> n = 1"
    by (auto simp: work_good_def work_ran_def work_held_def split: if_splits)
  with work_result_fate[OF good] show ?thesis by blast
qed

definition sample_work :: "nat \<Rightarrow> nat result \<times> nat" where
  "sample_work n = (Inr (n + 1), n + 10)"

lemma sample_work_reached:
  "reachable (work_init False 5) (work_step sample_work)
     (on_after_work None (on_work sample_work (submit_work None (new_work False 5\<lparr>wo_coro := Armed\<rparr>)\<lparr>wo_place := Working\<rparr>)))"
proof -
  let ?w = "new_work False 5 :: (nat, nat) work_op"
  have "reachable (work_init False 5) (work_step sample_work) ?w"
    by (rule start) (simp add: work_init_def)
  moreover have "work_step sample_work ?w (?w\<lparr>wo_coro := Armed\<rparr>)"
    by (rule arm) (simp_all add: new_work_def)
  moreover have "work_step sample_work (?w\<lparr>wo_coro := Armed\<rparr>) (submit_work None (?w\<lparr>wo_coro := Armed\<rparr>))"
    by (rule submit) simp
  moreover have "work_step sample_work (submit_work None (?w\<lparr>wo_coro := Armed\<rparr>))
      (submit_work None (?w\<lparr>wo_coro := Armed\<rparr>)\<lparr>wo_place := Working\<rparr>)"
    by (rule worker_takes) (simp add: submit_work_def new_work_def)
  moreover have "work_step sample_work (submit_work None (?w\<lparr>wo_coro := Armed\<rparr>)\<lparr>wo_place := Working\<rparr>)
      (on_work sample_work (submit_work None (?w\<lparr>wo_coro := Armed\<rparr>)\<lparr>wo_place := Working\<rparr>))"
    by (rule worker_runs) simp
  moreover have "work_step sample_work (on_work sample_work (submit_work None (?w\<lparr>wo_coro := Armed\<rparr>)\<lparr>wo_place := Working\<rparr>))
      (on_after_work None (on_work sample_work (submit_work None (?w\<lparr>wo_coro := Armed\<rparr>)\<lparr>wo_place := Working\<rparr>)))"
    by (rule after_ok) (simp add: on_work_def split_beta)
  ultimately show ?thesis by (meson next_state)
qed

theorem blocking_outcome_witness:
  "\<exists>fate. (Inr 6, 15) = run_work fate sample_work 5 \<and> (fate = Ran \<or> (\<exists>e. fate = NotQueued e))"
  using blocking_outcome[OF sample_work_reached]
  by (simp add: on_after_work_def on_work_def submit_work_def new_work_def sample_work_def
      resume_coro_def work_result_def)

end
