(* ===== verification/Sql_Connection.thy ===== *)
theory Sql_Connection
  imports Sql_Url Sql_Value Blocking "HOL-Library.Char_ord" "HOL-Library.List_Lexorder"
begin

text \<open>
  The driver registry and Connection of src/sql.cpp. Drivers are classes the
  library calls through an interface: DriverClass is a parameter of the model,
  its operations act on the driver's own state. The process-wide map of
  factories is a list without repeated keys. Driver objects live in a list
  and are named by their index; the log records every call made on a driver.
  A call on a driver that is not an AsyncDriver goes through blocking::run,
  whose fate is an argument.
\<close>

section \<open>Driver registry\<close>

text \<open>An empty std::function, or one that returns a fresh driver or null.\<close>

datatype 'd DriverFactory = NoFactory | Factory "'d option"

record 'd registry =
  reg_once :: bool
  reg_factories :: "(string \<times> 'd DriverFactory) list"

definition fresh_registry :: "'d registry" where
  "fresh_registry = \<lparr>reg_once = False, reg_factories = []\<rparr>"

text \<open>unordered_map::emplace keeps an existing entry; operator[] and erase replace and remove it.\<close>

definition emplace :: "'k \<Rightarrow> 'v \<Rightarrow> ('k \<times> 'v) list \<Rightarrow> ('k \<times> 'v) list" where
  "emplace k v m = (if map_of m k = None then m @ [(k, v)] else m)"

definition erase :: "'k \<Rightarrow> ('k \<times> 'v) list \<Rightarrow> ('k \<times> 'v) list" where
  "erase k m = filter (\<lambda>kv. fst kv \<noteq> k) m"

definition put :: "'k \<Rightarrow> 'v \<Rightarrow> ('k \<times> 'v) list \<Rightarrow> ('k \<times> 'v) list" where
  "put k v m = erase k m @ [(k, v)]"

definition ensure_builtin_drivers :: "(Backend \<Rightarrow> 'd) \<Rightarrow> 'd registry \<Rightarrow> 'd registry" where
  "ensure_builtin_drivers new r =
     (if reg_once r then r
      else \<lparr>reg_once = True, reg_factories =
        emplace ''mariadb'' (Factory (Some (new MySQL)))
        (emplace ''mysql'' (Factory (Some (new MySQL)))
        (emplace ''postgresql'' (Factory (Some (new PostgreSQL)))
        (emplace ''postgres'' (Factory (Some (new PostgreSQL)))
        (emplace ''pgsql'' (Factory (Some (new PostgreSQL)))
        (emplace ''sqlite'' (Factory (Some (new SQLite))) (reg_factories r))))))\<rparr>)"

definition driver_key :: "string \<Rightarrow> string" where
  "driver_key scheme = to_lower_copy (trim_copy scheme)"

definition register_driver ::
  "(Backend \<Rightarrow> 'd) \<Rightarrow> string \<Rightarrow> 'd DriverFactory \<Rightarrow> 'd registry \<Rightarrow> unit result \<times> 'd registry" where
  "register_driver new scheme factory r =
     (if factory = NoFactory then (Inl (sql_error ''register_driver got empty factory''), r)
      else let r = ensure_builtin_drivers new r; key = driver_key scheme
           in if key = [] then (Inl (sql_error ''register_driver empty scheme''), r)
              else (Inr (), r\<lparr>reg_factories := put key factory (reg_factories r)\<rparr>))"

definition unregister_driver :: "(Backend \<Rightarrow> 'd) \<Rightarrow> string \<Rightarrow> 'd registry \<Rightarrow> 'd registry" where
  "unregister_driver new scheme r =
     (let r = ensure_builtin_drivers new r; key = driver_key scheme
      in if key = [] then r else r\<lparr>reg_factories := erase key (reg_factories r)\<rparr>)"

definition has_driver :: "(Backend \<Rightarrow> 'd) \<Rightarrow> string \<Rightarrow> 'd registry \<Rightarrow> bool \<times> 'd registry" where
  "has_driver new scheme r =
     (let r = ensure_builtin_drivers new r
      in (map_of (reg_factories r) (driver_key scheme) \<noteq> None, r))"

definition available_drivers :: "(Backend \<Rightarrow> 'd) \<Rightarrow> 'd registry \<Rightarrow> string list \<times> 'd registry" where
  "available_drivers new r =
     (let r = ensure_builtin_drivers new r in (sort (map fst (reg_factories r)), r))"

definition create_driver :: "(Backend \<Rightarrow> 'd) \<Rightarrow> string \<Rightarrow> 'd registry \<Rightarrow> 'd result \<times> 'd registry" where
  "create_driver new scheme r =
     (let r = ensure_builtin_drivers new r
      in (case map_of (reg_factories r) (driver_key scheme) of
            None \<Rightarrow> Inl (InvalidArgument (''corouv::sql no driver registered for scheme: '' @ scheme))
          | Some NoFactory \<Rightarrow> Inl OtherException
          | Some (Factory None) \<Rightarrow> Inl (LogicError ''corouv::sql driver factory returned null'')
          | Some (Factory (Some d)) \<Rightarrow> Inr d, r))"

section \<open>Connection\<close>

text \<open>
  The virtual functions of Driver and AsyncDriver. The destructor of a driver
  is not part of the interface the model uses.
\<close>

record 'd DriverClass =
  dc_async :: "'d \<Rightarrow> bool"
  dc_connect :: "ConnectionInfo \<Rightarrow> 'd \<Rightarrow> unit result \<times> 'd"
  dc_query :: "string \<Rightarrow> SqlParams \<Rightarrow> 'd \<Rightarrow> Result result \<times> 'd"
  dc_close :: "'d \<Rightarrow> 'd"
  dc_connect_async :: "ConnectionInfo \<Rightarrow> 'd \<Rightarrow> unit result \<times> 'd"
  dc_query_async :: "string \<Rightarrow> SqlParams \<Rightarrow> 'd \<Rightarrow> Result result \<times> 'd"
  dc_close_async :: "'d \<Rightarrow> unit result \<times> 'd"

datatype driver_call = DConnect bool | DQuery | DClose

record 'd Connection =
  cn_ex :: bool
  cn_driver :: "nat option"
  cn_info :: ConnectionInfo
  cn_heap :: "'d list"
  cn_log :: "(nat \<times> driver_call) list"

definition new_connection :: "'d Connection" where
  "new_connection = \<lparr>cn_ex = True, cn_driver = None, cn_info = no_info, cn_heap = [], cn_log = []\<rparr>"

definition no_executor :: exn where
  "no_executor = LogicError ''corouv::sql::Connection missing executor''"

definition new_driver :: "'d \<Rightarrow> 'd Connection \<Rightarrow> nat \<times> 'd Connection" where
  "new_driver d c = (length (cn_heap c), c\<lparr>cn_heap := cn_heap c @ [d]\<rparr>)"

definition on_driver ::
  "nat \<Rightarrow> ('a result \<Rightarrow> driver_call) \<Rightarrow> ('d \<Rightarrow> 'a result \<times> 'd) \<Rightarrow> 'd Connection \<Rightarrow> 'a result \<times> 'd Connection" where
  "on_driver n call f c =
     (let (r, d) = f (cn_heap c ! n)
      in (r, c\<lparr>cn_heap := (cn_heap c)[n := d], cn_log := cn_log c @ [(n, call r)]\<rparr>))"

text \<open>dynamic_cast to AsyncDriver: an async driver is awaited, any other runs on the thread pool.\<close>

definition driver_connect ::
  "'d DriverClass \<Rightarrow> fate \<Rightarrow> nat \<Rightarrow> ConnectionInfo \<Rightarrow> 'd Connection \<Rightarrow> unit result \<times> 'd Connection" where
  "driver_connect D fate n info c =
     (let call = \<lambda>r. DConnect (\<not> isl r)
      in if dc_async D (cn_heap c ! n) then on_driver n call (dc_connect_async D info) c
         else run_work fate (on_driver n call (dc_connect D info)) c)"

definition driver_query ::
  "'d DriverClass \<Rightarrow> fate \<Rightarrow> nat \<Rightarrow> string \<Rightarrow> SqlParams \<Rightarrow> 'd Connection \<Rightarrow> Result result \<times> 'd Connection" where
  "driver_query D fate n sql params c =
     (if dc_async D (cn_heap c ! n) then on_driver n (\<lambda>r. DQuery) (dc_query_async D sql params) c
      else run_work fate (on_driver n (\<lambda>r. DQuery) (dc_query D sql params)) c)"

definition driver_close :: "'d DriverClass \<Rightarrow> fate \<Rightarrow> nat \<Rightarrow> 'd Connection \<Rightarrow> unit result \<times> 'd Connection" where
  "driver_close D fate n c =
     (if dc_async D (cn_heap c ! n) then on_driver n (\<lambda>r. DClose) (dc_close_async D) c
      else run_work fate (on_driver n (\<lambda>r. DClose) (\<lambda>d. (Inr (), dc_close D d))) c)"

text \<open>The checks of connect before a driver is created: the back end and the scheme it will use.\<close>

definition resolve_info :: "ConnectionInfo \<Rightarrow> ConnectionInfo result" where
  "resolve_info info =
     (if ci_backend info = Unknown \<and> ci_scheme info = []
      then Inl (sql_error ''connect requires backend or scheme'')
      else let info = (if ci_backend info = Unknown
                       then info\<lparr>ci_backend := backend_from_scheme (ci_scheme info)\<rparr> else info)
           in Inr (if ci_scheme info = [] then info\<lparr>ci_scheme := backend_name (ci_backend info)\<rparr> else info))"

definition swap_driver :: "nat \<Rightarrow> ConnectionInfo \<Rightarrow> 'd Connection \<Rightarrow> nat option \<times> 'd Connection" where
  "swap_driver n info c = (cn_driver c, c\<lparr>cn_driver := Some n, cn_info := info\<rparr>)"

definition close_old :: "'d DriverClass \<Rightarrow> fate \<Rightarrow> nat option \<Rightarrow> 'd Connection \<Rightarrow> unit result \<times> 'd Connection" where
  "close_old D fate old c = (case old of None \<Rightarrow> (Inr (), c) | Some n \<Rightarrow> driver_close D fate n c)"

definition connect ::
  "'d DriverClass \<Rightarrow> 'd result \<Rightarrow> fate \<Rightarrow> fate \<Rightarrow> ConnectionInfo \<Rightarrow> 'd Connection \<Rightarrow> unit result \<times> 'd Connection" where
  "connect D created fate1 fate2 info c =
     (case created of
        Inl e \<Rightarrow> (Inl e, c)
      | Inr d \<Rightarrow>
          (let (n, c1) = new_driver d c; (r, c2) = driver_connect D fate1 n info c1
           in case r of
                Inl e \<Rightarrow> (Inl e, c2)
              | Inr _ \<Rightarrow> (let (old, c3) = swap_driver n info c2 in close_old D fate2 old c3)))"

definition connect_info ::
  "(Backend \<Rightarrow> 'd) \<Rightarrow> 'd DriverClass \<Rightarrow> fate \<Rightarrow> fate \<Rightarrow> ConnectionInfo \<Rightarrow> 'd registry \<Rightarrow> 'd Connection \<Rightarrow>
   unit result \<times> 'd registry \<times> 'd Connection" where
  "connect_info new D fate1 fate2 info r c =
     (if \<not> cn_ex c then (Inl no_executor, r, c)
      else case resolve_info info of
        Inl e \<Rightarrow> (Inl e, r, c)
      | Inr info \<Rightarrow>
          (let (created, r') = create_driver new (ci_scheme info) r;
               (res, c') = connect D created fate1 fate2 info c
           in (res, r', c')))"

definition connect_url ::
  "(Backend \<Rightarrow> 'd) \<Rightarrow> 'd DriverClass \<Rightarrow> fate \<Rightarrow> fate \<Rightarrow> string \<Rightarrow> 'd registry \<Rightarrow> 'd Connection \<Rightarrow>
   unit result \<times> 'd registry \<times> 'd Connection" where
  "connect_url new D fate1 fate2 url r c =
     (case parse_connection_url url of
        Inl e \<Rightarrow> (Inl e, r, c)
      | Inr info \<Rightarrow> connect_info new D fate1 fate2 info r c)"

definition query ::
  "'d DriverClass \<Rightarrow> fate \<Rightarrow> string \<Rightarrow> SqlParams \<Rightarrow> 'd Connection \<Rightarrow> Result result \<times> 'd Connection" where
  "query D fate sql params c =
     (if \<not> cn_ex c then (Inl no_executor, c)
      else case cn_driver c of
        None \<Rightarrow> (Inl (LogicError ''corouv::sql::Connection is not connected''), c)
      | Some n \<Rightarrow> driver_query D fate n sql params c)"

definition execute ::
  "'d DriverClass \<Rightarrow> fate \<Rightarrow> string \<Rightarrow> SqlParams \<Rightarrow> 'd Connection \<Rightarrow> int result \<times> 'd Connection" where
  "execute D fate sql params c =
     (let (r, c') = query D fate sql params c in (map_result res_affected_rows r, c'))"

definition close_connection :: "'d DriverClass \<Rightarrow> fate \<Rightarrow> 'd Connection \<Rightarrow> unit result \<times> 'd Connection" where
  "close_connection D fate c =
     (if \<not> cn_ex c then (Inr (), c)
      else close_old D fate (cn_driver c) (c\<lparr>cn_driver := None, cn_info := no_info\<rparr>))"

definition is_connected :: "'d Connection \<Rightarrow> bool" where
  "is_connected c \<longleftrightarrow> cn_driver c \<noteq> None"

definition connection_backend :: "'d Connection \<Rightarrow> Backend" where
  "connection_backend c = (if cn_driver c \<noteq> None then ci_backend (cn_info c) else Unknown)"

section \<open>The registry is a map\<close>

text \<open>
  What callers see of the registry: operations on a finite map that starts
  with the built-in drivers. The built-in drivers come back neither after an
  unregister nor over a driver registered in their place.
\<close>

definition builtin_drivers :: "(Backend \<Rightarrow> 'd) \<Rightarrow> (string \<times> 'd DriverFactory) list" where
  "builtin_drivers new =
     [(''sqlite'', Factory (Some (new SQLite))), (''pgsql'', Factory (Some (new PostgreSQL))),
      (''postgres'', Factory (Some (new PostgreSQL))), (''postgresql'', Factory (Some (new PostgreSQL))),
      (''mysql'', Factory (Some (new MySQL))), (''mariadb'', Factory (Some (new MySQL)))]"

datatype 'd reg_op =
    Register string "'d DriverFactory"
  | Unregister string
  | HasDriver string
  | Available
  | Create string

datatype 'd reg_out = OUnit "unit result" | OBool bool | ONames "string list" | ODriver "'d result"

fun reg_exec :: "(Backend \<Rightarrow> 'd) \<Rightarrow> 'd reg_op \<Rightarrow> 'd registry \<Rightarrow> 'd reg_out \<times> 'd registry" where
  "reg_exec new (Register s f) r = map_prod OUnit id (register_driver new s f r)"
| "reg_exec new (Unregister s) r = (OUnit (Inr ()), unregister_driver new s r)"
| "reg_exec new (HasDriver s) r = map_prod OBool id (has_driver new s r)"
| "reg_exec new Available r = map_prod ONames id (available_drivers new r)"
| "reg_exec new (Create s) r = map_prod ODriver id (create_driver new s r)"

fun reg_spec :: "'d reg_op \<Rightarrow> (string \<rightharpoonup> 'd DriverFactory) \<Rightarrow> 'd reg_out \<times> (string \<rightharpoonup> 'd DriverFactory)" where
  "reg_spec (Register s f) m =
     (if f = NoFactory then (OUnit (Inl (sql_error ''register_driver got empty factory'')), m)
      else if driver_key s = [] then (OUnit (Inl (sql_error ''register_driver empty scheme'')), m)
      else (OUnit (Inr ()), m(driver_key s \<mapsto> f)))"
| "reg_spec (Unregister s) m = (OUnit (Inr ()), if driver_key s = [] then m else m(driver_key s := None))"
| "reg_spec (HasDriver s) m = (OBool (driver_key s \<in> dom m), m)"
| "reg_spec Available m = (ONames (sorted_list_of_set (dom m)), m)"
| "reg_spec (Create s) m =
     (ODriver (case m (driver_key s) of
        None \<Rightarrow> Inl (InvalidArgument (''corouv::sql no driver registered for scheme: '' @ s))
      | Some NoFactory \<Rightarrow> Inl OtherException
      | Some (Factory None) \<Rightarrow> Inl (LogicError ''corouv::sql driver factory returned null'')
      | Some (Factory (Some d)) \<Rightarrow> Inr d), m)"

fun run_all :: "('op \<Rightarrow> 's \<Rightarrow> 'out \<times> 's) \<Rightarrow> 'op list \<Rightarrow> 's \<Rightarrow> 'out list" where
  "run_all exec [] s = []"
| "run_all exec (x # xs) s = (let (out, s') = exec x s in out # run_all exec xs s')"

definition reg_ok :: "'d registry \<Rightarrow> bool" where
  "reg_ok r \<longleftrightarrow> distinct (map fst (reg_factories r)) \<and> (\<not> reg_once r \<longrightarrow> reg_factories r = [])"

definition reg_map :: "(Backend \<Rightarrow> 'd) \<Rightarrow> 'd registry \<Rightarrow> string \<rightharpoonup> 'd DriverFactory" where
  "reg_map new r = map_of (if reg_once r then reg_factories r else builtin_drivers new)"

lemma map_of_erase: "map_of (erase k m) = (map_of m)(k := None)"
  by (induction m) (auto simp: erase_def fun_eq_iff)

lemma map_of_put: "map_of (put k v m) = (map_of m)(k \<mapsto> v)"
  by (auto simp: put_def map_of_erase fun_eq_iff map_add_def split: option.splits)

lemma fst_put: "distinct (map fst m) \<Longrightarrow> distinct (map fst (put k v m))"
  "distinct (map fst m) \<Longrightarrow> distinct (map fst (erase k m))"
  by (auto simp: put_def erase_def distinct_map_filter)

lemma ensure_builtin:
  assumes "reg_ok r"
  shows "reg_once (ensure_builtin_drivers new r)" "reg_ok (ensure_builtin_drivers new r)"
    "map_of (reg_factories (ensure_builtin_drivers new r)) = reg_map new r"
proof -
  have "reg_factories (ensure_builtin_drivers new r) = builtin_drivers new" if "\<not> reg_once r"
    using assms that by (simp add: ensure_builtin_drivers_def reg_ok_def emplace_def builtin_drivers_def)
  moreover have "distinct (map fst (builtin_drivers new))" by (simp add: builtin_drivers_def)
  moreover show "reg_once (ensure_builtin_drivers new r)" by (simp add: ensure_builtin_drivers_def)
  ultimately show "reg_ok (ensure_builtin_drivers new r)"
    "map_of (reg_factories (ensure_builtin_drivers new r)) = reg_map new r"
    using assms by (auto simp: reg_ok_def reg_map_def ensure_builtin_drivers_def)
qed

lemma sort_keys:
  "distinct (map fst m) \<Longrightarrow> sort (map fst m) = sorted_list_of_set (dom (map_of m))"
  by (simp add: dom_map_of_conv_image_fst sorted_list_of_set_sort_remdups distinct_remdups_id flip: set_map)

lemma reg_exec_spec:
  assumes "reg_ok r"
  shows "reg_ok (snd (reg_exec new op r)) \<and>
    reg_spec op (reg_map new r) = map_prod id (reg_map new) (reg_exec new op r)"
proof -
  define e where "e = ensure_builtin_drivers new r"
  have e: "reg_once e" "reg_ok e" "map_of (reg_factories e) = reg_map new r" "reg_map new e = reg_map new r"
    using ensure_builtin[OF assms] by (simp_all add: e_def reg_map_def)
  then have d: "distinct (map fst (reg_factories e))" by (simp add: reg_ok_def)
  show ?thesis
  proof (cases op)
    case (Register s f)
    show ?thesis using e assms fst_put(1)[OF d]
      by (simp add: Register register_driver_def e_def[symmetric] reg_ok_def Let_def reg_map_def[of new "e\<lparr>reg_factories := _\<rparr>"] map_of_put)
  next
    case (Unregister s)
    show ?thesis using e fst_put(2)[OF d]
      by (simp add: Unregister unregister_driver_def e_def[symmetric] reg_ok_def Let_def reg_map_def[of new "e\<lparr>reg_factories := _\<rparr>"] map_of_erase)
  next
    case (HasDriver s)
    show ?thesis using e by (simp add: HasDriver has_driver_def e_def[symmetric] Let_def domIff)
  next
    case Available
    show ?thesis using e sort_keys[OF d] by (simp add: Available available_drivers_def e_def[symmetric] Let_def)
  next
    case (Create s)
    show ?thesis using e by (simp add: Create create_driver_def e_def[symmetric] Let_def)
  qed
qed

lemma run_all_refines:
  assumes "\<And>op s. ok s \<Longrightarrow> ok (snd (exec op s)) \<and> spec op (absf s) = map_prod id absf (exec op s)" and "ok s"
  shows "run_all exec ops s = run_all spec ops (absf s)"
  using assms(2)
proof (induction ops arbitrary: s)
  case (Cons op ops)
  obtain out s' where e: "exec op s = (out, s')" by (cases "exec op s")
  with assms(1)[OF Cons.prems, of op] have "ok s'" "spec op (absf s) = (out, absf s')" by simp_all
  with e Cons.IH show ?case by simp
qed simp

text \<open>Any sequence of registrations, removals and lookups answers as a map
  from normalised schemes to factories that starts with the built-in drivers.\<close>

theorem registry_refines_map:
  "run_all (reg_exec new) ops fresh_registry = run_all reg_spec ops (map_of (builtin_drivers new))"
proof -
  have "reg_ok fresh_registry" by (simp add: reg_ok_def fresh_registry_def)
  from run_all_refines[where ok = reg_ok and absf = "reg_map new" and exec = "reg_exec new" and spec = reg_spec, OF reg_exec_spec this]
  show ?thesis by (simp add: reg_map_def fresh_registry_def)
qed

lemma no_driver_refused:
  assumes "ci_scheme i \<noteq> []" "ci_backend i \<noteq> Unknown"
    and "map_of (builtin_drivers new) (driver_key (ci_scheme i)) = None"
  shows "fst (connect_info new D fate1 fate2 i fresh_registry new_connection) =
    Inl (InvalidArgument (''corouv::sql no driver registered for scheme: '' @ ci_scheme i))"
  using assms
  by (simp add: connect_info_def new_connection_def resolve_info_def create_driver_def connect_def
      ensure_builtin_drivers_def fresh_registry_def emplace_def builtin_drivers_def Let_def split: if_splits)

text \<open>The schemes pg and sqlite3 pass parse_connection_url, which names their
  back end, but no built-in driver is registered under them: connecting
  fails.\<close>

theorem accepted_scheme_without_driver:
  "(\<exists>info. parse_connection_url ''pg://localhost/db'' = Inr info \<and> ci_backend info = PostgreSQL \<and>
     fst (connect_info new D fate1 fate2 info fresh_registry new_connection) =
       Inl (InvalidArgument ''corouv::sql no driver registered for scheme: pg'')) \<and>
   (\<exists>info. parse_connection_url ''sqlite3:///db'' = Inr info \<and> ci_backend info = SQLite \<and>
     fst (connect_info new D fate1 fate2 info fresh_registry new_connection) =
       Inl (InvalidArgument ''corouv::sql no driver registered for scheme: sqlite3''))"
proof -
  have keys: "map_of (builtin_drivers new) (driver_key ''pg'') = None"
    "map_of (builtin_drivers new) (driver_key ''sqlite3'') = None" by code_simp+
  have "case parse_connection_url ''pg://localhost/db'' of Inr i \<Rightarrow> ci_backend i = PostgreSQL \<and> ci_scheme i = ''pg'' | Inl _ \<Rightarrow> False"
    by code_simp
  then obtain i where i: "parse_connection_url ''pg://localhost/db'' = Inr i" "ci_backend i = PostgreSQL" "ci_scheme i = ''pg''"
    by (auto split: sum.splits)
  have "case parse_connection_url ''sqlite3:///db'' of Inr j \<Rightarrow> ci_backend j = SQLite \<and> ci_scheme j = ''sqlite3'' | Inl _ \<Rightarrow> False"
    by code_simp
  then obtain j where j: "parse_connection_url ''sqlite3:///db'' = Inr j" "ci_backend j = SQLite" "ci_scheme j = ''sqlite3''"
    by (auto split: sum.splits)
  show ?thesis
    using i j no_driver_refused[of i new D fate1 fate2] no_driver_refused[of j new D fate1 fate2] keys by simp
qed

section \<open>The life of a driver\<close>

text \<open>
  A driver is connected once, queried only while it is open, and closed at
  most once; the status a list of calls leads to is None when the calls break
  this protocol.
\<close>

datatype driver_status = DFresh | DOpen | DFailed | DClosed

fun driver_next :: "driver_call \<Rightarrow> driver_status \<Rightarrow> driver_status option" where
  "driver_next (DConnect ok) DFresh = Some (if ok then DOpen else DFailed)"
| "driver_next DQuery DOpen = Some DOpen"
| "driver_next DClose DOpen = Some DClosed"
| "driver_next _ _ = None"

fun driver_after :: "driver_call list \<Rightarrow> driver_status \<Rightarrow> driver_status option" where
  "driver_after [] st = Some st"
| "driver_after (x # xs) st = Option.bind (driver_next x st) (driver_after xs)"

definition calls_on :: "nat \<Rightarrow> (nat \<times> driver_call) list \<Rightarrow> driver_call list" where
  "calls_on n log = map snd (filter (\<lambda>x. fst x = n) log)"

definition status :: "'d Connection \<Rightarrow> nat \<Rightarrow> driver_status option" where
  "status c n = driver_after (calls_on n (cn_log c)) DFresh"

lemma driver_after_snoc:
  "driver_after (xs @ [x]) st = Option.bind (driver_after xs st) (driver_next x)"
proof (induction xs arbitrary: st)
  case Nil
  then show ?case by (cases "driver_next x st") auto
next
  case (Cons y ys)
  then show ?case by (cases "driver_next y st") auto
qed

lemma status_log:
  "status (c\<lparr>cn_heap := h, cn_log := cn_log c @ [(n, x)]\<rparr>) =
   (status c)(n := Option.bind (status c n) (driver_next x))"
  by (auto simp: status_def calls_on_def driver_after_snoc fun_eq_iff)

lemma status_simps [simp]:
  "status (c\<lparr>cn_heap := h\<rparr>) = status c" "status (c\<lparr>cn_driver := d\<rparr>) = status c"
  "status (c\<lparr>cn_driver := d, cn_info := i\<rparr>) = status c"
  by (simp_all add: status_def fun_eq_iff)

definition logged :: "'d Connection \<Rightarrow> nat set" where
  "logged c = fst ` set (cn_log c)"

lemma logged_simps [simp]:
  "logged (c\<lparr>cn_heap := h\<rparr>) = logged c" "logged (c\<lparr>cn_driver := d, cn_info := i\<rparr>) = logged c"
  "logged (c\<lparr>cn_heap := h, cn_log := cn_log c @ [(n, x)]\<rparr>) = insert n (logged c)"
  by (auto simp: logged_def)

text \<open>A call on driver n: the connection itself is untouched and only the status of n may move.\<close>

definition called :: "nat \<Rightarrow> driver_call \<Rightarrow> 'd Connection \<Rightarrow> 'd Connection \<Rightarrow> bool" where
  "called n x c c' \<longleftrightarrow> cn_ex c' = cn_ex c \<and> cn_driver c' = cn_driver c \<and> cn_info c' = cn_info c \<and>
     length (cn_heap c') = length (cn_heap c) \<and>
     logged c' = insert n (logged c) \<and>
     status c' = (status c)(n := Option.bind (status c n) (driver_next x))"

lemma on_driver_called:
  "on_driver n call f c = (r, c') \<Longrightarrow> called n (call r) c c'"
  by (auto simp: on_driver_def called_def status_log split_beta)

lemma run_work_cases:
  assumes "run_work fate f s = (r, s')"
  shows "s' = s \<and> isl r \<and> fate \<noteq> Ran \<or> (\<exists>r'. f s = (r', s') \<and> (r = r' \<or> isl r \<and> fate \<noteq> Ran))"
  using assms by (cases fate) (auto simp: prod_eq_iff)

lemma driver_connect_called:
  assumes "driver_connect D fate n info c = (r, c')"
  shows "c' = c \<and> isl r \<or> called n (DConnect True) c c' \<or> called n (DConnect False) c c' \<and> isl r"
    and "fate = Ran \<Longrightarrow> called n (DConnect (\<not> isl r)) c c'"
    and "\<not> isl r \<Longrightarrow> called n (DConnect True) c c'"
  using assms run_work_cases[of fate "on_driver n (\<lambda>r. DConnect (\<not> isl r)) (dc_connect D info)" c r c']
  by (auto simp: driver_connect_def Let_def dest: on_driver_called split: if_splits)
    (metis (full_types) on_driver_called)+

lemma driver_query_called:
  assumes "driver_query D fate n sql params c = (r, c')"
  shows "c' = c \<or> called n DQuery c c'"
  using assms run_work_cases[of fate "on_driver n (\<lambda>r. DQuery) (dc_query D sql params)" c r c']
  by (auto simp: driver_query_def dest: on_driver_called split: if_splits)

lemma driver_close_called:
  assumes "driver_close D fate n c = (r, c')"
  shows "c' = c \<and> fate \<noteq> Ran \<or> called n DClose c c'"
  using assms run_work_cases[of fate "on_driver n (\<lambda>r. DClose) (\<lambda>d. (Inr (), dc_close D d))" c r c']
  by (auto simp: driver_close_def dest: on_driver_called split: if_splits)

definition drivers_ok :: "'d Connection \<Rightarrow> bool" where
  "drivers_ok c \<longleftrightarrow> logged c \<subseteq> {..<length (cn_heap c)} \<and> (\<forall>n. status c n \<noteq> None) \<and>
     (\<forall>n. cn_driver c = Some n \<longrightarrow> n < length (cn_heap c) \<and> status c n = Some DOpen)"

definition one_open :: "'d Connection \<Rightarrow> bool" where
  "one_open c \<longleftrightarrow> (\<forall>n. status c n = Some DOpen \<longrightarrow> cn_driver c = Some n)"

lemma status_fresh: "n \<notin> logged c \<Longrightarrow> status c n = Some DFresh"
proof -
  assume "n \<notin> logged c"
  then have "filter (\<lambda>x. fst x = n) (cn_log c) = []" by (force simp: filter_empty_conv logged_def)
  then show ?thesis by (simp add: status_def calls_on_def)
qed

lemma called_ok:
  assumes "called n x c c'" "drivers_ok c" "n < length (cn_heap c)"
    and "Option.bind (status c n) (driver_next x) = Some st" and "cn_driver c = Some n \<Longrightarrow> st = DOpen"
  shows "drivers_ok c'"
  using assms unfolding drivers_ok_def called_def by auto

lemma new_driver_ok:
  "drivers_ok c \<Longrightarrow> new_driver d c = (n, c') \<Longrightarrow>
   drivers_ok c' \<and> status c' = status c \<and> status c' n = Some DFresh \<and> n < length (cn_heap c') \<and>
   cn_driver c' = cn_driver c \<and> cn_info c' = cn_info c \<and> cn_driver c \<noteq> Some n"
  by (auto simp: new_driver_def drivers_ok_def intro!: status_fresh)

lemma close_old_ok:
  assumes "close_old D fate old c = (r, c')" "drivers_ok c"
    and "\<And>n. old = Some n \<Longrightarrow> n < length (cn_heap c) \<and> status c n = Some DOpen \<and> cn_driver c \<noteq> Some n"
  shows "drivers_ok c' \<and> cn_driver c' = cn_driver c \<and> cn_info c' = cn_info c \<and>
    (fate = Ran \<longrightarrow> status c' = (case old of None \<Rightarrow> status c | Some n \<Rightarrow> (status c)(n \<mapsto> DClosed)))"
proof (cases old)
  case None
  then show ?thesis using assms by (simp add: close_old_def)
next
  case (Some n)
  then have n: "n < length (cn_heap c)" "status c n = Some DOpen" "cn_driver c \<noteq> Some n"
    using assms(3) by auto
  from assms(1) Some have "driver_close D fate n c = (r, c')" by (simp add: close_old_def)
  then consider "c' = c" "fate \<noteq> Ran" | "called n DClose c c'" using driver_close_called by blast
  then show ?thesis
  proof cases
    case 1
    then show ?thesis using assms by simp
  next
    case 2
    then have "drivers_ok c'" using called_ok[OF 2 assms(2) n(1), of DClosed] n by simp
    then show ?thesis using 2 n Some by (simp add: called_def)
  qed
qed

lemma connect_ok:
  assumes "drivers_ok c" "connect D created fate1 fate2 info c = (r, c')"
  shows "drivers_ok c'" "one_open c \<Longrightarrow> fate1 = Ran \<Longrightarrow> fate2 = Ran \<Longrightarrow> one_open c'"
    "cn_driver c' = cn_driver c \<and> cn_info c' = cn_info c \<and> isl r \<or>
     cn_driver c' = Some (length (cn_heap c)) \<and> cn_info c' = info"
proof -
  have "drivers_ok c' \<and> (one_open c \<longrightarrow> fate1 = Ran \<longrightarrow> fate2 = Ran \<longrightarrow> one_open c') \<and>
    (cn_driver c' = cn_driver c \<and> cn_info c' = cn_info c \<and> isl r \<or>
     cn_driver c' = Some (length (cn_heap c)) \<and> cn_info c' = info)"
  proof (cases created)
    case (Inl e)
    then show ?thesis using assms by (auto simp: connect_def)
  next
    case (Inr d)
    define n where "n = length (cn_heap c)"
    obtain c1 where c1: "new_driver d c = (n, c1)" by (simp add: new_driver_def n_def)
    obtain r2 c2 where c2: "driver_connect D fate1 n info c1 = (r2, c2)" by fastforce
    note ok1 = new_driver_ok[OF assms(1) c1]
    have ok2: "drivers_ok c2" if "called n (DConnect b) c1 c2" for b
      using that called_ok[OF that, of "if b then DOpen else DFailed"] ok1 by auto
    have keep2: "cn_driver c2 = cn_driver c" "cn_info c2 = cn_info c"
      and len2: "length (cn_heap c2) = length (cn_heap c1)" and "drivers_ok c2"
      using driver_connect_called(1)[OF c2] ok1 ok2 by (auto simp: called_def)
    show ?thesis
    proof (cases r2)
      case (Inl e)
      then have e: "r = Inl e" "c' = c2" using assms(2) Inr c1 c2 by (simp_all add: connect_def)
      have "one_open c2" if "one_open c" "fate1 = Ran"
        using driver_connect_called(2)[OF c2 that(2)] ok1 that(1) Inl keep2
        by (auto simp: one_open_def called_def split: if_splits)
      with e \<open>drivers_ok c2\<close> keep2 show ?thesis by simp
    next
      case ok: (Inr u)
      have call: "called n (DConnect True) c1 c2" using driver_connect_called(3)[OF c2] ok by simp
      moreover have "status c n = Some DFresh" "status c1 = status c" using ok1 by metis+
      ultimately have st2: "status c2 = (status c)(n \<mapsto> DOpen)" by (simp add: called_def)
      define c3 where "c3 = c2\<lparr>cn_driver := Some n, cn_info := info\<rparr>"
      have cl: "close_old D fate2 (cn_driver c) c3 = (r, c')"
        using assms(2) Inr c1 c2 ok keep2 by (simp add: connect_def swap_driver_def c3_def)
      have ok3: "drivers_ok c3" using \<open>drivers_ok c2\<close> st2 ok1 len2 by (auto simp: drivers_ok_def c3_def)
      have old: "m < length (cn_heap c3) \<and> status c3 m = Some DOpen \<and> cn_driver c3 \<noteq> Some m"
        if "cn_driver c = Some m" for m
        using that \<open>drivers_ok c2\<close> keep2 ok1 by (auto simp: drivers_ok_def c3_def)
      note fin = close_old_ok[OF cl ok3 old]
      have "one_open c'" if "one_open c" "fate2 = Ran"
        using fin that st2 by (auto simp: one_open_def c3_def split: option.splits if_splits)
      with fin show ?thesis by (simp add: c3_def n_def)
    qed
  qed
  then show "drivers_ok c'" "one_open c \<Longrightarrow> fate1 = Ran \<Longrightarrow> fate2 = Ran \<Longrightarrow> one_open c'"
    "cn_driver c' = cn_driver c \<and> cn_info c' = cn_info c \<and> isl r \<or>
     cn_driver c' = Some (length (cn_heap c)) \<and> cn_info c' = info"
    by blast+
qed

lemma query_ok:
  assumes "drivers_ok c" "query D fate sql params c = (r, c')"
  shows "drivers_ok c' \<and> status c' = status c \<and> cn_driver c' = cn_driver c"
proof (cases "cn_ex c \<and> cn_driver c \<noteq> None")
  case True
  then obtain n where n: "cn_driver c = Some n" "driver_query D fate n sql params c = (r, c')"
    using assms(2) by (auto simp: query_def)
  then have open_n: "n < length (cn_heap c)" "status c n = Some DOpen" using assms(1) by (auto simp: drivers_ok_def)
  from driver_query_called[OF n(2)] show ?thesis
  proof
    assume "called n DQuery c c'"
    then show ?thesis using called_ok[of n DQuery c c' DOpen] assms(1) open_n by (auto simp: called_def)
  qed (use assms in simp)
next
  case False
  then show ?thesis using assms by (auto simp: query_def split: if_splits)
qed

lemma close_connection_ok:
  assumes "drivers_ok c" "close_connection D fate c = (r, c')" "cn_ex c"
  shows "drivers_ok c'" "one_open c \<Longrightarrow> fate = Ran \<Longrightarrow> one_open c'" "cn_driver c' = None"
proof -
  let ?c = "c\<lparr>cn_driver := None, cn_info := no_info\<rparr>"
  have cl: "close_old D fate (cn_driver c) ?c = (r, c')" using assms by (simp add: close_connection_def)
  have "drivers_ok ?c" using assms(1) by (simp add: drivers_ok_def)
  moreover have "n < length (cn_heap ?c) \<and> status ?c n = Some DOpen \<and> cn_driver ?c \<noteq> Some n"
    if "cn_driver c = Some n" for n
    using that assms(1) by (simp add: drivers_ok_def)
  ultimately have fin: "drivers_ok c' \<and> cn_driver c' = cn_driver ?c \<and> cn_info c' = cn_info ?c \<and>
    (fate = Ran \<longrightarrow> status c' = (case cn_driver c of None \<Rightarrow> status ?c | Some n \<Rightarrow> (status ?c)(n \<mapsto> DClosed)))"
    by (rule close_old_ok[OF cl])
  then show "drivers_ok c'" "cn_driver c' = None" by simp_all
  show "one_open c'" if "one_open c" "fate = Ran"
    using fin that by (auto simp: one_open_def split: option.splits if_splits)
qed

text \<open>The calls a program makes on a connection, with the process-wide registry.\<close>

datatype conn_op =
    ConnectUrl fate fate string
  | ConnectInfo fate fate ConnectionInfo
  | Query fate string SqlParams
  | Execute fate string SqlParams
  | CloseConn fate

fun conn_exec ::
  "(Backend \<Rightarrow> 'd) \<Rightarrow> 'd DriverClass \<Rightarrow> conn_op \<Rightarrow> 'd registry \<times> 'd Connection \<Rightarrow> 'd registry \<times> 'd Connection" where
  "conn_exec new D (ConnectUrl f1 f2 url) (r, c) = snd (connect_url new D f1 f2 url r c)"
| "conn_exec new D (ConnectInfo f1 f2 info) (r, c) = snd (connect_info new D f1 f2 info r c)"
| "conn_exec new D (Query f sql params) (r, c) = (r, snd (query D f sql params c))"
| "conn_exec new D (Execute f sql params) (r, c) = (r, snd (execute D f sql params c))"
| "conn_exec new D (CloseConn f) (r, c) = (r, snd (close_connection D f c))"

fun undisturbed :: "conn_op \<Rightarrow> bool" where
  "undisturbed (ConnectUrl f1 f2 _) \<longleftrightarrow> f1 = Ran \<and> f2 = Ran"
| "undisturbed (ConnectInfo f1 f2 _) \<longleftrightarrow> f1 = Ran \<and> f2 = Ran"
| "undisturbed (CloseConn f) \<longleftrightarrow> f = Ran"
| "undisturbed _ \<longleftrightarrow> True"

definition conn_run ::
  "(Backend \<Rightarrow> 'd) \<Rightarrow> 'd DriverClass \<Rightarrow> conn_op list \<Rightarrow> 'd registry \<times> 'd Connection \<Rightarrow> 'd registry \<times> 'd Connection" where
  "conn_run new D ops s = foldl (\<lambda>s op. conn_exec new D op s) s ops"

lemma connect_info_ok:
  assumes "drivers_ok c" "connect_info new D f1 f2 info r c = (res, r', c')"
  shows "drivers_ok c'" "one_open c \<Longrightarrow> f1 = Ran \<Longrightarrow> f2 = Ran \<Longrightarrow> one_open c'"
proof -
  consider "c' = c" | i created where "connect D created f1 f2 i c = (res, c')"
    using assms(2) by (auto simp: connect_info_def split_beta Let_def split: if_splits sum.splits)
  then have "drivers_ok c' \<and> (one_open c \<longrightarrow> f1 = Ran \<longrightarrow> f2 = Ran \<longrightarrow> one_open c')"
    by cases (use assms(1) connect_ok[OF assms(1)] in blast)+
  then show "drivers_ok c'" "one_open c \<Longrightarrow> f1 = Ran \<Longrightarrow> f2 = Ran \<Longrightarrow> one_open c'" by blast+
qed

lemma conn_exec_ok:
  assumes "drivers_ok (snd s)"
  shows "drivers_ok (snd (conn_exec new D op s)) \<and>
    (undisturbed op \<longrightarrow> one_open (snd s) \<longrightarrow> one_open (snd (conn_exec new D op s)))"
proof -
  obtain r c where s: "s = (r, c)" by (cases s)
  then have c: "drivers_ok c" using assms by simp
  show ?thesis
  proof (cases op)
    case (ConnectUrl f1 f2 url)
    obtain res r' c' where "connect_url new D f1 f2 url r c = (res, r', c')" by (metis prod_cases3)
    then consider "c' = c" | i where "connect_info new D f1 f2 i r c = (res, r', c')"
      by (auto simp: connect_url_def split: sum.splits)
    then show ?thesis using c ConnectUrl s \<open>connect_url new D f1 f2 url r c = (res, r', c')\<close>
      by cases (auto dest: connect_info_ok)
  next
    case (ConnectInfo f1 f2 info)
    obtain res r' c' where "connect_info new D f1 f2 info r c = (res, r', c')" by (metis prod_cases3)
    then show ?thesis using c ConnectInfo s by (auto dest: connect_info_ok)
  next
    case (Query f sql params)
    then show ?thesis using query_ok[OF c prod.collapse[symmetric]] s by (simp add: one_open_def)
  next
    case (Execute f sql params)
    then show ?thesis using query_ok[OF c prod.collapse[symmetric]] s
      by (simp add: one_open_def execute_def split_beta)
  next
    case (CloseConn f)
    then show ?thesis using close_connection_ok[OF c prod.collapse[symmetric]] s c
      by (cases "cn_ex c") (auto simp: close_connection_def)
  qed
qed

lemma conn_run_ok:
  "drivers_ok (snd s) \<Longrightarrow> drivers_ok (snd (conn_run new D ops s)) \<and>
   (list_all undisturbed ops \<longrightarrow> one_open (snd s) \<longrightarrow> one_open (snd (conn_run new D ops s)))"
proof (induction ops arbitrary: s)
  case (Cons op ops)
  then show ?case using conn_exec_ok[of s new D op] by (simp add: conn_run_def)
qed (simp add: conn_run_def)

lemma new_connection_ok: "drivers_ok new_connection" "one_open new_connection"
  by (simp_all add: drivers_ok_def one_open_def new_connection_def logged_def status_def calls_on_def)


definition sample_driver :: "bool DriverClass" where
  "sample_driver = \<lparr>dc_async = (\<lambda>d. False), dc_connect = (\<lambda>i d. (Inr (), True)),
     dc_query = (\<lambda>s p d. (Inl OtherException, d)), dc_close = (\<lambda>d. False),
     dc_connect_async = (\<lambda>i d. (Inr (), True)), dc_query_async = (\<lambda>s p d. (Inl OtherException, d)),
     dc_close_async = (\<lambda>d. (Inr (), False))\<rparr>"


end
