(* ===== verification/Sql_Orm.thy ===== *)
theory Sql_Orm
  imports Sql_Connection
begin

text \<open>
  The statement builder of include/corouv/sql/orm.h: where clauses, joins,
  and the select, insert, update and delete operations over a Connection.
  Each operation first builds the statement text and its parameters for the
  connection's back end, then queries.
\<close>

section \<open>Data\<close>

record JoinSpec =
  js_kind :: string
  js_table :: string
  js_alias :: string
  js_on :: string

record TableMetaRuntime =
  tm_table :: string
  tm_columns :: "string list"
  tm_primary_key :: "string option"

record WhereClause =
  wc_sql :: string
  wc_params :: SqlParams
  wc_rewrite :: bool

definition empty_where :: WhereClause where
  "empty_where = \<lparr>wc_sql = [], wc_params = [], wc_rewrite = True\<rparr>"

datatype SortDirection = Asc | Desc

record OrderBy =
  ob_expr :: string
  ob_direction :: SortDirection

record SelectOptions =
  so_select_expr :: string
  so_where :: "WhereClause option"
  so_group_by :: "string list"
  so_having :: "WhereClause option"
  so_order_by :: "OrderBy list"
  so_limit :: "nat option"
  so_offset :: "nat option"

record OneRelation =
  or_target_table :: string
  or_target_alias :: string
  or_source_key :: string
  or_target_key :: string
  or_kind :: string

record ManyToManyRelation =
  mm_junction_table :: string
  mm_junction_alias :: string
  mm_target_table :: string
  mm_target_alias :: string
  mm_source_key :: string
  mm_junction_source_key :: string
  mm_junction_target_key :: string
  mm_target_key :: string
  mm_junction_kind :: string
  mm_target_kind :: string

abbreviation orm_error :: "string \<Rightarrow> exn" where
  "orm_error m \<equiv> InvalidArgument (''corouv::sql::orm '' @ m)"

section \<open>Text helpers\<close>

definition placeholder :: "Backend \<Rightarrow> nat \<Rightarrow> string" where
  "placeholder backend index = (if backend = PostgreSQL then ''$'' @ dec_string index else ''?'')"

text \<open>A loop that appends the items of a list with a separator before all but the first.\<close>

fun sep_list :: "string \<Rightarrow> string list \<Rightarrow> string" where
  "sep_list sep [] = []"
| "sep_list sep [x] = x"
| "sep_list sep (x # xs) = x @ sep @ sep_list sep xs"

definition placeholders :: "Backend \<Rightarrow> nat \<Rightarrow> nat \<Rightarrow> string" where
  "placeholders backend count start_index =
     sep_list '', '' (map (\<lambda>i. placeholder backend (start_index + i)) [0..<count])"

definition question_placeholders :: "nat \<Rightarrow> string" where
  "question_placeholders count = sep_list '', '' (replicate count ''?'')"

definition join_columns :: "string list \<Rightarrow> string" where
  "join_columns columns = sep_list '', '' columns"

definition join_sql :: "JoinSpec \<Rightarrow> string" where
  "join_sql join =
     (if js_table join = [] \<or> js_on join = [] then []
      else '' '' @ (if js_kind join = [] then ''INNER'' else js_kind join) @ '' JOIN '' @ js_table join @
           (if js_alias join \<noteq> [] then '' '' @ js_alias join else []) @ '' ON '' @ js_on join)"

definition joins_sql :: "JoinSpec list \<Rightarrow> string" where
  "joins_sql joins = concat (map join_sql joins)"

definition append_where :: "string \<Rightarrow> string \<Rightarrow> string" where
  "append_where sql w = (if w \<noteq> [] then sql @ '' WHERE '' @ w else sql)"

definition check_columns :: "TableMetaRuntime \<Rightarrow> unit result" where
  "check_columns table =
     (if tm_table table = [] then Inl (orm_error ''empty table name'')
      else if tm_columns table = [] then Inl (orm_error ''empty column list'')
      else Inr ())"

definition count_question_placeholders :: "string \<Rightarrow> nat" where
  "count_question_placeholders sql = length (filter (\<lambda>ch. ch = CHR ''?'') sql)"

definition validate_where_clause :: "WhereClause \<Rightarrow> unit result" where
  "validate_where_clause w =
     (if wc_sql w = [] then
        (if wc_params w \<noteq> [] then Inl (orm_error ''empty where clause with non-empty params'') else Inr ())
      else if \<not> wc_rewrite w then Inr ()
      else if count_question_placeholders (wc_sql w) \<noteq> length (wc_params w)
      then Inl (orm_error ''where clause placeholder count mismatch'')
      else Inr ())"

text \<open>The loop over the characters, with the next index.\<close>

fun number_placeholders :: "nat \<Rightarrow> string \<Rightarrow> string" where
  "number_placeholders index [] = []"
| "number_placeholders index (ch # sql) =
     (if ch = CHR ''?'' then ''$'' @ dec_string index @ number_placeholders (Suc index) sql
      else ch # number_placeholders index sql)"

definition render_question_placeholders :: "string \<Rightarrow> Backend \<Rightarrow> nat \<Rightarrow> string" where
  "render_question_placeholders sql backend start_index =
     (if backend \<noteq> PostgreSQL then sql else number_placeholders start_index sql)"

definition render_where_clause :: "WhereClause \<Rightarrow> Backend \<Rightarrow> nat \<Rightarrow> string result" where
  "render_where_clause w backend start_index =
     map_result (\<lambda>_. if \<not> wc_rewrite w then wc_sql w
                     else render_question_placeholders (wc_sql w) backend start_index)
       (validate_where_clause w)"

definition qualify_column :: "string \<Rightarrow> string \<Rightarrow> string" where
  "qualify_column ref column = (if ref = [] then column else ref @ ''.'' @ column)"

section \<open>Where clauses\<close>

definition where_raw :: "string \<Rightarrow> SqlParams \<Rightarrow> bool \<Rightarrow> WhereClause" where
  "where_raw sql params rewrite = \<lparr>wc_sql = sql, wc_params = params, wc_rewrite = rewrite\<rparr>"

abbreviation no_column :: exn where
  "no_column \<equiv> orm_error ''empty where column''"

definition where_binary :: "string \<Rightarrow> string \<Rightarrow> Value \<Rightarrow> WhereClause result" where
  "where_binary column op v =
     (if column = [] then Inl no_column
      else Inr \<lparr>wc_sql = column @ '' '' @ op @ '' ?'', wc_params = [v], wc_rewrite = True\<rparr>)"

definition where_eq :: "string \<Rightarrow> Value \<Rightarrow> WhereClause result" where
  "where_eq column v = where_binary column ''='' v"

definition where_ne :: "string \<Rightarrow> Value \<Rightarrow> WhereClause result" where
  "where_ne column v = where_binary column ''!='' v"

definition where_gt :: "string \<Rightarrow> Value \<Rightarrow> WhereClause result" where
  "where_gt column v = where_binary column ''>'' v"

definition where_ge :: "string \<Rightarrow> Value \<Rightarrow> WhereClause result" where
  "where_ge column v = where_binary column ''>='' v"

definition where_lt :: "string \<Rightarrow> Value \<Rightarrow> WhereClause result" where
  "where_lt column v = where_binary column ''<'' v"

definition where_le :: "string \<Rightarrow> Value \<Rightarrow> WhereClause result" where
  "where_le column v = where_binary column ''<='' v"

definition where_like :: "string \<Rightarrow> Value \<Rightarrow> WhereClause result" where
  "where_like column v = where_binary column ''LIKE'' v"

definition where_between :: "string \<Rightarrow> Value \<Rightarrow> Value \<Rightarrow> WhereClause result" where
  "where_between column low high =
     (if column = [] then Inl no_column
      else Inr \<lparr>wc_sql = column @ '' BETWEEN ? AND ?'', wc_params = [low, high], wc_rewrite = True\<rparr>)"

definition where_in :: "string \<Rightarrow> SqlParams \<Rightarrow> WhereClause result" where
  "where_in column values =
     (if column = [] then Inl no_column
      else if values = [] then Inl (orm_error ''where_in values is empty'')
      else Inr \<lparr>wc_sql = column @ '' IN ('' @ question_placeholders (length values) @ '')'',
                wc_params = values, wc_rewrite = True\<rparr>)"

definition where_is_null :: "string \<Rightarrow> WhereClause result" where
  "where_is_null column =
     (if column = [] then Inl no_column
      else Inr \<lparr>wc_sql = column @ '' IS NULL'', wc_params = [], wc_rewrite = True\<rparr>)"

definition where_is_not_null :: "string \<Rightarrow> WhereClause result" where
  "where_is_not_null column =
     (if column = [] then Inl no_column
      else Inr \<lparr>wc_sql = column @ '' IS NOT NULL'', wc_params = [], wc_rewrite = True\<rparr>)"

definition where_not :: "WhereClause \<Rightarrow> WhereClause result" where
  "where_not clause =
     map_result (\<lambda>_. if wc_sql clause = [] then clause
                     else clause\<lparr>wc_sql := ''NOT ('' @ wc_sql clause @ '')''\<rparr>)
       (validate_where_clause clause)"

text \<open>The choice of the rewrite mode on one clause: keep, take the clause's, or refuse.\<close>

definition combine_mode :: "bool option \<Rightarrow> SqlParams \<Rightarrow> WhereClause \<Rightarrow> bool option result" where
  "combine_mode mode params clause =
     (case mode of
        None \<Rightarrow> Inr (Some (wc_rewrite clause))
      | Some m \<Rightarrow>
          if m \<noteq> wc_rewrite clause \<and> wc_params clause \<noteq> [] then
            (if params = [] then Inr (Some (wc_rewrite clause))
             else Inl (orm_error ''mixed placeholder rewrite mode in where_combine''))
          else Inr mode)"

fun combine_loop ::
  "string \<Rightarrow> WhereClause list \<Rightarrow> bool \<Rightarrow> bool option \<Rightarrow> string \<Rightarrow> SqlParams \<Rightarrow> WhereClause result" where
  "combine_loop op [] first mode sql params =
     Inr \<lparr>wc_sql = sql, wc_params = params, wc_rewrite = (case mode of None \<Rightarrow> True | Some m \<Rightarrow> m)\<rparr>"
| "combine_loop op (clause # clauses) first mode sql params =
     (if wc_sql clause = [] then combine_loop op clauses first mode sql params
      else case validate_where_clause clause of
        Inl e \<Rightarrow> Inl e
      | Inr _ \<Rightarrow>
          (case combine_mode mode params clause of
             Inl e \<Rightarrow> Inl e
           | Inr mode' \<Rightarrow>
               combine_loop op clauses False mode'
                 (sql @ (if first then [] else '' '' @ op @ '' '') @ ''('' @ wc_sql clause @ '')'')
                 (params @ wc_params clause)))"

definition where_combine :: "WhereClause list \<Rightarrow> string \<Rightarrow> WhereClause result" where
  "where_combine clauses op = combine_loop op clauses True None [] []"

definition where_and :: "WhereClause list \<Rightarrow> WhereClause result" where
  "where_and clauses = where_combine clauses ''AND''"

definition where_or :: "WhereClause list \<Rightarrow> WhereClause result" where
  "where_or clauses = where_combine clauses ''OR''"

section \<open>Order, group and joins\<close>

definition order_term :: "OrderBy \<Rightarrow> string" where
  "order_term t = ob_expr t @ (if ob_direction t = Desc then '' DESC'' else '' ASC'')"

definition order_by_sql :: "OrderBy list \<Rightarrow> string" where
  "order_by_sql terms =
     (let ts = filter (\<lambda>t. ob_expr t \<noteq> []) terms
      in if ts = [] then [] else '' ORDER BY '' @ sep_list '', '' (map order_term ts))"

definition group_by_sql :: "string list \<Rightarrow> string" where
  "group_by_sql groups =
     (let gs = filter (\<lambda>g. g \<noteq> []) groups
      in if gs = [] then [] else '' GROUP BY '' @ sep_list '', '' gs)"

definition build_join_from_relation ::
  "string \<Rightarrow> string \<Rightarrow> string \<Rightarrow> string \<Rightarrow> string \<Rightarrow> string \<Rightarrow> JoinSpec result" where
  "build_join_from_relation source_ref target_table target_alias source_key target_key kind =
     (if source_ref = [] \<or> target_table = [] \<or> source_key = [] \<or> target_key = []
      then Inl (orm_error ''invalid relation specification'')
      else let rhs_ref = (if target_alias = [] then target_table else target_alias)
           in Inr \<lparr>js_kind = (if kind = [] then ''LEFT'' else kind), js_table = target_table,
                   js_alias = target_alias,
                   js_on = qualify_column rhs_ref target_key @ '' = '' @ qualify_column source_ref source_key\<rparr>)"

definition relation_joins :: "string \<Rightarrow> OneRelation \<Rightarrow> JoinSpec list result" where
  "relation_joins source_ref rel =
     map_result (\<lambda>j. [j])
       (build_join_from_relation source_ref (or_target_table rel) (or_target_alias rel)
          (or_source_key rel) (or_target_key rel) (or_kind rel))"

definition many_relation_joins :: "string \<Rightarrow> ManyToManyRelation \<Rightarrow> JoinSpec list result" where
  "many_relation_joins source_ref rel =
     (if source_ref = [] \<or> mm_junction_table rel = [] \<or> mm_target_table rel = [] \<or>
         mm_source_key rel = [] \<or> mm_junction_source_key rel = [] \<or>
         mm_junction_target_key rel = [] \<or> mm_target_key rel = []
      then Inl (orm_error ''invalid many-to-many relation specification'')
      else
        (let junction_ref = (if mm_junction_alias rel = [] then mm_junction_table rel else mm_junction_alias rel);
             target_ref = (if mm_target_alias rel = [] then mm_target_table rel else mm_target_alias rel)
         in Inr [\<lparr>js_kind = (if mm_junction_kind rel = [] then ''LEFT'' else mm_junction_kind rel),
                  js_table = mm_junction_table rel, js_alias = mm_junction_alias rel,
                  js_on = qualify_column junction_ref (mm_junction_source_key rel) @ '' = '' @
                          qualify_column source_ref (mm_source_key rel)\<rparr>,
                 \<lparr>js_kind = (if mm_target_kind rel = [] then ''LEFT'' else mm_target_kind rel),
                  js_table = mm_target_table rel, js_alias = mm_target_alias rel,
                  js_on = qualify_column target_ref (mm_target_key rel) @ '' = '' @
                          qualify_column junction_ref (mm_junction_target_key rel)\<rparr>]))"

section \<open>Statements\<close>

type_synonym statement = "string \<times> SqlParams"

text \<open>append_optional_clause updates the text and the parameters; the next index is their number plus one.\<close>

definition append_optional_clause ::
  "Backend \<Rightarrow> WhereClause option \<Rightarrow> string \<Rightarrow> statement \<times> nat \<Rightarrow> (statement \<times> nat) result" where
  "append_optional_clause backend clause keyword state =
     (let ((sql, params), placeholder_index) = state
      in case clause of
           None \<Rightarrow> Inr state
         | Some w \<Rightarrow>
             if wc_sql w = [] then Inr state
             else map_result (\<lambda>t. ((sql @ '' '' @ keyword @ '' '' @ t, params @ wc_params w),
                                   placeholder_index + length (wc_params w)))
                    (render_where_clause w backend placeholder_index))"

definition limit_sql :: "string \<Rightarrow> nat option \<Rightarrow> string" where
  "limit_sql keyword n = (case n of None \<Rightarrow> [] | Some k \<Rightarrow> '' '' @ keyword @ '' '' @ dec_string k)"

definition select_head :: "TableMetaRuntime \<Rightarrow> JoinSpec list \<Rightarrow> string \<Rightarrow> string" where
  "select_head base joins select_expr =
     ''SELECT '' @ (if select_expr = [] then join_columns (tm_columns base) else select_expr) @
     '' FROM '' @ tm_table base @ joins_sql joins"

definition select_statement ::
  "Backend \<Rightarrow> TableMetaRuntime \<Rightarrow> JoinSpec list \<Rightarrow> SelectOptions \<Rightarrow> statement result" where
  "select_statement backend base joins options =
     (case check_columns base of
        Inl e \<Rightarrow> Inl e
      | Inr _ \<Rightarrow>
          (case append_optional_clause backend (so_where options) ''WHERE''
                  ((select_head base joins (so_select_expr options), []), 1) of
             Inl e \<Rightarrow> Inl e
           | Inr ((sql, params), k) \<Rightarrow>
               (case append_optional_clause backend (so_having options) ''HAVING''
                       ((sql @ group_by_sql (so_group_by options), params), k) of
                  Inl e \<Rightarrow> Inl e
                | Inr ((sql, params), k) \<Rightarrow>
                    Inr (sql @ order_by_sql (so_order_by options) @ limit_sql ''LIMIT'' (so_limit options) @
                         limit_sql ''OFFSET'' (so_offset options), params))))"

definition require_pk :: "TableMetaRuntime \<Rightarrow> string result" where
  "require_pk table =
     (case tm_primary_key table of
        None \<Rightarrow> Inl (orm_error ''primary key is required'')
      | Some pk \<Rightarrow> if pk = [] then Inl (orm_error ''primary key is required'') else Inr pk)"

definition find_all_statement :: "TableMetaRuntime \<Rightarrow> string \<Rightarrow> SqlParams \<Rightarrow> statement result" where
  "find_all_statement table w params =
     map_result (\<lambda>_. (append_where (''SELECT '' @ join_columns (tm_columns table) @ '' FROM '' @ tm_table table) w,
                      params)) (check_columns table)"

definition find_by_pk_statement :: "Backend \<Rightarrow> TableMetaRuntime \<Rightarrow> Value \<Rightarrow> statement result" where
  "find_by_pk_statement backend table pk_value =
     (case check_columns table of
        Inl e \<Rightarrow> Inl e
      | Inr _ \<Rightarrow>
          map_result (\<lambda>pk. (''SELECT '' @ join_columns (tm_columns table) @ '' FROM '' @ tm_table table @
                            '' WHERE '' @ pk @ '' = '' @ placeholder backend 1 @ '' LIMIT 1'', [pk_value]))
            (require_pk table))"

definition insert_statement :: "Backend \<Rightarrow> TableMetaRuntime \<Rightarrow> SqlParams \<Rightarrow> statement result" where
  "insert_statement backend table values =
     (case check_columns table of
        Inl e \<Rightarrow> Inl e
      | Inr _ \<Rightarrow>
          if length values \<noteq> length (tm_columns table)
          then Inl (orm_error ''insert values count does not match columns'')
          else Inr (''INSERT INTO '' @ tm_table table @ '' ('' @ join_columns (tm_columns table) @ '') VALUES ('' @
                    placeholders backend (length (tm_columns table)) 1 @ '')'', values))"

definition set_list :: "Backend \<Rightarrow> string list \<Rightarrow> string" where
  "set_list backend set_columns =
     sep_list '', '' (map (\<lambda>i. set_columns ! i @ '' = '' @ placeholder backend (i + 1)) [0..<length set_columns])"

definition check_set :: "string list \<Rightarrow> SqlParams \<Rightarrow> unit result" where
  "check_set set_columns set_values =
     (if set_columns = [] then Inl (orm_error ''update set_columns is empty'')
      else if length set_values \<noteq> length set_columns
      then Inl (orm_error ''update values count does not match columns'')
      else Inr ())"

definition update_where_statement ::
  "Backend \<Rightarrow> TableMetaRuntime \<Rightarrow> string list \<Rightarrow> SqlParams \<Rightarrow> WhereClause \<Rightarrow> bool \<Rightarrow> statement result" where
  "update_where_statement backend table set_columns set_values w allow_empty_where =
     (case check_columns table of
        Inl e \<Rightarrow> Inl e
      | Inr _ \<Rightarrow>
          (case check_set set_columns set_values of
             Inl e \<Rightarrow> Inl e
           | Inr _ \<Rightarrow>
               if wc_sql w = [] \<and> \<not> allow_empty_where
               then Inl (orm_error ''update_where requires where clause'')
               else
                 (let sql = ''UPDATE '' @ tm_table table @ '' SET '' @ set_list backend set_columns
                  in if wc_sql w = [] then Inr (sql, set_values)
                     else map_result (\<lambda>t. (sql @ '' WHERE '' @ t, set_values @ wc_params w))
                            (render_where_clause w backend (length set_columns + 1)))))"

definition update_by_pk_statement ::
  "Backend \<Rightarrow> TableMetaRuntime \<Rightarrow> string list \<Rightarrow> SqlParams \<Rightarrow> Value \<Rightarrow> statement result" where
  "update_by_pk_statement backend table set_columns set_values pk_value =
     (case check_columns table of
        Inl e \<Rightarrow> Inl e
      | Inr _ \<Rightarrow>
          (case require_pk table of
             Inl e \<Rightarrow> Inl e
           | Inr pk \<Rightarrow>
               map_result (\<lambda>_. (''UPDATE '' @ tm_table table @ '' SET '' @ set_list backend set_columns @
                                '' WHERE '' @ pk @ '' = '' @ placeholder backend (length set_columns + 1),
                                set_values @ [pk_value]))
                 (check_set set_columns set_values)))"

definition delete_where_statement ::
  "Backend \<Rightarrow> TableMetaRuntime \<Rightarrow> WhereClause \<Rightarrow> bool \<Rightarrow> statement result" where
  "delete_where_statement backend table w allow_empty_where =
     (case check_columns table of
        Inl e \<Rightarrow> Inl e
      | Inr _ \<Rightarrow>
          if wc_sql w = [] \<and> \<not> allow_empty_where
          then Inl (orm_error ''delete_where requires where clause'')
          else
            (let sql = ''DELETE FROM '' @ tm_table table
             in if wc_sql w = [] then Inr (sql, [])
                else map_result (\<lambda>t. (sql @ '' WHERE '' @ t, wc_params w)) (render_where_clause w backend 1)))"

definition delete_by_pk_statement :: "Backend \<Rightarrow> TableMetaRuntime \<Rightarrow> Value \<Rightarrow> statement result" where
  "delete_by_pk_statement backend table pk_value =
     (case check_columns table of
        Inl e \<Rightarrow> Inl e
      | Inr _ \<Rightarrow>
          map_result (\<lambda>pk. (''DELETE FROM '' @ tm_table table @ '' WHERE '' @ pk @ '' = '' @ placeholder backend 1,
                            [pk_value])) (require_pk table))"

definition join_query_statement ::
  "TableMetaRuntime \<Rightarrow> JoinSpec list \<Rightarrow> string \<Rightarrow> SqlParams \<Rightarrow> string \<Rightarrow> statement result" where
  "join_query_statement base joins w params select_expr =
     map_result (\<lambda>_. (append_where (select_head base joins select_expr) w, params)) (check_columns base)"

section \<open>Operations on a connection\<close>

definition run_query ::
  "'d DriverClass \<Rightarrow> fate \<Rightarrow> statement result \<Rightarrow> 'd Connection \<Rightarrow> Result result \<times> 'd Connection" where
  "run_query D fate st c =
     (case st of Inl e \<Rightarrow> (Inl e, c) | Inr (sql, params) \<Rightarrow> query D fate sql params c)"

definition run_execute ::
  "'d DriverClass \<Rightarrow> fate \<Rightarrow> statement result \<Rightarrow> 'd Connection \<Rightarrow> int result \<times> 'd Connection" where
  "run_execute D fate st c =
     (case st of Inl e \<Rightarrow> (Inl e, c) | Inr (sql, params) \<Rightarrow> execute D fate sql params c)"

definition select_with_joins ::
  "'d DriverClass \<Rightarrow> fate \<Rightarrow> TableMetaRuntime \<Rightarrow> JoinSpec list \<Rightarrow> SelectOptions \<Rightarrow> 'd Connection \<Rightarrow>
   Result result \<times> 'd Connection" where
  "select_with_joins D fate base joins options c =
     run_query D fate (select_statement (connection_backend c) base joins options) c"

definition select ::
  "'d DriverClass \<Rightarrow> fate \<Rightarrow> TableMetaRuntime \<Rightarrow> SelectOptions \<Rightarrow> 'd Connection \<Rightarrow> Result result \<times> 'd Connection" where
  "select D fate table options c = select_with_joins D fate table [] options c"

definition find_all ::
  "'d DriverClass \<Rightarrow> fate \<Rightarrow> TableMetaRuntime \<Rightarrow> string \<Rightarrow> SqlParams \<Rightarrow> 'd Connection \<Rightarrow>
   Result result \<times> 'd Connection" where
  "find_all D fate table w params c = run_query D fate (find_all_statement table w params) c"

definition find_by_pk ::
  "'d DriverClass \<Rightarrow> fate \<Rightarrow> TableMetaRuntime \<Rightarrow> Value \<Rightarrow> 'd Connection \<Rightarrow> Result result \<times> 'd Connection" where
  "find_by_pk D fate table pk_value c =
     run_query D fate (find_by_pk_statement (connection_backend c) table pk_value) c"

definition orm_insert ::
  "'d DriverClass \<Rightarrow> fate \<Rightarrow> TableMetaRuntime \<Rightarrow> SqlParams \<Rightarrow> 'd Connection \<Rightarrow> int result \<times> 'd Connection" where
  "orm_insert D fate table values c =
     run_execute D fate (insert_statement (connection_backend c) table values) c"

definition update_where ::
  "'d DriverClass \<Rightarrow> fate \<Rightarrow> TableMetaRuntime \<Rightarrow> string list \<Rightarrow> SqlParams \<Rightarrow> WhereClause \<Rightarrow> bool \<Rightarrow>
   'd Connection \<Rightarrow> int result \<times> 'd Connection" where
  "update_where D fate table set_columns set_values w allow_empty_where c =
     run_execute D fate
       (update_where_statement (connection_backend c) table set_columns set_values w allow_empty_where) c"

definition update_by_pk ::
  "'d DriverClass \<Rightarrow> fate \<Rightarrow> TableMetaRuntime \<Rightarrow> string list \<Rightarrow> SqlParams \<Rightarrow> Value \<Rightarrow> 'd Connection \<Rightarrow>
   int result \<times> 'd Connection" where
  "update_by_pk D fate table set_columns set_values pk_value c =
     run_execute D fate
       (update_by_pk_statement (connection_backend c) table set_columns set_values pk_value) c"

definition update_row_by_pk ::
  "'d DriverClass \<Rightarrow> fate \<Rightarrow> TableMetaRuntime \<Rightarrow> SqlParams \<Rightarrow> Value \<Rightarrow> 'd Connection \<Rightarrow> int result \<times> 'd Connection" where
  "update_row_by_pk D fate table set_values pk_value c =
     update_by_pk D fate table (tm_columns table) set_values pk_value c"

definition delete_where ::
  "'d DriverClass \<Rightarrow> fate \<Rightarrow> TableMetaRuntime \<Rightarrow> WhereClause \<Rightarrow> bool \<Rightarrow> 'd Connection \<Rightarrow>
   int result \<times> 'd Connection" where
  "delete_where D fate table w allow_empty_where c =
     run_execute D fate (delete_where_statement (connection_backend c) table w allow_empty_where) c"

definition delete_by_pk ::
  "'d DriverClass \<Rightarrow> fate \<Rightarrow> TableMetaRuntime \<Rightarrow> Value \<Rightarrow> 'd Connection \<Rightarrow> int result \<times> 'd Connection" where
  "delete_by_pk D fate table pk_value c =
     run_execute D fate (delete_by_pk_statement (connection_backend c) table pk_value) c"

definition join_query ::
  "'d DriverClass \<Rightarrow> fate \<Rightarrow> TableMetaRuntime \<Rightarrow> JoinSpec list \<Rightarrow> string \<Rightarrow> SqlParams \<Rightarrow> string \<Rightarrow>
   'd Connection \<Rightarrow> Result result \<times> 'd Connection" where
  "join_query D fate base joins w params select_expr c =
     run_query D fate (join_query_statement base joins w params select_expr) c"

text \<open>The three join_ functions check the base table, derive the joins and select.\<close>

definition join_related ::
  "'d DriverClass \<Rightarrow> fate \<Rightarrow> TableMetaRuntime \<Rightarrow> (string \<Rightarrow> JoinSpec list result) \<Rightarrow> SelectOptions \<Rightarrow> string \<Rightarrow>
   'd Connection \<Rightarrow> Result result \<times> 'd Connection" where
  "join_related D fate base joins_of options base_ref c =
     (case check_columns base of
        Inl e \<Rightarrow> (Inl e, c)
      | Inr _ \<Rightarrow>
          (case joins_of (if base_ref = [] then tm_table base else base_ref) of
             Inl e \<Rightarrow> (Inl e, c)
           | Inr joins \<Rightarrow> select_with_joins D fate base joins options c))"

definition join_one_to_one ::
  "'d DriverClass \<Rightarrow> fate \<Rightarrow> TableMetaRuntime \<Rightarrow> OneRelation \<Rightarrow> SelectOptions \<Rightarrow> string \<Rightarrow> 'd Connection \<Rightarrow>
   Result result \<times> 'd Connection" where
  "join_one_to_one D fate base rel options base_ref c =
     join_related D fate base (\<lambda>ref. relation_joins ref rel) options base_ref c"

definition join_one_to_many ::
  "'d DriverClass \<Rightarrow> fate \<Rightarrow> TableMetaRuntime \<Rightarrow> OneRelation \<Rightarrow> SelectOptions \<Rightarrow> string \<Rightarrow> 'd Connection \<Rightarrow>
   Result result \<times> 'd Connection" where
  "join_one_to_many D fate base rel options base_ref c =
     join_related D fate base (\<lambda>ref. relation_joins ref rel) options base_ref c"

definition join_many_to_many ::
  "'d DriverClass \<Rightarrow> fate \<Rightarrow> TableMetaRuntime \<Rightarrow> ManyToManyRelation \<Rightarrow> SelectOptions \<Rightarrow> string \<Rightarrow>
   'd Connection \<Rightarrow> Result result \<times> 'd Connection" where
  "join_many_to_many D fate base rel options base_ref c =
     join_related D fate base (\<lambda>ref. many_relation_joins ref rel) options base_ref c"

section \<open>What a statement means to the server\<close>

text \<open>
  A prepared statement binds its parameters to the placeholders of its text:
  in order to the question marks, or by number to $1, $2 and so on. Both
  readings give the text with the values in place, a list of characters and
  values.
\<close>

type_synonym token = "char + Value"

abbreviation chars :: "string \<Rightarrow> token list" where
  "chars s \<equiv> map Inl s"

fun bind_marks :: "string \<Rightarrow> Value list \<Rightarrow> (token list \<times> Value list) option" where
  "bind_marks [] vs = Some ([], vs)"
| "bind_marks (c # cs) vs =
     (if c = CHR ''?'' then
        (case vs of
           [] \<Rightarrow> None
         | v # vs' \<Rightarrow> map_option (\<lambda>(ts, r). (Inr v # ts, r)) (bind_marks cs vs'))
      else map_option (\<lambda>(ts, r). (Inl c # ts, r)) (bind_marks cs vs))"

function bind_numbers :: "Value list \<Rightarrow> string \<Rightarrow> token list option" where
  "bind_numbers vs [] = Some []"
| "bind_numbers vs (c # cs) =
     (if c = CHR ''$'' \<and> takeWhile is_digit cs \<noteq> [] then
        (let n = digits_value 10 (takeWhile is_digit cs)
         in if 0 < n \<and> n \<le> length vs
            then map_option (Cons (Inr (vs ! (n - 1)))) (bind_numbers vs (dropWhile is_digit cs))
            else None)
      else map_option (Cons (Inl c)) (bind_numbers vs cs))"
  by pat_completeness auto
termination
  by (relation "measure (\<lambda>(_, cs). length cs)") (auto simp: le_imp_less_Suc length_dropWhile_le)

declare bind_numbers.simps(2) [simp del]

text \<open>How the server of a back end reads a statement.\<close>

definition bound_statement :: "Backend \<Rightarrow> statement \<Rightarrow> token list option" where
  "bound_statement backend st =
     (if backend = PostgreSQL then bind_numbers (snd st) (fst st)
      else case bind_marks (fst st) (snd st) of Some (ts, []) \<Rightarrow> Some ts | _ \<Rightarrow> None)"

text \<open>
  A piece of text that takes its values from position k on, whatever comes
  before and after them.
\<close>

definition binds :: "Backend \<Rightarrow> nat \<Rightarrow> string \<Rightarrow> Value list \<Rightarrow> token list \<Rightarrow> bool" where
  "binds backend k t vs ts \<longleftrightarrow>
     (if backend = PostgreSQL
      then \<forall>pre post. Suc (length pre) = k \<longrightarrow> bind_numbers (pre @ vs @ post) t = Some ts
      else \<forall>post. bind_marks t (vs @ post) = Some (ts, post))"

definition plain :: "string \<Rightarrow> bool" where
  "plain s \<longleftrightarrow> CHR ''?'' \<notin> set s \<and> CHR ''$'' \<notin> set s"

definition no_digit_first :: "string \<Rightarrow> bool" where
  "no_digit_first s \<longleftrightarrow> s = [] \<or> \<not> is_digit (hd s)"

fun sep_tokens :: "token list \<Rightarrow> token list list \<Rightarrow> token list" where
  "sep_tokens sep [] = []"
| "sep_tokens sep [x] = x"
| "sep_tokens sep (x # xs) = x @ sep @ sep_tokens sep xs"

text \<open>
  What the builders rely on in a placeholder style: pieces compose when no
  digit follows a placeholder, plain text binds nothing, the k-th placeholder
  binds the k-th value.
\<close>

locale placeholder_style =
  fixes bnd :: "nat \<Rightarrow> string \<Rightarrow> Value list \<Rightarrow> token list \<Rightarrow> bool" and mark :: "nat \<Rightarrow> string"
  assumes bnd_nil: "bnd k [] [] []"
    and bnd_append: "\<lbrakk>bnd k t vs ts; bnd (k + length vs) t' vs' ts'; no_digit_first t'\<rbrakk> \<Longrightarrow>
       bnd k (t @ t') (vs @ vs') (ts @ ts')"
    and bnd_prefix: "plain u \<Longrightarrow> bnd k t vs ts \<Longrightarrow> bnd k (u @ t) vs (chars u @ ts)"
    and bnd_mark: "0 < k \<Longrightarrow> bnd k (mark k) [v] [Inr v]"
begin

lemma bnd_plain: "plain t \<Longrightarrow> bnd k t [] (chars t)"
  using bnd_prefix[OF _ bnd_nil, of t] by simp

lemma bnd_suffix:
  "bnd k t vs ts \<Longrightarrow> plain u \<Longrightarrow> no_digit_first u \<Longrightarrow> bnd k (t @ u) vs (ts @ chars u)"
  using bnd_append[of k t vs ts u "[]" "chars u"] bnd_plain[of u] by simp

text \<open>A comma separated list whose i-th item is plain text followed by the i-th placeholder.\<close>

lemma bnd_items:
  assumes "\<And>x. x \<in> set us \<Longrightarrow> plain x" "length us = length vs" "0 < k"
  shows "bnd k (sep_list '', '' (map (\<lambda>(u, i). u @ mark (k + i)) (zip us [0..<length us]))) vs
    (sep_tokens (chars '', '') (map2 (\<lambda>u v. chars u @ [Inr v]) us vs))"
  using assms
proof (induction us arbitrary: vs k)
  case Nil
  then show ?case by (simp add: bnd_nil)
next
  case (Cons u us)
  then obtain v vs' where vs: "vs = v # vs'" by (cases vs) auto
  let ?rest = "\<lambda>k. sep_list '', '' (map (\<lambda>(u, i). u @ mark (k + i)) (zip us [0..<length us]))"
  have shift: "map (\<lambda>(u, i). u @ mark (k + i)) (zip (u # us) [0..<length (u # us)]) =
      (u @ mark k) # map (\<lambda>(u, i). u @ mark (Suc k + i)) (zip us [0..<length us])"
    by (simp add: upt_conv_Cons map_Suc_upt[symmetric] zip_map2 comp_def split_beta del: upt_Suc)
  have one: "bnd k (u @ mark k) [v] (chars u @ [Inr v])"
    using Cons.prems by (intro bnd_prefix bnd_mark) auto
  have tail: "bnd (Suc k) (?rest (Suc k)) vs' (sep_tokens (chars '', '') (map2 (\<lambda>u v. chars u @ [Inr v]) us vs'))"
    using Cons.IH[of vs' "Suc k"] Cons.prems vs by simp
  show ?case
  proof (cases us)
    case Nil
    then show ?thesis using one vs Cons.prems by (simp add: shift)
  next
    case (Cons u2 us2)
    then obtain v2 vs2 where "vs' = v2 # vs2" using Cons.prems(2) vs by (cases vs') auto
    have "bnd (k + length [v]) ('', '' @ ?rest (Suc k)) vs'
        (chars '', '' @ sep_tokens (chars '', '') (map2 (\<lambda>u v. chars u @ [Inr v]) us vs'))"
      using bnd_prefix[OF _ tail, of "'', ''"] by (simp add: plain_def)
    from bnd_append[OF one this] show ?thesis
      using Cons vs \<open>vs' = v2 # vs2\<close> unfolding shift
      by (simp add: no_digit_first_def minus_not_digit is_digit_def ord_def upt_conv_Cons del: upt_Suc)
  qed
qed

end

lemma bind_marks_append:
  "bind_marks t vs = Some (ts, r) \<Longrightarrow> bind_marks t' r = Some (ts', r') \<Longrightarrow>
   bind_marks (t @ t') vs = Some (ts @ ts', r')"
proof (induction t arbitrary: vs ts)
  case (Cons c t)
  then show ?case by (auto split: list.splits if_splits)
qed simp

lemma takeWhile_append_stop:
  "no_digit_first t' \<Longrightarrow> takeWhile is_digit (cs @ t') = takeWhile is_digit cs"
  "no_digit_first t' \<Longrightarrow> dropWhile is_digit (cs @ t') = dropWhile is_digit cs @ t'"
  by (induction cs) (cases t', auto simp: no_digit_first_def)+

lemma bind_numbers_append:
  assumes "no_digit_first t'" "bind_numbers vs t' = Some ts'" "bind_numbers vs t = Some ts"
  shows "bind_numbers vs (t @ t') = Some (ts @ ts')"
  using assms(2,3)
proof (induction vs t arbitrary: ts rule: bind_numbers.induct)
  case (1 vs)
  then show ?case by simp
next
  case (2 vs c cs)
  show ?case
  proof (cases "c = CHR ''$'' \<and> takeWhile is_digit cs \<noteq> []")
    case True
    then show ?thesis using 2(1)[OF True refl] 2(3,4) takeWhile_append_stop[OF assms(1), of cs]
      by (auto simp: bind_numbers.simps(2) Let_def split: if_splits)
  next
    case False
    then show ?thesis using 2(2)[OF False] 2(3,4) takeWhile_append_stop[OF assms(1), of cs]
      by (auto simp: bind_numbers.simps(2))
  qed
qed

lemma bind_plain:
  "CHR ''?'' \<notin> set t \<Longrightarrow> bind_marks t vs = Some (chars t, vs)"
  "CHR ''$'' \<notin> set t \<Longrightarrow> bind_numbers vs t = Some (chars t)"
  by (induction t) (auto simp: bind_numbers.simps(2))

lemma bind_number_mark:
  "bind_numbers (pre @ v # post) (''$'' @ dec_string (Suc (length pre))) = Some [Inr v]"
proof -
  let ?d = "dec_string (Suc (length pre))"
  have "takeWhile is_digit ?d = ?d" "dropWhile is_digit ?d = []"
    using span_digits[OF dec_string_digits, of "[]" "Suc (length pre)"] by auto
  then show ?thesis by (simp add: bind_numbers.simps(2) digits_value_to_base nth_append del: takeWhile_eq_all_conv dropWhile_eq_Nil_conv)
qed

lemma binds_append:
  assumes "binds b k t vs ts" "binds b (k + length vs) t' vs' ts'" "no_digit_first t'"
  shows "binds b k (t @ t') (vs @ vs') (ts @ ts')"
proof (cases "b = PostgreSQL")
  case True
  have "bind_numbers (pre @ (vs @ vs') @ post) (t @ t') = Some (ts @ ts')" if "Suc (length pre) = k" for pre post
  proof -
    have "bind_numbers (pre @ vs @ vs' @ post) t = Some ts" using assms(1) that True by (simp add: binds_def)
    moreover have "bind_numbers ((pre @ vs) @ vs' @ post) t' = Some ts'"
      using assms(2) that True unfolding binds_def by (metis add_Suc length_append)
    ultimately show ?thesis using bind_numbers_append[OF assms(3)] by simp
  qed
  then show ?thesis using True by (simp add: binds_def)
next
  case False
  then show ?thesis using assms by (simp add: binds_def bind_marks_append)
qed

lemma bind_prefix:
  "CHR ''?'' \<notin> set u \<Longrightarrow> bind_marks t vs = Some (ts, r) \<Longrightarrow> bind_marks (u @ t) vs = Some (chars u @ ts, r)"
  "CHR ''$'' \<notin> set u \<Longrightarrow> bind_numbers vs t = Some ts \<Longrightarrow> bind_numbers vs (u @ t) = Some (chars u @ ts)"
  by (induction u) (auto simp: bind_numbers.simps(2))

interpretation orm: placeholder_style "binds b" "placeholder b" for b
proof unfold_locales
  show "binds b k [] [] []" for b k by (simp add: binds_def)
  show "binds b k t vs ts \<Longrightarrow> binds b (k + length vs) t' vs' ts' \<Longrightarrow> no_digit_first t' \<Longrightarrow>
      binds b k (t @ t') (vs @ vs') (ts @ ts')" for b k t vs ts t' vs' ts'
    by (rule binds_append)
  show "plain u \<Longrightarrow> binds b k t vs ts \<Longrightarrow> binds b k (u @ t) vs (chars u @ ts)" for b k u t vs ts
    by (simp add: binds_def plain_def bind_prefix)
  show "0 < k \<Longrightarrow> binds b k (placeholder b k) [v] [Inr v]" for b k v
    using bind_number_mark by (auto simp: binds_def placeholder_def)
qed

section \<open>Where clauses\<close>

text \<open>A question mark is never followed by a digit, which PostgreSQL would read as part of the number.\<close>

fun holes_apart :: "string \<Rightarrow> bool" where
  "holes_apart [] = True"
| "holes_apart (c # cs) = ((c = CHR ''?'' \<longrightarrow> no_digit_first cs) \<and> holes_apart cs)"

text \<open>A clause in rewrite mode whose parameters go where the tokens say.\<close>

definition clause_means :: "WhereClause \<Rightarrow> token list \<Rightarrow> bool" where
  "clause_means w ts \<longleftrightarrow> wc_rewrite w \<and> CHR ''$'' \<notin> set (wc_sql w) \<and> holes_apart (wc_sql w) \<and>
     bind_marks (wc_sql w) (wc_params w) = Some (ts, [])"

lemma bind_marks_step:
  assumes "bind_marks (c # cs) vs = Some (ts, r)"
  obtains v vs' ts' where "c = CHR ''?''" "vs = v # vs'" "ts = Inr v # ts'" "bind_marks cs vs' = Some (ts', r)"
  | ts' where "c \<noteq> CHR ''?''" "ts = Inl c # ts'" "bind_marks cs vs = Some (ts', r)"
  using assms by (auto split: if_splits list.splits)

lemma bind_marks_more: "bind_marks t vs = Some (ts, r) \<Longrightarrow> bind_marks t (vs @ post) = Some (ts, r @ post)"
proof (induction t arbitrary: vs ts)
  case (Cons c t)
  from Cons.prems show ?case
  proof (rule bind_marks_step)
    fix v vs' ts' assume "c = CHR ''?''" "vs = v # vs'" "ts = Inr v # ts'" "bind_marks t vs' = Some (ts', r)"
    then show ?case using Cons.IH by simp
  next
    fix ts' assume "c \<noteq> CHR ''?''" "ts = Inl c # ts'" "bind_marks t vs = Some (ts', r)"
    then show ?case using Cons.IH by simp
  qed
qed simp

lemma bind_marks_count:
  "bind_marks t vs = Some (ts, r) \<Longrightarrow> count_question_placeholders t + length r = length vs \<and> length ts = length t"
proof (induction t arbitrary: vs ts)
  case (Cons c t)
  from Cons.prems show ?case
  proof (rule bind_marks_step)
    fix v vs' ts' assume "c = CHR ''?''" "vs = v # vs'" "ts = Inr v # ts'" "bind_marks t vs' = Some (ts', r)"
    then show ?case using Cons.IH[of vs' ts'] by (simp add: count_question_placeholders_def)
  next
    fix ts' assume "c \<noteq> CHR ''?''" "ts = Inl c # ts'" "bind_marks t vs = Some (ts', r)"
    then show ?case using Cons.IH[of vs ts'] by (simp add: count_question_placeholders_def)
  qed
qed (simp add: count_question_placeholders_def)

lemma holes_apart_append:
  "holes_apart a \<Longrightarrow> holes_apart b \<Longrightarrow> no_digit_first b \<Longrightarrow> holes_apart (a @ b)"
  by (induction a) (auto simp: no_digit_first_def hd_append)

lemma holes_apart_plain: "CHR ''?'' \<notin> set a \<Longrightarrow> holes_apart b \<Longrightarrow> holes_apart (a @ b)"
  by (induction a) auto

lemma number_placeholders_first:
  "no_digit_first sql \<Longrightarrow> no_digit_first (number_placeholders k sql)"
  by (cases sql) (auto simp: no_digit_first_def is_digit_def ord_def)

lemma number_placeholders_binds:
  assumes "CHR ''$'' \<notin> set sql" "holes_apart sql" "bind_marks sql vs = Some (ts, [])" "0 < k"
  shows "binds PostgreSQL k (number_placeholders k sql) vs ts"
  using assms
proof (induction sql arbitrary: vs ts k)
  case Nil
  then show ?case by (simp add: orm.bnd_nil)
next
  case (Cons c sql)
  show ?case
  proof (cases "c = CHR ''?''")
    case True
    with Cons.prems obtain v vs' ts' where v: "vs = v # vs'" "ts = Inr v # ts'" "bind_marks sql vs' = Some (ts', [])"
      by (auto split: list.splits)
    have "binds PostgreSQL (Suc k) (number_placeholders (Suc k) sql) vs' ts'"
      using Cons v by auto
    moreover have "no_digit_first (number_placeholders (Suc k) sql)"
      using Cons.prems True by (intro number_placeholders_first) simp
    ultimately show ?thesis
      using binds_append[of PostgreSQL k "placeholder PostgreSQL k" "[v]" "[Inr v]"] orm.bnd_mark[of k PostgreSQL v]
        True v Cons.prems(4) by (simp add: placeholder_def)
  next
    case False
    with Cons.prems obtain ts' where t: "ts = Inl c # ts'" "bind_marks sql vs = Some (ts', [])" by auto
    have "plain [c]" using Cons.prems False by (auto simp: plain_def)
    moreover have "binds PostgreSQL k (number_placeholders k sql) vs ts'" using Cons t by auto
    ultimately show ?thesis using orm.bnd_prefix[of "[c]"] False t by simp
  qed
qed

lemma render_binds:
  assumes "clause_means w ts" "0 < k"
  shows "\<exists>t. render_where_clause w b k = Inr t \<and> binds b k t (wc_params w) ts"
proof -
  have m: "bind_marks (wc_sql w) (wc_params w) = Some (ts, [])" using assms by (simp add: clause_means_def)
  have "validate_where_clause w = Inr ()"
    using bind_marks_count[OF m] by (auto simp: validate_where_clause_def count_question_placeholders_def)
  moreover have "binds b k (render_question_placeholders (wc_sql w) b k) (wc_params w) ts"
  proof (cases "b = PostgreSQL")
    case True
    then show ?thesis using assms m
      by (simp add: render_question_placeholders_def clause_means_def number_placeholders_binds)
  next
    case False
    then show ?thesis using bind_marks_more[OF m] by (simp add: render_question_placeholders_def binds_def)
  qed
  ultimately show ?thesis using assms(1) by (simp add: render_where_clause_def clause_means_def)
qed

text \<open>Conditions, as callers compose them from the where_ functions, and the text they stand for.\<close>

datatype cmp = Eq | Ne | Gt | Ge | Lt | Le | Like

fun where_cmp :: "cmp \<Rightarrow> string \<Rightarrow> Value \<Rightarrow> WhereClause result" where
  "where_cmp Eq = where_eq" | "where_cmp Ne = where_ne" | "where_cmp Gt = where_gt"
| "where_cmp Ge = where_ge" | "where_cmp Lt = where_lt" | "where_cmp Le = where_le"
| "where_cmp Like = where_like"

fun cmp_text :: "cmp \<Rightarrow> string" where
  "cmp_text Eq = ''=''" | "cmp_text Ne = ''!=''" | "cmp_text Gt = ''>''"
| "cmp_text Ge = ''>=''" | "cmp_text Lt = ''<''" | "cmp_text Le = ''<=''"
| "cmp_text Like = ''LIKE''"

datatype cond =
    Cmp cmp string Value
  | Between string Value Value
  | In string "Value list"
  | IsNull string
  | IsNotNull string
  | Not cond
  | All "cond list"
  | Any "cond list"

fun build :: "cond \<Rightarrow> WhereClause result" and build_list :: "cond list \<Rightarrow> WhereClause list result" where
  "build (Cmp p col v) = where_cmp p col v"
| "build (Between col lo hi) = where_between col lo hi"
| "build (In col vs) = where_in col vs"
| "build (IsNull col) = where_is_null col"
| "build (IsNotNull col) = where_is_not_null col"
| "build (Not e) = (case build e of Inl x \<Rightarrow> Inl x | Inr w \<Rightarrow> where_not w)"
| "build (All es) = (case build_list es of Inl x \<Rightarrow> Inl x | Inr ws \<Rightarrow> where_and ws)"
| "build (Any es) = (case build_list es of Inl x \<Rightarrow> Inl x | Inr ws \<Rightarrow> where_or ws)"
| "build_list [] = Inr []"
| "build_list (e # es) =
     (case build e of Inl x \<Rightarrow> Inl x | Inr w \<Rightarrow> map_result (Cons w) (build_list es))"

definition join_tokens :: "string \<Rightarrow> token list list \<Rightarrow> token list" where
  "join_tokens op tss =
     sep_tokens (chars ('' '' @ op @ '' '')) (map (\<lambda>ts. chars ''('' @ ts @ chars '')'') (filter (\<lambda>ts. ts \<noteq> []) tss))"

fun cond_tokens :: "cond \<Rightarrow> token list" where
  "cond_tokens (Cmp p col v) = chars (col @ '' '' @ cmp_text p @ '' '') @ [Inr v]"
| "cond_tokens (Between col lo hi) = chars (col @ '' BETWEEN '') @ [Inr lo] @ chars '' AND '' @ [Inr hi]"
| "cond_tokens (In col vs) = chars (col @ '' IN ('') @ sep_tokens (chars '', '') (map (\<lambda>v. [Inr v]) vs) @ chars '')''"
| "cond_tokens (IsNull col) = chars (col @ '' IS NULL'')"
| "cond_tokens (IsNotNull col) = chars (col @ '' IS NOT NULL'')"
| "cond_tokens (Not e) = (if cond_tokens e = [] then [] else chars ''NOT ('' @ cond_tokens e @ chars '')'')"
| "cond_tokens (All es) = join_tokens ''AND'' (map cond_tokens es)"
| "cond_tokens (Any es) = join_tokens ''OR'' (map cond_tokens es)"

fun plain_cond :: "cond \<Rightarrow> bool" where
  "plain_cond (Cmp p col v) = plain col"
| "plain_cond (Between col lo hi) = plain col"
| "plain_cond (In col vs) = plain col"
| "plain_cond (IsNull col) = plain col"
| "plain_cond (IsNotNull col) = plain col"
| "plain_cond (Not e) = plain_cond e"
| "plain_cond (All es) = list_all plain_cond es"
| "plain_cond (Any es) = list_all plain_cond es"

lemma clause_validates: "clause_means w ts \<Longrightarrow> validate_where_clause w = Inr ()"
  using bind_marks_count[of "wc_sql w" "wc_params w" ts "[]"]
  by (auto simp: validate_where_clause_def clause_means_def count_question_placeholders_def)

lemma clause_empty: "clause_means w ts \<Longrightarrow> wc_sql w = [] \<longleftrightarrow> ts = []"
  using bind_marks_count[of "wc_sql w" "wc_params w" ts "[]"] by (auto simp: clause_means_def)

text \<open>Pieces of a clause in rewrite mode.\<close>

definition piece :: "string \<Rightarrow> Value list \<Rightarrow> token list \<Rightarrow> bool" where
  "piece t vs ts \<longleftrightarrow> CHR ''$'' \<notin> set t \<and> holes_apart t \<and> bind_marks t vs = Some (ts, [])"

lemma clause_means_piece: "clause_means w ts \<longleftrightarrow> wc_rewrite w \<and> piece (wc_sql w) (wc_params w) ts"
  by (auto simp: clause_means_def piece_def)

lemma piece_append:
  "piece t vs ts \<Longrightarrow> piece t' vs' ts' \<Longrightarrow> no_digit_first t' \<Longrightarrow> piece (t @ t') (vs @ vs') (ts @ ts')"
  using bind_marks_append[OF bind_marks_more[of t vs ts "[]" vs'], of t' ts' "[]"]
  by (auto simp: piece_def intro: holes_apart_append)

lemma piece_plain: "plain t \<Longrightarrow> piece t [] (chars t)"
  using holes_apart_plain[of t "[]"] by (simp add: piece_def plain_def bind_plain)

lemma piece_prefix: "plain u \<Longrightarrow> piece t vs ts \<Longrightarrow> piece (u @ t) vs (chars u @ ts)"
  by (auto simp: piece_def plain_def bind_prefix intro: holes_apart_plain)

lemma piece_suffix: "piece t vs ts \<Longrightarrow> plain u \<Longrightarrow> no_digit_first u \<Longrightarrow> piece (t @ u) vs (ts @ chars u)"
  using piece_append[of t vs ts u "[]"] piece_plain[of u] by simp

lemma piece_mark: "piece ''?'' [v] [Inr v]"
  by (simp add: piece_def no_digit_first_def)

lemma piece_marks:
  "vs \<noteq> [] \<Longrightarrow> piece (question_placeholders (length vs)) vs (sep_tokens (chars '', '') (map (\<lambda>v. [Inr v]) vs))"
proof (induction vs)
  case (Cons v vs)
  show ?case
  proof (cases vs)
    case Nil
    then show ?thesis by (simp add: question_placeholders_def piece_mark)
  next
    case (Cons v2 vs2)
    then have "piece ('', '' @ question_placeholders (length vs)) vs
        (chars '', '' @ sep_tokens (chars '', '') (map (\<lambda>v. [Inr v]) vs))"
      using Cons.IH by (intro piece_prefix) (simp_all add: plain_def)
    from piece_append[OF piece_mark this] Cons show ?thesis
      by (simp add: question_placeholders_def no_digit_first_def is_digit_def ord_def)
  qed
qed simp

lemma plain_append: "plain (a @ b) \<longleftrightarrow> plain a \<and> plain b"
  by (auto simp: plain_def)

lemma cmp_plain: "plain (cmp_text p)"
  by (cases p) (simp_all add: plain_def)

lemma where_cmp_binary: "where_cmp p col v = where_binary col (cmp_text p) v"
  by (cases p) (simp_all add: where_eq_def where_ne_def where_gt_def where_ge_def where_lt_def
      where_le_def where_like_def)

lemma not_means:
  assumes "clause_means w ts" "where_not w = Inr w'"
  shows "clause_means w' (if ts = [] then [] else chars ''NOT ('' @ ts @ chars '')'')"
proof (cases "ts = []")
  case True
  then show ?thesis using assms clause_empty[OF assms(1)] clause_validates[OF assms(1)]
    by (simp add: where_not_def)
next
  case False
  have "piece (''NOT ('' @ wc_sql w @ '')'') (wc_params w) (chars ''NOT ('' @ ts @ chars '')'')"
    using assms(1) by (intro piece_prefix piece_suffix)
      (simp_all add: clause_means_piece plain_def no_digit_first_def is_digit_def ord_def)
  then show ?thesis using assms False clause_empty[OF assms(1)] clause_validates[OF assms(1)]
    by (auto simp: where_not_def clause_means_piece)
qed

lemma sep_tokens_Cons: "sep_tokens sep (x # xs) = x @ concat (map (\<lambda>t. sep @ t) xs)"
  by (induction xs arbitrary: x) auto

text \<open>What the loop of where_combine has still to add to a text that is not empty.\<close>

definition more_tokens :: "string \<Rightarrow> token list list \<Rightarrow> token list" where
  "more_tokens op tss =
     concat (map (\<lambda>ts. chars ('' '' @ op @ '' ('') @ ts @ chars '')'') (filter (\<lambda>ts. ts \<noteq> []) tss))"

lemma join_tokens_Cons:
  "join_tokens op (ts # tss) =
   (if ts = [] then join_tokens op tss else chars ''('' @ ts @ chars '')'' @ more_tokens op tss)"
  by (simp add: join_tokens_def sep_tokens_Cons more_tokens_def comp_def)

lemma combine_piece:
  assumes "piece sql params acc" "piece t vs ts" "plain op"
  shows "piece (sql @ (if sql = [] then [] else '' '' @ op @ '' '') @ ''('' @ t @ '')'') (params @ vs)
    (acc @ (if sql = [] then [] else chars ('' '' @ op @ '' '')) @ chars ''('' @ ts @ chars '')'')"
proof -
  have "piece (t @ '')'') vs (ts @ chars '')'')"
    using assms(2) by (rule piece_suffix) (simp_all add: plain_def no_digit_first_def is_digit_def ord_def)
  then have "piece (((if sql = [] then [] else '' '' @ op @ '' '') @ ''('') @ t @ '')'') vs
      (chars ((if sql = [] then [] else '' '' @ op @ '' '') @ ''('') @ ts @ chars '')'')"
    by (rule piece_prefix[rotated]) (use assms(3) in \<open>auto simp: plain_def\<close>)
  from piece_append[OF assms(1) this] show ?thesis
    by (cases "sql = []") (simp_all add: no_digit_first_def is_digit_def ord_def)
qed

lemma more_tokens_Cons:
  "more_tokens op (ts # tss) =
   (if ts = [] then [] else chars ('' '' @ op @ '' ('') @ ts @ chars '')'') @ more_tokens op tss"
  by (simp add: more_tokens_def)

lemma combine_loop_means:
  assumes "list_all2 clause_means ws tss" "plain op" "piece sql params acc" "mode = None \<or> mode = Some True"
    and "first \<longleftrightarrow> sql = []"
  shows "\<exists>w. combine_loop op ws first mode sql params = Inr w \<and>
    clause_means w (if first then join_tokens op tss else acc @ more_tokens op tss)"
  using assms
proof (induction ws arbitrary: tss first mode sql params acc)
  case Nil
  then have "acc = []" if first using that by (simp add: piece_def)
  with Nil show ?case
    by (auto simp: clause_means_piece join_tokens_def more_tokens_def piece_def)
next
  case (Cons w ws)
  then obtain ts tss' where t: "tss = ts # tss'" "clause_means w ts" "list_all2 clause_means ws tss'"
    by (cases tss) auto
  show ?case
  proof (cases "ts = []")
    case True
    then show ?thesis
      using Cons.IH[OF t(3) Cons.prems(2-5)] clause_empty[OF t(2)] t(1)
      by (simp add: join_tokens_Cons more_tokens_Cons cong: if_cong)
  next
    case False
    have mode: "combine_mode mode params w = Inr (Some True)"
      using t(2) Cons.prems(4) by (auto simp: combine_mode_def clause_means_def)
    let ?sql = "sql @ (if first then [] else '' '' @ op @ '' '') @ ''('' @ wc_sql w @ '')''"
    let ?acc = "acc @ (if first then [] else chars ('' '' @ op @ '' '')) @ chars ''('' @ ts @ chars '')''"
    have "piece ?sql (params @ wc_params w) ?acc"
      using combine_piece[OF Cons.prems(3) _ Cons.prems(2), of "wc_sql w"] t(2) Cons.prems(5)
      by (auto simp: clause_means_piece)
    from Cons.IH[OF t(3) Cons.prems(2) this, of "Some True" False]
    obtain w' where "combine_loop op ws False (Some True) ?sql (params @ wc_params w) = Inr w'"
      "clause_means w' (?acc @ more_tokens op tss')" by auto
    moreover have "acc = []" if first using that Cons.prems(3,5) by (simp add: piece_def)
    ultimately show ?thesis
      using False clause_empty[OF t(2)] clause_validates[OF t(2)] mode t(1)
      by (auto simp: join_tokens_Cons more_tokens_Cons)
  qed
qed

lemma combine_means:
  assumes "list_all2 clause_means ws tss" "plain op"
  shows "\<exists>w. where_combine ws op = Inr w \<and> clause_means w (join_tokens op tss)"
  using combine_loop_means[OF assms, of "[]" "[]" "[]" None True]
  by (simp add: where_combine_def piece_def)

lemma build_means:
  "build e = Inr w \<Longrightarrow> plain_cond e \<Longrightarrow> clause_means w (cond_tokens e)"
  "build_list es = Inr ws \<Longrightarrow> list_all plain_cond es \<Longrightarrow> list_all2 clause_means ws (map cond_tokens es)"
proof (induction e and es arbitrary: w and ws rule: build_build_list.induct)
  case (1 p col v)
  then have "piece ((col @ '' '' @ cmp_text p @ '' '') @ ''?'') [v] (chars (col @ '' '' @ cmp_text p @ '' '') @ [Inr v])"
    using cmp_plain by (intro piece_prefix piece_mark) (auto simp: plain_def)
  with 1 show ?case by (auto simp: where_cmp_binary where_binary_def clause_means_piece split: if_splits)
next
  case (2 col lo hi)
  have "piece ('' AND '' @ ''?'') [hi] (chars '' AND '' @ [Inr hi])"
    by (intro piece_prefix piece_mark) (simp add: plain_def)
  from piece_append[OF piece_mark this, of lo]
  have "piece (''? AND ?'') [lo, hi] ([Inr lo] @ chars '' AND '' @ [Inr hi])"
    by (simp add: no_digit_first_def is_digit_def ord_def)
  from piece_prefix[OF _ this, of "col @ '' BETWEEN ''"] 2
  show ?case by (auto simp: where_between_def clause_means_piece plain_def split: if_splits)
next
  case (3 col vs)
  then have "vs \<noteq> []" by (auto simp: where_in_def split: if_splits)
  from piece_suffix[OF piece_marks[OF this], of "'')''"]
  have "piece (question_placeholders (length vs) @ '')'') vs
      (sep_tokens (chars '', '') (map (\<lambda>v. [Inr v]) vs) @ chars '')'')"
    by (simp add: plain_def no_digit_first_def is_digit_def ord_def)
  from piece_prefix[OF _ this, of "col @ '' IN (''"] 3
  show ?case by (auto simp: where_in_def clause_means_piece plain_def split: if_splits)
next
  case (4 col)
  with piece_plain[of "col @ '' IS NULL''"] show ?case
    by (auto simp: where_is_null_def clause_means_piece plain_def split: if_splits)
next
  case (5 col)
  with piece_plain[of "col @ '' IS NOT NULL''"] show ?case
    by (auto simp: where_is_not_null_def clause_means_piece plain_def split: if_splits)
next
  case (6 e)
  then obtain w0 where w0: "build e = Inr w0" "where_not w0 = Inr w" by (auto split: sum.splits)
  with 6 have "clause_means w0 (cond_tokens e)" by simp
  from not_means[OF this w0(2)] show ?case by simp
next
  case (7 es)
  then obtain ws where "build_list es = Inr ws" "where_and ws = Inr w" by (auto split: sum.splits)
  with 7 combine_means[of ws "map cond_tokens es" "''AND''"] show ?case
    by (auto simp: where_and_def plain_def)
next
  case (8 es)
  then obtain ws where "build_list es = Inr ws" "where_or ws = Inr w" by (auto split: sum.splits)
  with 8 combine_means[of ws "map cond_tokens es" "''OR''"] show ?case
    by (auto simp: where_or_def plain_def)
next
  case (10 e es)
  then show ?case by (auto simp: map_result_eq_Inr split: sum.splits)
qed simp

section \<open>Statements\<close>

text \<open>An optional clause made of the where_ functions, and the tokens it stands for.\<close>

definition option_means :: "WhereClause option \<Rightarrow> token list \<Rightarrow> bool" where
  "option_means cl ts \<longleftrightarrow>
     (case cl of None \<Rightarrow> ts = [] | Some w \<Rightarrow> (\<exists>e. build e = Inr w \<and> plain_cond e \<and> ts = cond_tokens e))"

definition clause_tokens :: "string \<Rightarrow> token list \<Rightarrow> token list" where
  "clause_tokens keyword ts = (if ts = [] then [] else chars ('' '' @ keyword @ '' '') @ ts)"

definition plain_table :: "TableMetaRuntime \<Rightarrow> bool" where
  "plain_table t \<longleftrightarrow> check_columns t = Inr () \<and> plain (tm_table t) \<and> list_all plain (tm_columns t) \<and>
     (case tm_primary_key t of None \<Rightarrow> True | Some pk \<Rightarrow> plain pk)"

definition plain_join :: "JoinSpec \<Rightarrow> bool" where
  "plain_join j \<longleftrightarrow> plain (js_kind j) \<and> plain (js_table j) \<and> plain (js_alias j) \<and> plain (js_on j)"

definition plain_options :: "SelectOptions \<Rightarrow> bool" where
  "plain_options op \<longleftrightarrow> plain (so_select_expr op) \<and> list_all plain (so_group_by op) \<and>
     list_all (\<lambda>t. plain (ob_expr t)) (so_order_by op)"

lemma binds_bound: "binds b 1 sql params ts \<Longrightarrow> bound_statement b (sql, params) = Some ts"
  unfolding binds_def bound_statement_def
  by (cases "b = PostgreSQL") (force dest: spec[of _ "[]"])+

lemma plain_Nil [simp]: "plain []"
  by (simp add: plain_def)

lemma plain_sep_list: "plain sep \<Longrightarrow> list_all plain xs \<Longrightarrow> plain (sep_list sep xs)"
  by (induction sep xs rule: sep_list.induct) (auto simp: plain_append)

lemma plain_digits: "plain (dec_string n)"
  by (auto simp: plain_def dest!: to_base_digits[of 10, rotated 2] simp: is_digit_base10 is_digit_def ord_def)

lemma plain_Cons [simp]: "plain (c # s) \<longleftrightarrow> c \<noteq> CHR ''?'' \<and> c \<noteq> CHR ''$'' \<and> plain s"
  by (auto simp: plain_def)

lemma plain_select_head:
  assumes "plain_table base" "list_all plain_join joins" "plain e"
  shows "plain (select_head base joins e)"
proof -
  have "plain (join_sql j)" if "plain_join j" for j
    using that by (simp add: join_sql_def plain_join_def plain_append)
  then have "plain (joins_sql joins)"
    using assms(2) by (induction joins) (auto simp: joins_sql_def plain_append)
  then show ?thesis using assms
    by (simp add: select_head_def plain_append plain_table_def join_columns_def plain_sep_list)
qed

lemma plain_group_order:
  "list_all plain gs \<Longrightarrow> plain (group_by_sql gs)"
  "list_all (\<lambda>t. plain (ob_expr t)) os \<Longrightarrow> plain (order_by_sql os)"
  "plain kw \<Longrightarrow> plain (limit_sql kw n)"
  by (auto simp: group_by_sql_def order_by_sql_def limit_sql_def Let_def plain_append order_term_def list_all_iff
      plain_digits intro!: plain_sep_list split: option.splits)

definition blank_first :: "string \<Rightarrow> bool" where
  "blank_first s \<longleftrightarrow> s = [] \<or> hd s = CHR '' ''"

lemma blank_firsts:
  "blank_first (group_by_sql gs)" "blank_first (order_by_sql os)" "blank_first (limit_sql kw n)"
  "blank_first a \<Longrightarrow> blank_first b \<Longrightarrow> blank_first (a @ b)"
  by (auto simp: blank_first_def group_by_sql_def order_by_sql_def limit_sql_def Let_def hd_append split: option.splits)

lemma blank_no_digit: "blank_first s \<Longrightarrow> no_digit_first s"
  by (auto simp: blank_first_def no_digit_first_def is_digit_def ord_def)

lemma append_optional_binds:
  assumes "binds b 1 sql params acc" "option_means cl ts" "plain kw"
  shows "\<exists>sql' params'. append_optional_clause b cl kw ((sql, params), Suc (length params)) =
      Inr ((sql', params'), Suc (length params')) \<and> binds b 1 sql' params' (acc @ clause_tokens kw ts)"
proof (cases cl)
  case None
  then show ?thesis using assms by (simp add: append_optional_clause_def option_means_def clause_tokens_def)
next
  case (Some w)
  then have w: "clause_means w ts" using assms(2) build_means(1) by (auto simp: option_means_def)
  show ?thesis
  proof (cases "ts = []")
    case True
    then show ?thesis using assms Some clause_empty[OF w]
      by (simp add: append_optional_clause_def clause_tokens_def)
  next
    case False
    obtain t where t: "render_where_clause w b (Suc (length params)) = Inr t"
      "binds b (Suc (length params)) t (wc_params w) ts" using render_binds[OF w, of "Suc (length params)"] by auto
    have "binds b (1 + length params) (('' '' @ kw @ '' '') @ t) (wc_params w) (chars ('' '' @ kw @ '' '') @ ts)"
      using t(2) assms(3) by (intro orm.bnd_prefix) (simp_all add: plain_append)
    from binds_append[OF assms(1) this]
    have "binds b 1 (sql @ ('' '' @ kw @ '' '') @ t) (params @ wc_params w) (acc @ clause_tokens kw ts)"
      using False by (simp add: clause_tokens_def no_digit_first_def is_digit_def ord_def)
    with t(1) Some False clause_empty[OF w] show ?thesis by (simp add: append_optional_clause_def)
  qed
qed

lemma binds_suffix_blank:
  "binds b k t vs ts \<Longrightarrow> plain u \<Longrightarrow> blank_first u \<Longrightarrow> binds b k (t @ u) vs (ts @ chars u)"
  by (rule orm.bnd_suffix) (auto intro: blank_no_digit)


definition sample_table :: TableMetaRuntime where
  "sample_table = \<lparr>tm_table = ''t'', tm_columns = [''id'', ''name''], tm_primary_key = Some ''id''\<rparr>"

definition sample_cond :: cond where
  "sample_cond = All [Cmp Eq ''a'' (Int64 1), In ''b'' [Int64 2, Int64 3]]"

definition sample_clause :: WhereClause where
  "sample_clause = \<lparr>wc_sql = ''(a = ?) AND (b IN (?, ?))'', wc_params = [Int64 1, Int64 2, Int64 3], wc_rewrite = True\<rparr>"

lemma sample_clause_built: "build sample_cond = Inr sample_clause"
  by code_simp

lemma sample_table_plain: "plain_table sample_table"
  by (simp add: plain_table_def sample_table_def check_columns_def)

definition sample_options :: SelectOptions where
  "sample_options = \<lparr>so_select_expr = [], so_where = Some sample_clause, so_group_by = [''name''],
     so_having = None, so_order_by = [], so_limit = Some 5, so_offset = None\<rparr>"


text \<open>The assignments of an update.\<close>

definition set_tokens :: "string list \<Rightarrow> Value list \<Rightarrow> token list" where
  "set_tokens cs vs = sep_tokens (chars '', '') (map2 (\<lambda>c v. chars (c @ '' = '') @ [Inr v]) cs vs)"

lemma set_list_binds:
  assumes "list_all plain cs" "length cs = length vs"
  shows "binds b 1 (set_list b cs) vs (set_tokens cs vs)"
proof -
  let ?us = "map (\<lambda>c. c @ '' = '') cs"
  have "map (\<lambda>(u, i). u @ placeholder b (1 + i)) (zip ?us [0..<length ?us]) =
      map (\<lambda>i. cs ! i @ '' = '' @ placeholder b (i + 1)) [0..<length cs]"
    by (rule nth_equalityI) simp_all
  moreover have "map2 (\<lambda>u v. chars u @ [Inr v]) ?us vs = map2 (\<lambda>c v. chars (c @ '' = '') @ [Inr v]) cs vs"
    by (simp add: zip_map1 split_beta comp_def)
  moreover have "plain u" if "u \<in> set ?us" for u
    using that assms(1) by (auto simp: list_all_iff plain_append)
  ultimately show ?thesis
    using orm.bnd_items[of ?us vs 1 b] assms(2) by (simp add: set_list_def set_tokens_def)
qed

text \<open>An update whose condition was built with the where_ functions assigns
  each value to its column and compares with the values of the condition, in
  every back end: the numbering of the condition continues that of the
  assignments.\<close>

theorem update_binds_values:
  assumes "plain_table table" "list_all plain cs" "cs \<noteq> []" "length vs = length cs"
    and "build e = Inr w" "plain_cond e" "cond_tokens e \<noteq> []"
  shows "\<exists>st. update_where_statement b table cs vs w allow = Inr st \<and> bound_statement b st = Some
    (chars (''UPDATE '' @ tm_table table @ '' SET '') @ set_tokens cs vs @ chars '' WHERE '' @ cond_tokens e)"
proof -
  have m: "clause_means w (cond_tokens e)" by (rule build_means(1)[OF assms(5,6)])
  obtain t where t: "render_where_clause w b (length cs + 1) = Inr t"
    "binds b (length cs + 1) t (wc_params w) (cond_tokens e)" using render_binds[OF m, of "length cs + 1"] by auto
  have "binds b 1 ((''UPDATE '' @ tm_table table @ '' SET '') @ set_list b cs) vs
      (chars (''UPDATE '' @ tm_table table @ '' SET '') @ set_tokens cs vs)"
    using assms by (intro orm.bnd_prefix set_list_binds) (simp_all add: plain_append plain_table_def)
  moreover have "binds b (1 + length vs) ('' WHERE '' @ t) (wc_params w) (chars '' WHERE '' @ cond_tokens e)"
    using t(2) assms(4) by (intro orm.bnd_prefix) simp_all
  ultimately have "binds b 1 (((''UPDATE '' @ tm_table table @ '' SET '') @ set_list b cs) @ '' WHERE '' @ t)
      (vs @ wc_params w)
      ((chars (''UPDATE '' @ tm_table table @ '' SET '') @ set_tokens cs vs) @ chars '' WHERE '' @ cond_tokens e)"
    by (rule binds_append) (simp add: no_digit_first_def is_digit_def ord_def)
  from binds_bound[OF this] show ?thesis
    using t(1) assms clause_empty[OF m]
    by (simp add: update_where_statement_def plain_table_def check_set_def)
qed

theorem update_binds_values_witness:
  "\<exists>st. update_where_statement PostgreSQL sample_table [''name''] [Text ''x''] sample_clause False = Inr st \<and>
     bound_statement PostgreSQL st = Some
       (chars ''UPDATE t SET name = '' @ [Inr (Text ''x'')] @ chars '' WHERE (a = '' @ [Inr (Int64 1)] @
        chars '') AND (b IN ('' @ [Inr (Int64 2)] @ chars '', '' @ [Inr (Int64 3)] @ chars ''))'')"
proof -
  have "cond_tokens sample_cond = chars ''(a = '' @ [Inr (Int64 1)] @
        chars '') AND (b IN ('' @ [Inr (Int64 2)] @ chars '', '' @ [Inr (Int64 3)] @ chars ''))''" by code_simp
  moreover have "plain_cond sample_cond" by (simp add: sample_cond_def)
  ultimately show ?thesis
    using update_binds_values[OF sample_table_plain _ _ _ sample_clause_built, of "[''name'']" "[Text ''x'']" PostgreSQL False]
    by (simp add: set_tokens_def sample_table_def)
qed

text \<open>A raw clause without parameters whose text holds a question mark (an
  operator of PostgreSQL) keeps its text when the mode of where_combine
  becomes the rewriting one, so the combined clause is refused although each
  part is valid.\<close>

theorem raw_clause_miscombined:
  "let raw = where_raw ''tags ? 1'' [] False
   in validate_where_clause raw = Inr () \<and>
      (case where_eq ''id'' v of
         Inl _ \<Rightarrow> False
       | Inr eq \<Rightarrow> validate_where_clause eq = Inr () \<and>
           (case where_and [raw, eq] of
              Inl _ \<Rightarrow> False
            | Inr w \<Rightarrow> render_where_clause w b 1 =
                Inl (orm_error ''where clause placeholder count mismatch'')))"
  by (simp add: where_raw_def where_eq_def where_binary_def where_and_def where_combine_def
      validate_where_clause_def count_question_placeholders_def combine_mode_def render_where_clause_def Let_def)

end
