(* ===== verification/Codec_Stream.thy ===== *)
theory Codec_Stream
  imports Tcp_Stream
begin

text \<open>
  src/transport.cpp: CodecStream, a byte stream that passes everything it
  reads and writes on a TCP stream through a MemoryCodec, and its two kinds
  of codec, PassthroughCodec and the BearSSL codecs. The codec interface is a
  record of functions over the codec's state; a function that may throw
  returns a result. The BearSSL engine is a parameter. A codec stream is one
  built by the two-argument constructor, so it always has a codec.

  flush_ciphertext, read_some, write_all, read_until_eof and run_handshake
  loop as long as the codec or the peer keeps them busy; their fuel is the
  number of turns, and the lemmas on PassthroughCodec show which fuel is
  enough.
\<close>

section \<open>Codecs\<close>

record 'k MemoryCodec =
  start_client :: "'k \<Rightarrow> unit result \<times> 'k"
  start_server :: "'k \<Rightarrow> unit result \<times> 'k"
  handshake_complete :: "'k \<Rightarrow> bool"
  wants_input :: "'k \<Rightarrow> bool"
  has_pending_ciphertext :: "'k \<Rightarrow> bool"
  plaintext_eof :: "'k \<Rightarrow> bool"
  handshake_timeout :: "'k \<Rightarrow> nat option"
  write_plaintext :: "string \<Rightarrow> 'k \<Rightarrow> nat result \<times> 'k"
  feed_ciphertext :: "string \<Rightarrow> 'k \<Rightarrow> nat result \<times> 'k"
  read_plaintext :: "nat \<Rightarrow> 'k \<Rightarrow> string result \<times> 'k"
  read_ciphertext :: "nat \<Rightarrow> 'k \<Rightarrow> string result \<times> 'k"
  start_close :: "'k \<Rightarrow> unit result \<times> 'k"

definition copy_and_erase :: "nat \<Rightarrow> string \<Rightarrow> string \<times> string" where
  "copy_and_erase cap buffer = (let count = min (length buffer) cap in (take count buffer, drop count buffer))"

record PassthroughCodec =
  pt_incoming :: string
  pt_outgoing :: string

definition passthrough :: "PassthroughCodec MemoryCodec" where
  "passthrough = \<lparr>
     start_client = (\<lambda>k. (Inr (), k)),
     start_server = (\<lambda>k. (Inr (), k)),
     handshake_complete = (\<lambda>k. True),
     wants_input = (\<lambda>k. False),
     has_pending_ciphertext = (\<lambda>k. pt_outgoing k \<noteq> []),
     plaintext_eof = (\<lambda>k. False),
     handshake_timeout = (\<lambda>k. None),
     write_plaintext = (\<lambda>d k. (Inr (length d), k\<lparr>pt_outgoing := pt_outgoing k @ d\<rparr>)),
     feed_ciphertext = (\<lambda>d k. (Inr (length d), k\<lparr>pt_incoming := pt_incoming k @ d\<rparr>)),
     read_plaintext = (\<lambda>n k. let (d, r) = copy_and_erase n (pt_incoming k) in (Inr d, k\<lparr>pt_incoming := r\<rparr>)),
     read_ciphertext = (\<lambda>n k. let (d, r) = copy_and_erase n (pt_outgoing k) in (Inr d, k\<lparr>pt_outgoing := r\<rparr>)),
     start_close = (\<lambda>k. (Inr (), k))\<rparr>"

text \<open>
  The BearSSL engine: the five flags of br_ssl_engine_current_state, the last
  error, and for each of its four buffers the room or content and the effect
  of copying and acknowledging bytes.
\<close>

record 'e br_engine =
  br_closed :: "'e \<Rightarrow> bool"
  br_sendrec :: "'e \<Rightarrow> bool"
  br_recvrec :: "'e \<Rightarrow> bool"
  br_sendapp :: "'e \<Rightarrow> bool"
  br_recvapp :: "'e \<Rightarrow> bool"
  br_last_error :: "'e \<Rightarrow> int"
  br_sendapp_room :: "'e \<Rightarrow> nat"
  br_sendapp_put :: "string \<Rightarrow> 'e \<Rightarrow> 'e"
  br_flush :: "'e \<Rightarrow> 'e"
  br_recvrec_room :: "'e \<Rightarrow> nat"
  br_recvrec_put :: "string \<Rightarrow> 'e \<Rightarrow> 'e"
  br_recvapp_buf :: "'e \<Rightarrow> string"
  br_recvapp_ack :: "nat \<Rightarrow> 'e \<Rightarrow> 'e"
  br_sendrec_buf :: "'e \<Rightarrow> string"
  br_sendrec_ack :: "nat \<Rightarrow> 'e \<Rightarrow> 'e"
  br_close :: "'e \<Rightarrow> 'e"
  br_reset :: "'e \<Rightarrow> 'e option"
  br_timeout :: "'e \<Rightarrow> nat option"

definition tls_error :: "string \<Rightarrow> int \<Rightarrow> exn" where
  "tls_error what err =
     RuntimeError (if err \<noteq> 0 then what @ '': BearSSL error '' @ int_string err else what)"

definition ensure_ok :: "'e br_engine \<Rightarrow> 'e \<Rightarrow> unit result" where
  "ensure_ok E e =
     (if br_last_error E e \<noteq> 0 then Inl (tls_error ''BearSSL engine failed'' (br_last_error E e)) else Inr ())"

definition br_write_plaintext :: "'e br_engine \<Rightarrow> string \<Rightarrow> 'e \<Rightarrow> nat result \<times> 'e" where
  "br_write_plaintext E data e =
     (case ensure_ok E e of
        Inl x \<Rightarrow> (Inl x, e)
      | Inr _ \<Rightarrow>
          if \<not> br_sendapp E e \<or> br_sendapp_room E e = 0 then (Inr 0, e)
          else let copied = min (length data) (br_sendapp_room E e)
               in (Inr copied, br_flush E (br_sendapp_put E (take copied data) e)))"

definition br_feed_ciphertext :: "'e br_engine \<Rightarrow> string \<Rightarrow> 'e \<Rightarrow> nat result \<times> 'e" where
  "br_feed_ciphertext E data e =
     (case ensure_ok E e of
        Inl x \<Rightarrow> (Inl x, e)
      | Inr _ \<Rightarrow>
          if \<not> br_recvrec E e \<or> br_recvrec_room E e = 0 then (Inr 0, e)
          else let copied = min (length data) (br_recvrec_room E e);
                   e' = br_recvrec_put E (take copied data) e
               in (map_result (\<lambda>_. copied) (ensure_ok E e'), e'))"

definition br_read_plaintext :: "'e br_engine \<Rightarrow> nat \<Rightarrow> 'e \<Rightarrow> string result \<times> 'e" where
  "br_read_plaintext E cap e =
     (case ensure_ok E e of
        Inl x \<Rightarrow> (Inl x, e)
      | Inr _ \<Rightarrow>
          if \<not> br_recvapp E e \<or> br_recvapp_buf E e = [] then (Inr [], e)
          else let copied = min cap (length (br_recvapp_buf E e))
               in (Inr (take copied (br_recvapp_buf E e)), br_recvapp_ack E copied e))"

definition br_read_ciphertext :: "'e br_engine \<Rightarrow> nat \<Rightarrow> 'e \<Rightarrow> string result \<times> 'e" where
  "br_read_ciphertext E cap e =
     (case ensure_ok E e of
        Inl x \<Rightarrow> (Inl x, e)
      | Inr _ \<Rightarrow>
          if \<not> br_sendrec E e \<or> br_sendrec_buf E e = [] then (Inr [], e)
          else let copied = min cap (length (br_sendrec_buf E e));
                   d = take copied (br_sendrec_buf E e);
                   e' = br_sendrec_ack E copied e
               in (map_result (\<lambda>_. d) (ensure_ok E e'), e'))"

definition br_start_close :: "'e br_engine \<Rightarrow> 'e \<Rightarrow> unit result \<times> 'e" where
  "br_start_close E e =
     (case ensure_ok E e of
        Inl x \<Rightarrow> (Inl x, e)
      | Inr _ \<Rightarrow> (ensure_ok E (br_close E e), br_close E e))"

text \<open>start_client of the client codec and start_server of the server codec; the other role is refused.\<close>

definition br_start :: "'e br_engine \<Rightarrow> string \<Rightarrow> 'e \<Rightarrow> unit result \<times> 'e" where
  "br_start E what e =
     (case br_reset E e of
        None \<Rightarrow> (Inl (tls_error (what @ '' failed'') 0), e)
      | Some e' \<Rightarrow> (Inr (), e'))"

definition bearssl_codec :: "'e br_engine \<Rightarrow> bool \<Rightarrow> 'e MemoryCodec" where
  "bearssl_codec E client = \<lparr>
     start_client = (\<lambda>e. if client then br_start E ''br_ssl_client_reset'' e
        else (Inl (LogicError ''server TLS codec cannot start as client''), e)),
     start_server = (\<lambda>e. if client then (Inl (LogicError ''client TLS codec cannot start as server''), e)
        else br_start E ''br_ssl_server_reset'' e),
     handshake_complete = (\<lambda>e. br_sendapp E e \<or> br_recvapp E e),
     wants_input = br_recvrec E,
     has_pending_ciphertext = br_sendrec E,
     plaintext_eof = br_closed E,
     handshake_timeout = br_timeout E,
     write_plaintext = br_write_plaintext E,
     feed_ciphertext = br_feed_ciphertext E,
     read_plaintext = br_read_plaintext E,
     read_ciphertext = br_read_ciphertext E,
     start_close = br_start_close E\<rparr>"

section \<open>CodecStream\<close>

record 'k CodecStream =
  cs_stream :: tcp
  cs_codec :: 'k
  cs_backlog :: string
  cs_offset :: nat

definition codec_stream :: "tcp \<Rightarrow> 'k \<Rightarrow> 'k CodecStream" where
  "codec_stream stream k = \<lparr>cs_stream = stream, cs_codec = k, cs_backlog = [], cs_offset = 0\<rparr>"

definition is_open :: "'k CodecStream \<Rightarrow> bool" where
  "is_open s \<longleftrightarrow> tcp_open (cs_stream s)"

definition has_backlog :: "'k CodecStream \<Rightarrow> bool" where
  "has_backlog s \<longleftrightarrow> cs_offset s < length (cs_backlog s)"

definition compact_backlog :: "'k CodecStream \<Rightarrow> 'k CodecStream" where
  "compact_backlog s =
     (if cs_offset s = 0 then s
      else if cs_offset s \<ge> length (cs_backlog s) then s\<lparr>cs_backlog := [], cs_offset := 0\<rparr>
      else s\<lparr>cs_backlog := drop (cs_offset s) (cs_backlog s), cs_offset := 0\<rparr>)"

text \<open>
  The two feeding loops: the codec is offered what is left until it takes
  nothing; the result is an exception, or None, and what was not taken.
\<close>

function feed_loop :: "'k MemoryCodec \<Rightarrow> string \<Rightarrow> 'k \<Rightarrow> exn option \<times> string \<times> 'k" where
  "feed_loop C data k =
     (if data = [] then (None, [], k)
      else case feed_ciphertext C data k of
             (Inl e, k') \<Rightarrow> (Some e, data, k')
           | (Inr consumed, k') \<Rightarrow>
               if consumed = 0 then (None, data, k') else feed_loop C (drop consumed data) k')"
  by pat_completeness auto
termination
  by (relation "measure (\<lambda>(_, data, _). length data)") auto

declare feed_loop.simps [simp del]

definition feed_backlog :: "'k MemoryCodec \<Rightarrow> 'k CodecStream \<Rightarrow> unit result \<times> 'k CodecStream" where
  "feed_backlog C s =
     (let (err, rest, k) = feed_loop C (drop (cs_offset s) (cs_backlog s)) (cs_codec s);
          s' = s\<lparr>cs_codec := k,
                 cs_offset := (if has_backlog s then length (cs_backlog s) - length rest else cs_offset s)\<rparr>
      in case err of Some e \<Rightarrow> (Inl e, s') | None \<Rightarrow> (Inr (), compact_backlog s'))"

definition feed_bytes :: "'k MemoryCodec \<Rightarrow> string \<Rightarrow> 'k CodecStream \<Rightarrow> unit result \<times> 'k CodecStream" where
  "feed_bytes C data s =
     (if data = [] then (Inr (), s)
      else if has_backlog s then feed_backlog C (s\<lparr>cs_backlog := cs_backlog s @ data\<rparr>)
      else let (err, rest, k) = feed_loop C data (cs_codec s); s' = s\<lparr>cs_codec := k\<rparr>
           in case err of
                Some e \<Rightarrow> (Inl e, s')
              | None \<Rightarrow>
                  if rest = [] then (Inr (), s')
                  else (Inr (), s'\<lparr>cs_backlog := rest, cs_offset := 0\<rparr>))"

fun flush_ciphertext :: "nat \<Rightarrow> bool \<Rightarrow> 'k MemoryCodec \<Rightarrow> 'k CodecStream \<Rightarrow> unit result \<times> 'k CodecStream" where
  "flush_ciphertext 0 armed C s = (Inl OutOfFuel, s)"
| "flush_ciphertext (Suc n) armed C s =
     (if \<not> has_pending_ciphertext C (cs_codec s) then (Inr (), s)
      else case read_ciphertext C 4096 (cs_codec s) of
        (Inl e, k) \<Rightarrow> (Inl e, s\<lparr>cs_codec := k\<rparr>)
      | (Inr d, k) \<Rightarrow>
          if d = [] then (Inr (), s\<lparr>cs_codec := k\<rparr>)
          else case write_all armed d (cs_stream s) of
            (Inl e, t) \<Rightarrow> (Inl e, s\<lparr>cs_codec := k, cs_stream := t\<rparr>)
          | (Inr _, t) \<Rightarrow> flush_ciphertext n armed C (s\<lparr>cs_codec := k, cs_stream := t\<rparr>))"

text \<open>flush_ciphertext, then feed_ciphertext_backlog.\<close>

definition flush_and_feed :: "nat \<Rightarrow> bool \<Rightarrow> 'k MemoryCodec \<Rightarrow> 'k CodecStream \<Rightarrow> unit result \<times> 'k CodecStream" where
  "flush_and_feed fuel armed C s =
     (case flush_ciphertext fuel armed C s of
        (Inl e, s1) \<Rightarrow> (Inl e, s1)
      | (Inr _, s1) \<Rightarrow> feed_backlog C s1)"

text \<open>What read_some tries first in each place: ready plaintext, or the end; None to go on.\<close>

definition try_plaintext :: "'k MemoryCodec \<Rightarrow> nat \<Rightarrow> 'k CodecStream \<Rightarrow> string result option \<times> 'k CodecStream" where
  "try_plaintext C cap s =
     (case read_plaintext C cap (cs_codec s) of
        (Inl e, k) \<Rightarrow> (Some (Inl e), s\<lparr>cs_codec := k\<rparr>)
      | (Inr d, k) \<Rightarrow>
          if d \<noteq> [] then (Some (Inr d), s\<lparr>cs_codec := k\<rparr>)
          else if plaintext_eof C k then (Some (Inr []), s\<lparr>cs_codec := k\<rparr>)
          else (None, s\<lparr>cs_codec := k\<rparr>))"

fun read_loop :: "nat \<Rightarrow> bool \<Rightarrow> 'k MemoryCodec \<Rightarrow> nat \<Rightarrow> 'k CodecStream \<Rightarrow> string result \<times> 'k CodecStream" where
  "read_loop 0 armed C cap s = (Inl OutOfFuel, s)"
| "read_loop (Suc n) armed C cap s =
     (case flush_and_feed (Suc n) armed C s of
        (Inl e, s1) \<Rightarrow> (Inl e, s1)
      | (Inr _, s1) \<Rightarrow>
          (case try_plaintext C cap s1 of
             (Some r, s2) \<Rightarrow> (r, s2)
           | (None, s2) \<Rightarrow>
               if has_backlog s2
               then (Inl (RuntimeError ''corouv::transport::CodecStream ciphertext backlog stalled''), s2)
               else
                 (case read_some armed 4096 (cs_stream s2) of
                    (Inl e, t) \<Rightarrow> (Inl e, s2\<lparr>cs_stream := t\<rparr>)
                  | (Inr d, t) \<Rightarrow>
                      if d = [] then (Inr [], s2\<lparr>cs_stream := t\<rparr>)
                      else
                        (case feed_bytes C d (s2\<lparr>cs_stream := t\<rparr>) of
                           (Inl e, s3) \<Rightarrow> (Inl e, s3)
                         | (Inr _, s3) \<Rightarrow>
                             (case try_plaintext C cap s3 of
                                (Some r, s4) \<Rightarrow> (r, s4)
                              | (None, s4) \<Rightarrow> read_loop n armed C cap s4)))))"

abbreviation stream_closed :: exn where
  "stream_closed \<equiv> LogicError ''corouv::transport::CodecStream is closed''"

definition codec_read_some :: "nat \<Rightarrow> bool \<Rightarrow> 'k MemoryCodec \<Rightarrow> nat \<Rightarrow> 'k CodecStream \<Rightarrow> string result \<times> 'k CodecStream" where
  "codec_read_some fuel armed C cap s =
     (if \<not> is_open s then (Inl stream_closed, s)
      else if cap = 0 then (Inr [], s)
      else case feed_backlog C s of
             (Inl e, s1) \<Rightarrow> (Inl e, s1)
           | (Inr _, s1) \<Rightarrow>
               (case try_plaintext C cap s1 of
                  (Some r, s2) \<Rightarrow> (r, s2)
                | (None, s2) \<Rightarrow> read_loop fuel armed C cap s2))"

fun write_loop :: "nat \<Rightarrow> bool \<Rightarrow> 'k MemoryCodec \<Rightarrow> string \<Rightarrow> 'k CodecStream \<Rightarrow> unit result \<times> 'k CodecStream" where
  "write_loop 0 armed C data s = (Inl OutOfFuel, s)"
| "write_loop (Suc n) armed C data s =
     (if data = [] then (Inr (), s)
      else case feed_backlog C s of
        (Inl e, s1) \<Rightarrow> (Inl e, s1)
      | (Inr _, s1) \<Rightarrow>
          (case write_plaintext C data (cs_codec s1) of
             (Inl e, k) \<Rightarrow> (Inl e, s1\<lparr>cs_codec := k\<rparr>)
           | (Inr consumed, k) \<Rightarrow>
               (case flush_and_feed (Suc n) armed C (s1\<lparr>cs_codec := k\<rparr>) of
                  (Inl e, s2) \<Rightarrow> (Inl e, s2)
                | (Inr _, s2) \<Rightarrow>
                    (let rest = drop consumed data
                     in if rest = [] then (Inr (), s2)
                        else if plaintext_eof C (cs_codec s2)
                        then (Inl (RuntimeError ''corouv::transport::CodecStream write on closed TLS session''), s2)
                        else if \<not> wants_input C (cs_codec s2) then
                          (if has_pending_ciphertext C (cs_codec s2) then write_loop n armed C rest s2
                           else (Inl (RuntimeError ''corouv::transport::CodecStream write stalled''), s2))
                        else if has_backlog s2
                        then (Inl (RuntimeError ''corouv::transport::CodecStream write backlog stalled''), s2)
                        else
                          (case read_some armed 4096 (cs_stream s2) of
                             (Inl e, t) \<Rightarrow> (Inl e, s2\<lparr>cs_stream := t\<rparr>)
                           | (Inr d, t) \<Rightarrow>
                               if d = []
                               then (Inl (RuntimeError ''corouv::transport::CodecStream write hit eof''), s2\<lparr>cs_stream := t\<rparr>)
                               else
                                 (case feed_bytes C d (s2\<lparr>cs_stream := t\<rparr>) of
                                    (Inl e, s3) \<Rightarrow> (Inl e, s3)
                                  | (Inr _, s3) \<Rightarrow> write_loop n armed C rest s3))))))"

definition codec_write_all :: "nat \<Rightarrow> bool \<Rightarrow> 'k MemoryCodec \<Rightarrow> string \<Rightarrow> 'k CodecStream \<Rightarrow> unit result \<times> 'k CodecStream" where
  "codec_write_all fuel armed C data s =
     (if \<not> is_open s then (Inl stream_closed, s)
      else case write_loop fuel armed C data s of
             (Inl e, s1) \<Rightarrow> (Inl e, s1)
           | (Inr _, s1) \<Rightarrow> flush_ciphertext fuel armed C s1)"

fun codec_eof_loop :: "nat \<Rightarrow> bool \<Rightarrow> 'k MemoryCodec \<Rightarrow> nat \<Rightarrow> string \<Rightarrow> 'k CodecStream \<Rightarrow> string result \<times> 'k CodecStream" where
  "codec_eof_loop 0 armed C max_bytes out s = (Inl OutOfFuel, s)"
| "codec_eof_loop (Suc n) armed C max_bytes out s =
     (case codec_read_some (Suc n) armed C 4096 s of
        (Inl e, s1) \<Rightarrow> (Inl e, s1)
      | (Inr d, s1) \<Rightarrow>
          if d = [] then (Inr out, s1)
          else if length out + length d > max_bytes
          then (Inl (RuntimeError ''corouv::transport::CodecStream read_until_eof exceeded max_bytes''), s1)
          else codec_eof_loop n armed C max_bytes (out @ d) s1)"

definition codec_read_until_eof :: "nat \<Rightarrow> bool \<Rightarrow> 'k MemoryCodec \<Rightarrow> nat \<Rightarrow> 'k CodecStream \<Rightarrow> string result \<times> 'k CodecStream" where
  "codec_read_until_eof fuel armed C max_bytes s = codec_eof_loop fuel armed C max_bytes [] s"

text \<open>
  run_handshake. late says, turn by turn, whether the deadline has passed when
  the clock is read; a read under a deadline runs inside with_timeout.
\<close>

abbreviation handshake_timed_out :: exn where
  "handshake_timed_out \<equiv> RuntimeError ''corouv::transport handshake timeout''"

definition handshake_read :: "bool \<Rightarrow> bool \<Rightarrow> bool \<Rightarrow> tcp \<Rightarrow> string result \<times> tcp" where
  "handshake_read armed deadline late t =
     (if \<not> deadline then read_some armed 4096 t
      else if late then (Inl handshake_timed_out, t)
      else case read_some True 4096 t of
             (Inl TimeoutError, t') \<Rightarrow> (Inl handshake_timed_out, t')
           | r \<Rightarrow> r)"

fun handshake_loop :: "nat \<Rightarrow> bool \<Rightarrow> bool \<Rightarrow> bool list \<Rightarrow> 'k MemoryCodec \<Rightarrow> 'k CodecStream \<Rightarrow> unit result \<times> 'k CodecStream" where
  "handshake_loop 0 armed deadline late C s = (Inl OutOfFuel, s)"
| "handshake_loop (Suc n) armed deadline late C s =
     (if handshake_complete C (cs_codec s) then (Inr (), s)
      else case flush_and_feed (Suc n) armed C s of
        (Inl e, s1) \<Rightarrow> (Inl e, s1)
      | (Inr _, s1) \<Rightarrow>
          if handshake_complete C (cs_codec s1) then (Inr (), s1)
          else if \<not> wants_input C (cs_codec s1) then
            (if \<not> has_pending_ciphertext C (cs_codec s1)
             then (Inl (RuntimeError ''corouv::transport handshake stalled''), s1)
             else handshake_loop n armed deadline late C s1)
          else
            (case handshake_read armed deadline (late \<noteq> [] \<and> hd late) (cs_stream s1) of
               (Inl e, t) \<Rightarrow> (Inl e, s1\<lparr>cs_stream := t\<rparr>)
             | (Inr d, t) \<Rightarrow>
                 if d = [] then (Inl (RuntimeError ''corouv::transport handshake hit eof''), s1\<lparr>cs_stream := t\<rparr>)
                 else
                   (case feed_bytes C d (s1\<lparr>cs_stream := t\<rparr>) of
                      (Inl e, s2) \<Rightarrow> (Inl e, s2)
                    | (Inr _, s2) \<Rightarrow> handshake_loop n armed deadline (tl late) C s2)))"

definition run_handshake :: "nat \<Rightarrow> bool \<Rightarrow> bool list \<Rightarrow> 'k MemoryCodec \<Rightarrow> bool \<Rightarrow> 'k CodecStream \<Rightarrow> unit result \<times> 'k CodecStream" where
  "run_handshake fuel armed late C client s =
     (case (if client then start_client C else start_server C) (cs_codec s) of
        (Inl e, k) \<Rightarrow> (Inl e, s\<lparr>cs_codec := k\<rparr>)
      | (Inr _, k) \<Rightarrow>
          (case handshake_loop fuel armed (handshake_timeout C k \<noteq> None) late C (s\<lparr>cs_codec := k\<rparr>) of
             (Inl e, s1) \<Rightarrow> (Inl e, s1)
           | (Inr _, s1) \<Rightarrow> flush_and_feed fuel armed C s1))"

text \<open>close_notify up to the shutdown of the sending side, which the TCP model does not track.\<close>

definition close_notify :: "nat \<Rightarrow> bool \<Rightarrow> 'k MemoryCodec \<Rightarrow> 'k CodecStream \<Rightarrow> unit result \<times> 'k CodecStream" where
  "close_notify fuel armed C s =
     (if \<not> is_open s then (Inr (), s)
      else case start_close C (cs_codec s) of
             (Inl e, k) \<Rightarrow> (Inl e, s\<lparr>cs_codec := k\<rparr>)
           | (Inr _, k) \<Rightarrow> flush_ciphertext fuel armed C (s\<lparr>cs_codec := k\<rparr>))"

definition codec_close :: "'k CodecStream \<Rightarrow> 'k CodecStream" where
  "codec_close s = s\<lparr>cs_stream := tcp_close (cs_stream s)\<rparr>"

section \<open>Reading\<close>

lemma same_reads_incoming: "same_reads s s' \<Longrightarrow> incoming s' = incoming s \<and> tcp_open s' = tcp_open s"
  by (cases s, cases s') (simp add: same_reads_def incoming_def)

lemma feed_loop_suffix:
  "feed_loop C data k = (err, rest, k') \<Longrightarrow> rest = drop (length data - length rest) data \<and> length rest \<le> length data"
proof (induction C data k rule: feed_loop.induct)
  case (1 C data k)
  show ?case
  proof (cases "\<exists>n k1. data \<noteq> [] \<and> feed_ciphertext C data k = (Inr n, k1) \<and> n \<noteq> 0")
    case True
    then obtain n k1 where n: "data \<noteq> []" "feed_ciphertext C data k = (Inr n, k1)" "n \<noteq> 0" by blast
    with 1(2) have "feed_loop C (drop n data) k1 = (err, rest, k')" by (simp add: feed_loop.simps[of C data])
    from 1(1)[OF n(1) n(2)[symmetric] refl n(3) this]
    have r: "rest = drop (length (drop n data) - length rest) (drop n data)" "length rest \<le> length (drop n data)"
      by simp_all
    then have "length rest \<le> length data" by simp
    moreover have "rest = drop (length data - length rest) data"
      using r by (cases "n \<le> length data") (simp_all add: add.commute)
    ultimately show ?thesis by simp
  next
    case False
    then show ?thesis using 1(2)
      by (subst (asm) feed_loop.simps) (auto split: if_splits prod.splits sum.splits)
  qed
qed

text \<open>The ciphertext a stream still holds, and what a CodecStream operation that reads nothing keeps.\<close>

definition backlog_view :: "'k CodecStream \<Rightarrow> string" where
  "backlog_view s = drop (cs_offset s) (cs_backlog s)"

lemma has_backlog_view: "has_backlog s \<longleftrightarrow> backlog_view s \<noteq> []"
  by (simp add: has_backlog_def backlog_view_def not_le)

lemma compact_backlog_simps [simp]:
  "backlog_view (compact_backlog s) = backlog_view s" "cs_codec (compact_backlog s) = cs_codec s"
  "cs_stream (compact_backlog s) = cs_stream s"
  by (auto simp: compact_backlog_def backlog_view_def)

lemma feed_backlog_ok:
  assumes "feed_backlog C s = (Inr u, s')"
  shows "\<exists>rest. feed_loop C (backlog_view s) (cs_codec s) = (None, rest, cs_codec s') \<and>
    backlog_view s' = rest \<and> cs_stream s' = cs_stream s"
proof -
  obtain err rest k where l: "feed_loop C (backlog_view s) (cs_codec s) = (err, rest, k)" by (metis prod_cases3)
  note sf = feed_loop_suffix[OF l]
  have e: "err = None" using assms l by (auto simp: feed_backlog_def backlog_view_def Let_def split: option.splits)
  show ?thesis
  proof (cases "has_backlog s")
    case True
    then have "drop (length (cs_backlog s) - length rest) (cs_backlog s) = rest"
    proof -
      have "length (cs_backlog s) - (cs_offset s + length rest) + cs_offset s = length (cs_backlog s) - length rest"
        using conjunct2[OF sf] True unfolding backlog_view_def has_backlog_def length_drop by linarith
      then show ?thesis using sf by (simp add: backlog_view_def)
    qed
    then show ?thesis using assms l e True
      by (auto simp: feed_backlog_def backlog_view_def[of s] Let_def) (simp add: backlog_view_def)
  next
    case False
    then have "rest = []" "backlog_view s = []" using sf by (auto simp: has_backlog_view)
    then show ?thesis using assms l e False
      by (auto simp: feed_backlog_def backlog_view_def[of s] Let_def) (simp add: backlog_view_def)
  qed
qed

text \<open>
  What CodecStream relies on in a codec when it reads: decoded k c is the
  plaintext still to come when c is all the ciphertext still to come. Taking
  ciphertext and sending one's own keep it, reading takes its front, a read
  that finds nothing leaves nothing that needs no further ciphertext, and at
  the end of the plaintext nothing is to come.
\<close>

locale stream_codec =
  fixes C :: "'k MemoryCodec" and decoded :: "'k \<Rightarrow> string \<Rightarrow> string"
  assumes feed_front: "feed_ciphertext C c k = (Inr n, k') \<Longrightarrow> c \<noteq> [] \<Longrightarrow> decoded k (c @ f) = decoded k' (drop n c @ f)"
    and read_front: "read_plaintext C cap k = (Inr d, k') \<Longrightarrow> decoded k f = d @ decoded k' f"
    and read_cap: "read_plaintext C cap k = (Inr d, k') \<Longrightarrow> length d \<le> cap"
    and read_none: "read_plaintext C cap k = (Inr [], k') \<Longrightarrow> 0 < cap \<Longrightarrow> decoded k' [] = []"
    and eof_none: "plaintext_eof C k \<Longrightarrow> decoded k f = []"
    and cipher_same: "read_ciphertext C cap k = (Inr d, k') \<Longrightarrow> decoded k' f = decoded k f"
begin

definition seen :: "'k CodecStream \<Rightarrow> string \<Rightarrow> string" where
  "seen s f = decoded (cs_codec s) (backlog_view s @ f)"

definition plain_todo :: "'k CodecStream \<Rightarrow> string" where
  "plain_todo s = seen s (incoming (cs_stream s))"

lemma feed_loop_decoded: "feed_loop C c k = (None, rest, k') \<Longrightarrow> decoded k (c @ f) = decoded k' (rest @ f)"
proof (induction "length c" arbitrary: c k rule: less_induct)
  case less
  show ?case
  proof (cases "c = []")
    case True
    then show ?thesis using less.prems by (simp add: feed_loop.simps)
  next
    case False
    then obtain n k1 where n: "feed_ciphertext C c k = (Inr n, k1)"
      and r: "(if n = 0 then (None, c, k1) else feed_loop C (drop n c) k1) = (None, rest, k')"
      using less.prems by (subst (asm) feed_loop.simps) (auto split: prod.splits sum.splits)
    have "decoded k (c @ f) = decoded k1 (drop n c @ f)" by (rule feed_front[OF n False])
    then show ?thesis using r less.hyps[of "drop n c" k1] False by (auto split: if_splits)
  qed
qed

lemma feed_backlog_seen:
  assumes "feed_backlog C s = (Inr u, s')"
  shows "seen s' f = seen s f \<and> cs_stream s' = cs_stream s"
  using feed_backlog_ok[OF assms] feed_loop_decoded by (auto simp: seen_def)

lemma feed_bytes_seen:
  assumes "feed_bytes C data s = (Inr u, s')"
  shows "seen s' f = seen s (data @ f) \<and> cs_stream s' = cs_stream s"
proof (cases "data = [] \<or> has_backlog s")
  case True
  show ?thesis
  proof (cases "data = []")
    case False
    with True assms have fb: "feed_backlog C (s\<lparr>cs_backlog := cs_backlog s @ data\<rparr>) = (Inr u, s')"
      by (simp add: feed_bytes_def)
    have "backlog_view (s\<lparr>cs_backlog := cs_backlog s @ data\<rparr>) = backlog_view s @ data"
      using True False by (simp add: backlog_view_def has_backlog_def)
    then show ?thesis using feed_backlog_seen[OF fb, of f] by (simp add: seen_def)
  qed (use assms in \<open>simp add: feed_bytes_def\<close>)
next
  case False
  then have nb: "backlog_view s = []" by (simp add: has_backlog_view)
  obtain rest k where l: "feed_loop C data (cs_codec s) = (None, rest, k)"
    and s': "s' = (if rest = [] then s\<lparr>cs_codec := k\<rparr> else s\<lparr>cs_codec := k, cs_backlog := rest, cs_offset := 0\<rparr>)"
    using assms False by (auto simp: feed_bytes_def Let_def split: prod.splits option.splits if_splits)
  have "backlog_view s' = rest" using s' nb by (auto simp: backlog_view_def)
  then show ?thesis using feed_loop_decoded[OF l] s' nb by (simp add: seen_def)
qed

lemma flush_seen:
  "flush_ciphertext n armed C s = (Inr u, s') \<Longrightarrow>
   seen s' f = seen s f \<and> incoming (cs_stream s') = incoming (cs_stream s) \<and> tcp_open (cs_stream s') = tcp_open (cs_stream s)"
proof (induction n arbitrary: s)
  case (Suc n)
  show ?case
  proof (cases "has_pending_ciphertext C (cs_codec s)")
    case True
    obtain r k where rc: "read_ciphertext C 4096 (cs_codec s) = (r, k)" by fastforce
    obtain d where r: "r = Inr d" using Suc.prems True rc by (cases r) auto
    note same = cipher_same[OF rc[unfolded r]]
    show ?thesis
    proof (cases "d = []")
      case True
      then show ?thesis using Suc.prems \<open>has_pending_ciphertext C (cs_codec s)\<close> rc r same
        by (auto simp: seen_def backlog_view_def)
    next
      case False
      obtain q t where w: "write_all armed d (cs_stream s) = (q, t)" by fastforce
      then have "\<exists>v. q = Inr v" using Suc.prems True rc r False by (cases q) auto
      then have fl: "flush_ciphertext n armed C (s\<lparr>cs_codec := k, cs_stream := t\<rparr>) = (Inr u, s')"
        using Suc.prems True rc r False w by auto
      have "incoming t = incoming (cs_stream s)" "tcp_open t = tcp_open (cs_stream s)"
        using same_reads_incoming[OF write_all_same_reads[OF w]] by simp_all
      then show ?thesis using Suc.IH[OF fl] same by (simp add: seen_def backlog_view_def)
    qed
  qed (use Suc.prems in simp)
qed simp

lemma flush_and_feed_seen:
  assumes "flush_and_feed n armed C s = (Inr u, s')"
  shows "seen s' f = seen s f \<and> incoming (cs_stream s') = incoming (cs_stream s)"
proof -
  obtain v s1 where "flush_ciphertext n armed C s = (Inr v, s1)" "feed_backlog C s1 = (Inr u, s')"
    using assms by (auto simp: flush_and_feed_def split: prod.splits sum.splits)
  then show ?thesis using flush_seen feed_backlog_seen by metis
qed

lemma try_plaintext_todo:
  assumes "try_plaintext C cap s = (r, s')" "0 < cap"
  shows "cs_stream s' = cs_stream s" "r = None \<Longrightarrow> seen s' f = seen s f \<and> (backlog_view s' = [] \<longrightarrow> seen s' [] = [])"
    "r = Some (Inr d) \<Longrightarrow> plain_todo s = d @ plain_todo s' \<and> length d \<le> cap \<and> (d = [] \<longrightarrow> plain_todo s = [])"
proof -
  obtain q k where rp: "read_plaintext C cap (cs_codec s) = (q, k)" by fastforce
  then show "cs_stream s' = cs_stream s"
    using assms by (auto simp: try_plaintext_def split: sum.splits if_splits)
  show "seen s' f = seen s f \<and> (backlog_view s' = [] \<longrightarrow> seen s' [] = [])" if "r = None"
  proof -
    have "q = Inr []" "s' = s\<lparr>cs_codec := k\<rparr>"
      using assms rp that by (auto simp: try_plaintext_def split: sum.splits if_splits)
    then show ?thesis using read_front[of cap "cs_codec s" "[]" k] read_none[of cap "cs_codec s" k] rp assms(2)
      by (simp add: seen_def backlog_view_def)
  qed
  show "plain_todo s = d @ plain_todo s' \<and> length d \<le> cap \<and> (d = [] \<longrightarrow> plain_todo s = [])" if "r = Some (Inr d)"
  proof -
    have "q = Inr d" "s' = s\<lparr>cs_codec := k\<rparr>" "d = [] \<Longrightarrow> plaintext_eof C k"
      using assms rp that by (auto simp: try_plaintext_def split: sum.splits if_splits)
    then show ?thesis using read_front[of cap "cs_codec s" d k] read_cap[of cap "cs_codec s" d k] rp eof_none[of k]
      by (auto simp: plain_todo_def seen_def backlog_view_def)
  qed
qed

definition delivered :: "nat \<Rightarrow> 'k CodecStream \<Rightarrow> string \<Rightarrow> 'k CodecStream \<Rightarrow> bool" where
  "delivered cap s d s' \<longleftrightarrow>
     plain_todo s = d @ plain_todo s' \<and> length d \<le> cap \<and> (d = [] \<longrightarrow> plain_todo s = [])"

lemma try_delivered:
  "try_plaintext C cap s = (Some (Inr d), s') \<Longrightarrow> 0 < cap \<Longrightarrow> delivered cap s d s'"
  unfolding delivered_def by (rule try_plaintext_todo(3)) simp_all

lemma delivered_eq: "plain_todo s1 = plain_todo s \<Longrightarrow> delivered cap s1 d s' \<Longrightarrow> delivered cap s d s'"
  unfolding delivered_def by metis

lemma read_loop_delivers:
  "read_loop n armed C cap s = (Inr d, s') \<Longrightarrow> 0 < cap \<Longrightarrow> delivered cap s d s'"
proof (induction n arbitrary: s)
  case (Suc n)
  obtain v s1 where s1: "flush_and_feed (Suc n) armed C s = (Inr v, s1)"
    using Suc.prems by (auto split: prod.splits sum.splits)
  then have e1: "plain_todo s1 = plain_todo s" using flush_and_feed_seen by (simp add: plain_todo_def)
  obtain r s2 where s2: "try_plaintext C cap s1 = (r, s2)" by fastforce
  show ?case
  proof (cases r)
    case (Some q)
    with Suc.prems s1 s2 have "q = Inr d" "s2 = s'" by auto
    then show ?thesis using try_delivered s2 Some Suc.prems(2) delivered_eq[OF e1] by simp
  next
    case None
    note t2 = try_plaintext_todo(1,2)[OF s2 Suc.prems(2)]
    have e2: "plain_todo s2 = plain_todo s" using t2 None e1 by (simp add: plain_todo_def)
    have nb: "\<not> has_backlog s2" using Suc.prems s1 s2 None by (auto split: if_splits)
    then have end2: "seen s2 [] = []" using t2(2)[OF None, of "[]"] by (metis has_backlog_view)
    obtain d0 t where rd: "read_some armed 4096 (cs_stream s2) = (Inr d0, t)"
      using Suc.prems s1 s2 None nb by (auto split: prod.splits sum.splits)
    note front = tcp.recv_front[OF rd]
    show ?thesis
    proof (cases "d0 = []")
      case True
      then have "incoming (cs_stream s2) = []" using tcp.recv_end[of armed 4096 "cs_stream s2" t] rd by simp
      moreover have "d = []" "s' = s2\<lparr>cs_stream := t\<rparr>" using Suc.prems s1 s2 None nb rd True by auto
      ultimately show ?thesis using end2 e2 front True
        by (simp add: delivered_def plain_todo_def seen_def backlog_view_def)
    next
      case False
      obtain v3 s3 where s3: "feed_bytes C d0 (s2\<lparr>cs_stream := t\<rparr>) = (Inr v3, s3)"
        using Suc.prems s1 s2 None nb rd False by (auto split: prod.splits sum.splits)
      have "plain_todo s3 = plain_todo s2"
        using feed_bytes_seen[OF s3] front by (simp add: plain_todo_def) (simp add: seen_def backlog_view_def)
      with e2 have e3: "plain_todo s3 = plain_todo s" by simp
      obtain r4 s4 where s4: "try_plaintext C cap s3 = (r4, s4)" by fastforce
      show ?thesis
      proof (cases r4)
        case (Some q)
        with Suc.prems s1 s2 None nb rd False s3 s4 have "q = Inr d" "s4 = s'" by auto
        then show ?thesis using try_delivered s4 Some Suc.prems(2) delivered_eq[OF e3] by simp
      next
        case n4: None
        then have "read_loop n armed C cap s4 = (Inr d, s')"
          using Suc.prems s1 s2 None nb rd False s3 s4 by auto
        moreover have "plain_todo s4 = plain_todo s"
          using try_plaintext_todo(1,2)[OF s4 Suc.prems(2)] n4 e3 by (simp add: plain_todo_def)
        ultimately show ?thesis using Suc.IH Suc.prems(2) delivered_eq by blast
      qed
    qed
  qed
qed simp

lemma codec_read_delivers:
  assumes "codec_read_some fuel armed C cap s = (Inr d, s')" "0 < cap"
  shows "delivered cap s d s'"
proof -
  obtain v s1 where s1: "feed_backlog C s = (Inr v, s1)"
    using assms by (auto simp: codec_read_some_def split: if_splits prod.splits sum.splits)
  then have e1: "plain_todo s1 = plain_todo s" using feed_backlog_seen by (simp add: plain_todo_def)
  obtain r s2 where s2: "try_plaintext C cap s1 = (r, s2)" by fastforce
  show ?thesis
  proof (cases r)
    case (Some q)
    with assms s1 s2 have "q = Inr d" "s2 = s'" by (auto simp: codec_read_some_def split: if_splits)
    then show ?thesis using try_delivered s2 Some assms(2) delivered_eq[OF e1] by simp
  next
    case None
    with assms s1 s2 have "read_loop fuel armed C cap s2 = (Inr d, s')"
      by (auto simp: codec_read_some_def split: if_splits)
    moreover have "plain_todo s2 = plain_todo s"
      using try_plaintext_todo(1,2)[OF s2 assms(2)] None e1 by (simp add: plain_todo_def)
    ultimately show ?thesis using read_loop_delivers assms(2) delivered_eq by blast
  qed
qed

sublocale codec: byte_source "codec_read_some fuel armed C" plain_todo for fuel armed
proof unfold_locales
  fix n s d s'
  assume r: "codec_read_some fuel armed C n s = (Inr d, s')"
  have "plain_todo s = d @ plain_todo s' \<and> length d \<le> n"
  proof (cases "n = 0")
    case True
    then show ?thesis using r by (auto simp: codec_read_some_def split: if_splits)
  next
    case False
    then show ?thesis using codec_read_delivers[OF r] by (simp add: delivered_def)
  qed
  then show "plain_todo s = d @ plain_todo s'" "length d \<le> n" by simp_all
next
  show "codec_read_some fuel armed C n s = (Inr [], s') \<Longrightarrow> 0 < n \<Longrightarrow> plain_todo s = []" for n s s'
    using codec_read_delivers[of fuel armed n s "[]" s'] unfolding delivered_def by blast
qed

text \<open>Reading to the end returns a front of the plaintext, all of it unless the limit is hit.\<close>

lemma codec_eof_loop_delivers:
  "codec_eof_loop n armed C max_bytes out s = (Inr r, s') \<Longrightarrow> r = out @ plain_todo s"
proof (induction n arbitrary: out s)
  case (Suc n)
  obtain d s1 where rd: "codec_read_some (Suc n) armed C 4096 s = (Inr d, s1)"
    using Suc.prems by (auto split: prod.splits sum.splits)
  show ?case
  proof (cases "d = []")
    case True
    with Suc.prems rd codec.recv_end[of "Suc n" armed 4096 s s1] show ?thesis by simp
  next
    case False
    then have "codec_eof_loop n armed C max_bytes (out @ d) s1 = (Inr r, s')"
      using Suc.prems rd by (auto split: if_splits)
    from Suc.IH[OF this] codec.recv_front[OF rd] show ?thesis by simp
  qed
qed simp

end

section \<open>The passthrough codec\<close>

lemma copy_and_erase_append: "copy_and_erase n b = (d, r) \<Longrightarrow> b = d @ r \<and> length d \<le> n \<and> (d = [] \<longrightarrow> n = 0 \<or> b = [])"
  by (auto simp: copy_and_erase_def Let_def min_def split: if_splits)

interpretation pass: stream_codec passthrough "\<lambda>k c. pt_incoming k @ c"
proof unfold_locales
  fix cap k d k' and f :: string
  assume r: "read_plaintext passthrough cap k = (Inr d, k')"
  obtain d' r' where c: "copy_and_erase cap (pt_incoming k) = (d', r')" by fastforce
  with r have "d' = d" "pt_incoming k' = r'" by (auto simp: passthrough_def)
  with copy_and_erase_append[OF c] show "pt_incoming k @ f = d @ pt_incoming k' @ f" "length d \<le> cap" by simp_all
next
  fix cap k k'
  assume r: "read_plaintext passthrough cap k = (Inr [], k')" "0 < cap"
  obtain d' r' where c: "copy_and_erase cap (pt_incoming k) = (d', r')" by fastforce
  with r have "d' = []" "pt_incoming k' = r'" by (auto simp: passthrough_def)
  with copy_and_erase_append[OF c] r(2) show "pt_incoming k' @ [] = []" by auto
next
  fix cap k d k' and f :: string
  assume "read_ciphertext passthrough cap k = (Inr d, k')"
  then show "pt_incoming k' @ f = pt_incoming k @ f" by (auto simp: passthrough_def copy_and_erase_def Let_def)
qed (auto simp: passthrough_def)

lemma copy_and_erase_eq: "copy_and_erase n b = (take n b, drop n b)"
  by (auto simp: copy_and_erase_def Let_def min_def)

lemma pass_sel:
  "has_pending_ciphertext passthrough k \<longleftrightarrow> pt_outgoing k \<noteq> []" "plaintext_eof passthrough k \<longleftrightarrow> False"
  "read_ciphertext passthrough n k = (Inr (take n (pt_outgoing k)), k\<lparr>pt_outgoing := drop n (pt_outgoing k)\<rparr>)"
  "write_plaintext passthrough d k = (Inr (length d), k\<lparr>pt_outgoing := pt_outgoing k @ d\<rparr>)"
  by (simp_all add: passthrough_def copy_and_erase_eq)

text \<open>A passthrough stream at rest: nothing is kept back, and the TCP stream works.\<close>

definition pass_rest :: "PassthroughCodec CodecStream \<Rightarrow> bool" where
  "pass_rest s \<longleftrightarrow> clean (cs_stream s) \<and> cs_backlog s = [] \<and> cs_offset s = 0 \<and> pt_outgoing (cs_codec s) = []"

lemma pass_feed_loop: "feed_loop passthrough data k = (None, [], k\<lparr>pt_incoming := pt_incoming k @ data\<rparr>)"
  by (subst feed_loop.simps) (simp add: passthrough_def feed_loop.simps)

lemma pass_feed_backlog: "cs_backlog s = [] \<Longrightarrow> cs_offset s = 0 \<Longrightarrow> feed_backlog passthrough s = (Inr (), s)"
  by (simp add: feed_backlog_def pass_feed_loop has_backlog_def compact_backlog_def)

lemma pass_feed_bytes:
  "cs_backlog s = [] \<Longrightarrow> feed_bytes passthrough d s =
     (Inr (), s\<lparr>cs_codec := (cs_codec s)\<lparr>pt_incoming := pt_incoming (cs_codec s) @ d\<rparr>\<rparr>)"
  by (simp add: feed_bytes_def pass_feed_loop has_backlog_def)

lemma pass_try_plaintext:
  assumes "0 < cap"
  shows "try_plaintext passthrough cap s =
    (if pt_incoming (cs_codec s) = [] then (None, s)
     else (Some (Inr (take cap (pt_incoming (cs_codec s)))),
           s\<lparr>cs_codec := (cs_codec s)\<lparr>pt_incoming := drop cap (pt_incoming (cs_codec s))\<rparr>\<rparr>))"
  using assms by (auto simp: try_plaintext_def passthrough_def copy_and_erase_def Let_def min_def)

lemma pass_flush_none: "pt_outgoing (cs_codec s) = [] \<Longrightarrow> flush_ciphertext (Suc n) armed passthrough s = (Inr (), s)"
  by (simp add: pass_sel)

lemma pass_read_some:
  assumes "pass_rest s"
  shows "\<exists>d s'. codec_read_some (Suc n) armed passthrough cap s = (Inr d, s') \<and> pass_rest s'"
proof (cases "cap = 0 \<or> pt_incoming (cs_codec s) \<noteq> []")
  case True
  then show ?thesis using assms
    by (cases "cap = 0")
      (auto simp: codec_read_some_def pass_rest_def is_open_def clean_def pass_feed_backlog pass_try_plaintext)
next
  case False
  obtain d t where rd: "read_some armed 4096 (cs_stream s) = (Inr d, t)" "clean t"
    using read_some_clean assms unfolding pass_rest_def by blast
  have "flush_and_feed (Suc n) armed passthrough s = (Inr (), s)"
    using assms by (simp only: flush_and_feed_def pass_rest_def pass_flush_none pass_feed_backlog prod.case sum.case)
  moreover have "tcp_open (cs_stream s)" using assms by (simp add: pass_rest_def clean_def)
  ultimately show ?thesis using assms False rd
    by (auto simp: codec_read_some_def is_open_def pass_rest_def pass_feed_backlog pass_try_plaintext
        pass_feed_bytes has_backlog_def simp del: flush_ciphertext.simps)
qed

interpretation pass_clean: clean_source "codec_read_some (Suc n) armed passthrough" pass.plain_todo pass_rest for n armed
  by unfold_locales (rule pass_read_some)

lemma pass_eof_loop:
  "pass_rest s \<Longrightarrow> length (pass.plain_todo s) < n \<Longrightarrow> length out + length (pass.plain_todo s) \<le> max_bytes \<Longrightarrow>
   \<exists>s'. codec_eof_loop n armed passthrough max_bytes out s = (Inr (out @ pass.plain_todo s), s')"
proof (induction n arbitrary: out s)
  case (Suc n)
  obtain d s1 where r: "codec_read_some (Suc n) armed passthrough 4096 s = (Inr d, s1)" "pass_rest s1"
    using pass_read_some[OF Suc.prems(1)] by blast
  note front = pass.codec.recv_front[OF r(1)]
  show ?case
  proof (cases "d = []")
    case True
    with r pass.codec.recv_end[of "Suc n" armed 4096 s s1] show ?thesis by simp
  next
    case False
    then have "length (pass.plain_todo s1) < n" using front Suc.prems(2) by (cases d) auto
    with Suc.IH[OF r(2) this, of "out @ d"] r(1) False front Suc.prems(3) show ?thesis by simp
  qed
qed simp

text \<open>A codec stream over the passthrough codec delivers, when it is read to
  its end, exactly the bytes of the TCP stream, however they arrive; one turn
  per byte is enough.\<close>

theorem passthrough_read_exact:
  assumes "clean t" "length (incoming t) < fuel" "length (incoming t) \<le> max_bytes"
  shows "\<exists>s'. codec_read_until_eof fuel armed passthrough max_bytes
      (codec_stream t \<lparr>pt_incoming = [], pt_outgoing = []\<rparr>) = (Inr (incoming t), s')"
proof -
  let ?s = "codec_stream t \<lparr>pt_incoming = [], pt_outgoing = []\<rparr>"
  have "pass_rest ?s" using assms(1) by (simp add: pass_rest_def codec_stream_def)
  moreover have "pass.plain_todo ?s = incoming t"
    by (simp add: pass.plain_todo_def pass.seen_def codec_stream_def backlog_view_def)
  ultimately show ?thesis using pass_eof_loop[of ?s fuel "[]" max_bytes armed] assms
    by (simp add: codec_read_until_eof_def)
qed

theorem passthrough_read_exact_witness:
  "\<exists>s'. codec_read_until_eof 4 False passthrough 10
     (codec_stream (sample_tcp [UvRead ''ab'', UvRead [], UvRead ''c'', UvEof] []) \<lparr>pt_incoming = [], pt_outgoing = []\<rparr>) =
     (Inr ''abc'', s')"
  using passthrough_read_exact[of "sample_tcp [UvRead ''ab'', UvRead [], UvRead ''c'', UvEof] []" 4 10 False]
  by (simp add: sample_tcp_def clean_def incoming_def)

lemma pass_flush:
  "writable (cs_stream s) \<Longrightarrow> length (pt_outgoing (cs_codec s)) < n \<Longrightarrow>
   \<exists>t. flush_ciphertext n armed passthrough s =
       (Inr (), s\<lparr>cs_codec := (cs_codec s)\<lparr>pt_outgoing := []\<rparr>, cs_stream := t\<rparr>) \<and>
     writable t \<and> outbox t = outbox (cs_stream s) @ pt_outgoing (cs_codec s) \<and> same_reads (cs_stream s) t"
proof (induction n arbitrary: s)
  case (Suc n)
  let ?o = "pt_outgoing (cs_codec s)"
  show ?case
  proof (cases "?o = []")
    case True
    then show ?thesis using Suc.prems by (intro exI[of _ "cs_stream s"]) (simp add: pass_sel)
  next
    case False
    obtain t where w: "write_all armed (take 4096 ?o) (cs_stream s) = (Inr (), t)" "writable t"
      using write_all_ok[OF Suc.prems(1)] by blast
    let ?s1 = "s\<lparr>cs_codec := (cs_codec s)\<lparr>pt_outgoing := drop 4096 ?o\<rparr>, cs_stream := t\<rparr>"
    have fl: "flush_ciphertext (Suc n) armed passthrough s = flush_ciphertext n armed passthrough ?s1"
      using False w(1) by (simp add: pass_sel)
    have "length (pt_outgoing (cs_codec ?s1)) < n" using False Suc.prems(2) by (cases ?o) auto
    from Suc.IH[of ?s1, OF _ this] w(2) obtain t' where
      "flush_ciphertext n armed passthrough ?s1 =
         (Inr (), ?s1\<lparr>cs_codec := (cs_codec ?s1)\<lparr>pt_outgoing := []\<rparr>, cs_stream := t'\<rparr>)"
      "writable t'" "outbox t' = outbox t @ drop 4096 ?o" "same_reads t t'" by auto
    then show ?thesis using fl write_all_sound[OF w(1)] write_all_same_reads[OF w(1)]
      by (intro exI[of _ t']) (auto intro: same_reads_trans)
  qed
qed simp

lemma pass_write_loop:
  assumes "data \<noteq> []" "cs_backlog s = []" "cs_offset s = 0"
    and "flush_ciphertext (Suc m) armed passthrough
      (s\<lparr>cs_codec := (cs_codec s)\<lparr>pt_outgoing := pt_outgoing (cs_codec s) @ data\<rparr>\<rparr>) = (Inr (), s2)"
    and "cs_backlog s2 = []" "cs_offset s2 = 0"
  shows "write_loop (Suc m) armed passthrough data s = (Inr (), s2)"
proof -
  have "flush_and_feed (Suc m) armed passthrough
      (s\<lparr>cs_codec := (cs_codec s)\<lparr>pt_outgoing := pt_outgoing (cs_codec s) @ data\<rparr>\<rparr>) = (Inr (), s2)"
    unfolding flush_and_feed_def assms(4) prod.case sum.case by (rule pass_feed_backlog[OF assms(5,6)])
  then show ?thesis
    unfolding write_loop.simps(2) pass_feed_backlog[OF assms(2,3)] pass_sel prod.case sum.case
    using assms(1) by (simp only: if_False prod.case sum.case drop_all le_refl Let_def if_True simp_thms)
qed

text \<open>Write_all of a codec stream over the passthrough codec returns and
  hands exactly the given bytes to the TCP stream, after what was sent
  before.\<close>

theorem passthrough_write_exact:
  assumes "writable t" "length data < fuel"
  shows "\<exists>s'. codec_write_all fuel armed passthrough data
      (codec_stream t \<lparr>pt_incoming = b, pt_outgoing = []\<rparr>) = (Inr (), s') \<and> outbox (cs_stream s') = outbox t @ data"
proof -
  define s where "s = codec_stream t \<lparr>pt_incoming = b, pt_outgoing = []\<rparr>"
  define m where "m = fuel - 1"
  have m: "fuel = Suc m" using assms(2) by (simp add: m_def)
  have op: "is_open s" and st: "cs_stream s = t" and rest: "cs_backlog s = []" "cs_offset s = 0" "pt_outgoing (cs_codec s) = []"
    using assms(1) by (simp_all add: s_def is_open_def codec_stream_def writable_def)
  define s1 where "s1 = s\<lparr>cs_codec := (cs_codec s)\<lparr>pt_outgoing := pt_outgoing (cs_codec s) @ data\<rparr>\<rparr>"
  have s1: "cs_stream s1 = t" "pt_outgoing (cs_codec s1) = data" "cs_backlog s1 = []" "cs_offset s1 = 0"
    by (simp_all add: s1_def st rest)
  obtain t' where f: "flush_ciphertext (Suc m) armed passthrough s1 =
      (Inr (), s1\<lparr>cs_codec := (cs_codec s1)\<lparr>pt_outgoing := []\<rparr>, cs_stream := t'\<rparr>)" "outbox t' = outbox t @ data"
    using pass_flush[of s1 "Suc m" armed] assms s1 m by auto
  define s2 where "s2 = s1\<lparr>cs_codec := (cs_codec s1)\<lparr>pt_outgoing := []\<rparr>, cs_stream := t'\<rparr>"
  have w: "write_loop (Suc m) armed passthrough data s = (Inr (), if data = [] then s else s2)"
  proof (cases "data = []")
    case False
    then show ?thesis
      using pass_write_loop[OF False rest(1,2) f(1)[unfolded s1_def]] s1(3,4) by (simp add: s2_def s1_def rest)
  qed simp
  have "pt_outgoing (cs_codec (if data = [] then s else s2)) = []" by (simp add: s2_def rest)
  from pass_flush_none[OF this] have "codec_write_all fuel armed passthrough data s = (Inr (), if data = [] then s else s2)"
    using op w unfolding codec_write_all_def m by (simp only: simp_thms if_False prod.case sum.case)
  moreover have "outbox (cs_stream (if data = [] then s else s2)) = outbox t @ data"
    using f(2) st by (simp add: s2_def)
  ultimately show ?thesis unfolding s_def by blast
qed

theorem passthrough_write_exact_witness:
  "\<exists>s'. codec_write_all 6 False passthrough ''hello''
     (codec_stream (sample_tcp [] [\<lparr>try_rc = Inr 2, write_rc = None, write_status = None, write_deadline = False\<rparr>])
       \<lparr>pt_incoming = [], pt_outgoing = []\<rparr>) = (Inr (), s') \<and> outbox (cs_stream s') = ''hello''"
  using passthrough_write_exact[of "sample_tcp [] [\<lparr>try_rc = Inr 2, write_rc = None, write_status = None,
      write_deadline = False\<rparr>]" "''hello''" 6 False "[]"]
  by (simp add: sample_tcp_def writable_def good_write_def)

section \<open>The BearSSL codecs\<close>

text \<open>
  What the codecs rely on in the engine, with dec e c the application data
  still to come when c are the records still to come: records the engine
  takes without an error count as received, application data leaves in
  order, all that is decrypted is in the application buffer, a closed engine
  has nothing to come, and sending records does not touch the receiving side.
\<close>

definition engine_contract :: "'e br_engine \<Rightarrow> ('e \<Rightarrow> string \<Rightarrow> string) \<Rightarrow> bool" where
  "engine_contract E dec \<longleftrightarrow>
     (\<forall>e c f. br_recvrec E e \<and> c \<noteq> [] \<and> length c \<le> br_recvrec_room E e \<and>
        br_last_error E (br_recvrec_put E c e) = 0 \<longrightarrow> dec (br_recvrec_put E c e) f = dec e (c @ f)) \<and>
     (\<forall>e n f. br_recvapp E e \<and> n \<le> length (br_recvapp_buf E e) \<longrightarrow>
        dec e f = take n (br_recvapp_buf E e) @ dec (br_recvapp_ack E n e) f) \<and>
     (\<forall>e. \<not> br_recvapp E e \<or> br_recvapp_buf E e = [] \<longrightarrow> dec e [] = []) \<and>
     (\<forall>e f. br_closed E e \<longrightarrow> dec e f = []) \<and>
     (\<forall>e n f. br_sendrec E e \<and> n \<le> length (br_sendrec_buf E e) \<longrightarrow> dec (br_sendrec_ack E n e) f = dec e f)"

lemma ensure_ok_Inr: "ensure_ok E e = Inr u \<Longrightarrow> br_last_error E e = 0"
  by (simp add: ensure_ok_def split: if_splits)

lemma br_feed_front:
  assumes "engine_contract E dec" "br_feed_ciphertext E c e = (Inr n, e')" "c \<noteq> []"
  shows "dec e (c @ f) = dec e' (drop n c @ f)"
proof (cases "n = 0")
  case True
  then have "e' = e" using assms(2,3)
    by (auto simp: br_feed_ciphertext_def Let_def map_result_eq_Inr min_def split: sum.splits if_splits)
  then show ?thesis using True by simp
next
  case False
  let ?m = "min (length c) (br_recvrec_room E e)"
  have r: "br_recvrec E e" "n = ?m" "e' = br_recvrec_put E (take n c) e" "br_last_error E e' = 0"
    using assms(2) False
    by (auto simp: br_feed_ciphertext_def Let_def map_result_eq_Inr split: sum.splits if_splits dest: ensure_ok_Inr)
  have "take n c \<noteq> []" "length (take n c) \<le> br_recvrec_room E e" using r(2) False assms(3) by auto
  then have "dec e' (drop n c @ f) = dec e (take n c @ drop n c @ f)"
    using assms(1) r unfolding engine_contract_def by blast
  then show ?thesis by (metis append.assoc append_take_drop_id)
qed

lemma br_read_front:
  assumes "engine_contract E dec" "br_read_plaintext E cap e = (Inr d, e')"
  shows "dec e f = d @ dec e' f" "length d \<le> cap" "d = [] \<Longrightarrow> 0 < cap \<Longrightarrow> dec e' [] = []"
proof -
  let ?b = "br_recvapp_buf E e"
  have "dec e f = d @ dec e' f \<and> length d \<le> cap \<and> (d = [] \<longrightarrow> 0 < cap \<longrightarrow> dec e' [] = [])"
  proof (cases "\<not> br_recvapp E e \<or> ?b = []")
    case True
    then have "d = []" "e' = e" using assms(2) by (auto simp: br_read_plaintext_def split: sum.splits)
    then show ?thesis using assms(1) True unfolding engine_contract_def by auto
  next
    case False
    then have r: "d = take (min cap (length ?b)) ?b" "e' = br_recvapp_ack E (min cap (length ?b)) e"
      using assms(2) by (auto simp: br_read_plaintext_def Let_def split: sum.splits)
    have "dec e f = take (min cap (length ?b)) ?b @ dec (br_recvapp_ack E (min cap (length ?b)) e) f"
      using assms(1) False unfolding engine_contract_def by (metis min.cobounded2)
    then show ?thesis using r False by (auto simp: min_def split: if_splits)
  qed
  then show "dec e f = d @ dec e' f" "length d \<le> cap" "d = [] \<Longrightarrow> 0 < cap \<Longrightarrow> dec e' [] = []" by auto
qed

lemma br_cipher_same:
  assumes "engine_contract E dec" "br_read_ciphertext E cap e = (Inr d, e')"
  shows "dec e' f = dec e f"
proof (cases "\<not> br_sendrec E e \<or> br_sendrec_buf E e = []")
  case True
  then show ?thesis using assms(2) by (auto simp: br_read_ciphertext_def split: sum.splits)
next
  case False
  then have "e' = br_sendrec_ack E (min cap (length (br_sendrec_buf E e))) e"
    using assms(2) by (auto simp: br_read_ciphertext_def Let_def split: sum.splits)
  then show ?thesis using assms(1) False unfolding engine_contract_def by (metis min.cobounded2)
qed

lemma bearssl_stream_codec:
  assumes "engine_contract E dec"
  shows "stream_codec (bearssl_codec E client) dec"
proof unfold_locales
  show "plaintext_eof (bearssl_codec E client) k \<Longrightarrow> dec k f = []" for k f
    using assms by (simp add: bearssl_codec_def engine_contract_def)
qed (use br_feed_front[OF assms] br_read_front[OF assms] br_cipher_same[OF assms] in
      \<open>auto simp: bearssl_codec_def\<close>)


text \<open>An engine without encryption whose record buffer has room for three bytes.\<close>

definition sample_engine :: "PassthroughCodec br_engine" where
  "sample_engine = \<lparr>br_closed = (\<lambda>e. False), br_sendrec = (\<lambda>e. pt_outgoing e \<noteq> []),
     br_recvrec = (\<lambda>e. length (pt_incoming e) < 3), br_sendapp = (\<lambda>e. True), br_recvapp = (\<lambda>e. pt_incoming e \<noteq> []),
     br_last_error = (\<lambda>e. 0), br_sendapp_room = (\<lambda>e. 10),
     br_sendapp_put = (\<lambda>d e. e\<lparr>pt_outgoing := pt_outgoing e @ d\<rparr>), br_flush = (\<lambda>e. e),
     br_recvrec_room = (\<lambda>e. 3 - length (pt_incoming e)),
     br_recvrec_put = (\<lambda>d e. e\<lparr>pt_incoming := pt_incoming e @ d\<rparr>),
     br_recvapp_buf = pt_incoming, br_recvapp_ack = (\<lambda>n e. e\<lparr>pt_incoming := drop n (pt_incoming e)\<rparr>),
     br_sendrec_buf = pt_outgoing, br_sendrec_ack = (\<lambda>n e. e\<lparr>pt_outgoing := drop n (pt_outgoing e)\<rparr>),
     br_close = (\<lambda>e. e), br_reset = Some, br_timeout = (\<lambda>e. None)\<rparr>"

lemma sample_engine_contract: "engine_contract sample_engine (\<lambda>e c. pt_incoming e @ c)"
  by (auto simp: engine_contract_def sample_engine_def)


end
