(* ===== verification/File_Io.thy ===== *)
theory File_Io
  imports Prelude Transition
begin

text \<open>
  Files (file.h) over the file requests of libuv (fs.h): the state a File
  shares with its operations, the lease every operation takes and gives back,
  the positioned and the sequential reads and writes, and close.  The
  operating system is a parameter: for each libuv request its result, the
  bytes it delivers and the state it leaves.

  First comes each operation as one call.  Then the operations of several
  coroutines interleave at their requests: every critical section of the
  state's mutex is one step.
\<close>

section \<open>Requests\<close>

record 'w uv_file_ops =
  uv_fs_open :: "string \<Rightarrow> int \<Rightarrow> int \<Rightarrow> 'w \<Rightarrow> int \<times> 'w"
  uv_fs_read :: "int \<Rightarrow> nat \<Rightarrow> int \<Rightarrow> 'w \<Rightarrow> int \<times> string \<times> 'w"
  uv_fs_write :: "int \<Rightarrow> string \<Rightarrow> int \<Rightarrow> 'w \<Rightarrow> int \<times> 'w"
  uv_fs_fstat :: "int \<Rightarrow> 'w \<Rightarrow> int \<times> int \<times> 'w"
  uv_fs_fsync :: "int \<Rightarrow> 'w \<Rightarrow> int \<times> 'w"
  uv_fs_fdatasync :: "int \<Rightarrow> 'w \<Rightarrow> int \<times> 'w"
  uv_fs_close :: "int \<Rightarrow> 'w \<Rightarrow> int \<times> 'w"

text \<open>The result of a request is narrowed to an int before its sign is read.\<close>

definition normalize_uv_fs_rc :: "int \<Rightarrow> int" where
  "normalize_uv_fs_rc r = (r + 2 ^ 31) mod 2 ^ 32 - 2 ^ 31"

definition fs_check :: "string \<Rightarrow> int \<Rightarrow> 'a \<Rightarrow> 'a result" where
  "fs_check what r x =
     (let rc = normalize_uv_fs_rc r in if rc < 0 then Inl (UvError (UV_CODE rc) what) else Inr x)"

definition max_u32 :: nat where
  "max_u32 = 2 ^ 32 - 1"

definition fs_Open :: "'w uv_file_ops \<Rightarrow> string \<Rightarrow> int \<Rightarrow> int \<Rightarrow> 'w \<Rightarrow> int result \<times> 'w" where
  "fs_Open os path flags mode w =
     (case uv_fs_open os path flags mode w of (r, w') \<Rightarrow> (fs_check ''uv_fs_open'' r r, w'))"

definition fs_Read :: "'w uv_file_ops \<Rightarrow> int \<Rightarrow> nat \<Rightarrow> int \<Rightarrow> 'w \<Rightarrow> (int \<times> string) result \<times> 'w" where
  "fs_Read os fd cap off w =
     (case uv_fs_read os fd (min cap max_u32) off w of (r, d, w') \<Rightarrow> (fs_check ''uv_fs_read'' r (r, d), w'))"

definition fs_Write :: "'w uv_file_ops \<Rightarrow> int \<Rightarrow> string \<Rightarrow> int \<Rightarrow> 'w \<Rightarrow> int result \<times> 'w" where
  "fs_Write os fd buf off w =
     (case uv_fs_write os fd (take max_u32 buf) off w of (r, w') \<Rightarrow> (fs_check ''uv_fs_write'' r r, w'))"

definition fs_Fstat :: "'w uv_file_ops \<Rightarrow> int \<Rightarrow> 'w \<Rightarrow> int result \<times> 'w" where
  "fs_Fstat os fd w = (case uv_fs_fstat os fd w of (r, st_size, w') \<Rightarrow> (fs_check ''uv_fs_fstat'' r st_size, w'))"

definition fs_Fsync :: "'w uv_file_ops \<Rightarrow> int \<Rightarrow> 'w \<Rightarrow> unit result \<times> 'w" where
  "fs_Fsync os fd w = (case uv_fs_fsync os fd w of (r, w') \<Rightarrow> (fs_check ''uv_fs_fsync'' r (), w'))"

definition fs_Fdatasync :: "'w uv_file_ops \<Rightarrow> int \<Rightarrow> 'w \<Rightarrow> unit result \<times> 'w" where
  "fs_Fdatasync os fd w = (case uv_fs_fdatasync os fd w of (r, w') \<Rightarrow> (fs_check ''uv_fs_fdatasync'' r (), w'))"

definition fs_Close :: "'w uv_file_ops \<Rightarrow> int \<Rightarrow> 'w \<Rightarrow> unit result \<times> 'w" where
  "fs_Close os fd w = (case uv_fs_close os fd w of (r, w') \<Rightarrow> (fs_check ''uv_fs_close'' r (), w'))"

section \<open>The state of a file\<close>

record FileState =
  fl_file :: int
  fl_path :: string
  fl_offset :: int
  fl_inflight :: nat
  fl_sequential_busy :: bool
  fl_closing :: bool

definition invalid_file :: int where
  "invalid_file = - 1"

text \<open>A File holds no state when it is default constructed or moved from.\<close>

type_synonym File = "FileState option"

definition file_error :: "string \<Rightarrow> exn" where
  "file_error msg = LogicError (''corouv::io::File'' @ msg)"

definition to_offset :: "nat \<Rightarrow> string \<Rightarrow> int result" where
  "to_offset value what =
     (if 2 ^ 63 - 1 < value
      then Inl (OutOfRange (''corouv::io::File::'' @ what @ '' offset exceeds int64_t''))
      else Inr (int value))"

definition is_open_unlocked :: "FileState \<Rightarrow> bool" where
  "is_open_unlocked s \<longleftrightarrow> fl_file s \<noteq> invalid_file \<and> \<not> fl_closing s"

definition ensure_open_unlocked :: "string \<Rightarrow> FileState \<Rightarrow> unit result" where
  "ensure_open_unlocked op s =
     (if fl_file s = invalid_file \<or> fl_closing s then Inl (file_error ('' cannot '' @ op @ '' on a closed file''))
      else Inr ())"

definition acquire_lease :: "bool \<Rightarrow> string \<Rightarrow> FileState \<Rightarrow> (int \<times> int) result \<times> FileState" where
  "acquire_lease sequential op s =
     (case ensure_open_unlocked op s of
        Inl e \<Rightarrow> (Inl e, s)
      | Inr _ \<Rightarrow>
          if sequential \<and> fl_sequential_busy s
          then (Inl (file_error ('' does not support concurrent '' @ op @ '' operations'')), s)
          else (Inr (fl_file s, fl_offset s),
                s\<lparr>fl_sequential_busy := sequential \<or> fl_sequential_busy s, fl_inflight := fl_inflight s + 1\<rparr>))"

definition release_lease :: "bool \<Rightarrow> bool \<Rightarrow> int \<Rightarrow> FileState \<Rightarrow> FileState" where
  "release_lease sequential update_offset new_offset s =
     (let s1 = (if update_offset then s\<lparr>fl_offset := new_offset\<rparr> else s);
          s2 = (if sequential then s1\<lparr>fl_sequential_busy := False\<rparr> else s1)
      in s2\<lparr>fl_inflight := fl_inflight s2 - 1\<rparr>)"

text \<open>close up to its request: the descriptor to close, if there is one.\<close>

definition close_begin :: "FileState \<Rightarrow> int option result \<times> FileState" where
  "close_begin s =
     (if fl_file s = invalid_file then (Inr None, s)
      else if fl_closing s then (Inl (file_error ''::close already in progress''), s)
      else if fl_inflight s \<noteq> 0 \<or> fl_sequential_busy s
      then (Inl (file_error ''::close requires no operations in flight''), s)
      else (Inr (Some (fl_file s)), s\<lparr>fl_closing := True\<rparr>))"

definition close_end :: "bool \<Rightarrow> FileState \<Rightarrow> FileState" where
  "close_end ok s =
     (if ok then s\<lparr>fl_file := invalid_file, fl_offset := 0, fl_closing := False\<rparr>
      else s\<lparr>fl_closing := False\<rparr>)"

definition seek_locked :: "int \<Rightarrow> FileState \<Rightarrow> unit result \<times> FileState" where
  "seek_locked value s =
     (case ensure_open_unlocked ''seek'' s of
        Inl e \<Rightarrow> (Inl e, s)
      | Inr _ \<Rightarrow>
          if fl_closing s \<or> fl_sequential_busy s
          then (Inl (file_error ''::seek requires no sequential operation in flight''), s)
          else (Inr (), s\<lparr>fl_offset := value\<rparr>))"

section \<open>The operations\<close>

definition file_open :: "'w uv_file_ops \<Rightarrow> string \<Rightarrow> int \<Rightarrow> int \<Rightarrow> nat \<Rightarrow> 'w \<Rightarrow> File result \<times> 'w" where
  "file_open os path flags mode offset w =
     (case fs_Open os path flags mode w of
        (Inl e, w') \<Rightarrow> (Inl e, w')
      | (Inr fd, w') \<Rightarrow>
          (map_result (\<lambda>off. Some \<lparr>fl_file = fd, fl_path = path, fl_offset = off, fl_inflight = 0,
             fl_sequential_busy = False, fl_closing = False\<rparr>) (to_offset offset ''open''), w'))"

definition require_state :: "string \<Rightarrow> File \<Rightarrow> FileState result" where
  "require_state op f =
     (case f of None \<Rightarrow> Inl (file_error ('' cannot '' @ op @ '' on an empty file'')) | Some s \<Rightarrow> Inr s)"

definition is_open_file :: "File \<Rightarrow> bool" where
  "is_open_file f = (case f of None \<Rightarrow> False | Some s \<Rightarrow> is_open_unlocked s)"

definition native_handle :: "File \<Rightarrow> int" where
  "native_handle f = (case f of None \<Rightarrow> invalid_file | Some s \<Rightarrow> fl_file s)"

definition file_path :: "File \<Rightarrow> string" where
  "file_path f = (case f of None \<Rightarrow> [] | Some s \<Rightarrow> fl_path s)"

definition position :: "File \<Rightarrow> int result" where
  "position f =
     (case require_state ''position'' f of
        Inl e \<Rightarrow> Inl e
      | Inr s \<Rightarrow> map_result (\<lambda>_. fl_offset s) (ensure_open_unlocked ''position'' s))"

definition seek :: "nat \<Rightarrow> File \<Rightarrow> unit result \<times> File" where
  "seek offset f =
     (case require_state ''seek'' f of
        Inl e \<Rightarrow> (Inl e, f)
      | Inr s \<Rightarrow>
          (case to_offset offset ''seek'' of
             Inl e \<Rightarrow> (Inl e, f)
           | Inr value \<Rightarrow> (case seek_locked value s of (r, s') \<Rightarrow> (r, Some s'))))"

definition rewind :: "File \<Rightarrow> unit result \<times> File" where
  "rewind f = seek 0 f"

text \<open>
  Every operation with a request takes a lease first; its body answers with
  the result, the way it gives the lease back and the operating system.  A
  body that throws before its try block gives nothing back: the lease stays
  taken.
\<close>

definition leased ::
  "bool \<Rightarrow> string \<Rightarrow> (int \<times> int \<Rightarrow> 'w \<Rightarrow> 'a result \<times> (FileState \<Rightarrow> FileState) \<times> 'w) \<Rightarrow>
   File \<times> 'w \<Rightarrow> 'a result \<times> File \<times> 'w" where
  "leased sequential op body fw =
     (case fw of (f, w) \<Rightarrow>
        (case require_state op f of
           Inl e \<Rightarrow> (Inl e, f, w)
         | Inr s \<Rightarrow>
             (case acquire_lease sequential op s of
                (Inl e, s') \<Rightarrow> (Inl e, Some s', w)
              | (Inr lease, s') \<Rightarrow>
                  (case body lease w of (r, back, w') \<Rightarrow> (r, Some (back s'), w')))))"

definition file_stat :: "'w uv_file_ops \<Rightarrow> File \<times> 'w \<Rightarrow> int result \<times> File \<times> 'w" where
  "file_stat os = leased False ''stat''
     (\<lambda>(fd, _) w. case fs_Fstat os fd w of (r, w') \<Rightarrow> (r, release_lease False False 0, w'))"

definition file_size :: "'w uv_file_ops \<Rightarrow> File \<times> 'w \<Rightarrow> nat result \<times> File \<times> 'w" where
  "file_size os fw = (case file_stat os fw of (r, fw') \<Rightarrow> (map_result (\<lambda>n. if 0 < n then nat n else 0) r, fw'))"

text \<open>A read answers with the bytes it leaves in the buffer: none unless its count is positive.\<close>

definition delivered_bytes :: "int \<times> string \<Rightarrow> string" where
  "delivered_bytes nd = (if 0 < fst nd then take (nat (fst nd)) (snd nd) else [])"

definition read_at :: "'w uv_file_ops \<Rightarrow> nat \<Rightarrow> nat \<Rightarrow> File \<times> 'w \<Rightarrow> string result \<times> File \<times> 'w" where
  "read_at os offset cap = leased False ''read_at''
     (\<lambda>(fd, _) w. case to_offset offset ''read_at'' of
        Inl e \<Rightarrow> (Inl e, id, w)
      | Inr pos \<Rightarrow> (case fs_Read os fd cap pos w of
          (r, w') \<Rightarrow> (map_result delivered_bytes r, release_lease False False 0, w')))"

definition write_at :: "'w uv_file_ops \<Rightarrow> nat \<Rightarrow> string \<Rightarrow> File \<times> 'w \<Rightarrow> nat result \<times> File \<times> 'w" where
  "write_at os offset buf = leased False ''write_at''
     (\<lambda>(fd, _) w. case to_offset offset ''write_at'' of
        Inl e \<Rightarrow> (Inl e, id, w)
      | Inr pos \<Rightarrow> (case fs_Write os fd buf pos w of
          (r, w') \<Rightarrow> (map_result nat r, release_lease False False 0, w')))"

definition file_read_some :: "'w uv_file_ops \<Rightarrow> nat \<Rightarrow> File \<times> 'w \<Rightarrow> string result \<times> File \<times> 'w" where
  "file_read_some os cap = leased True ''read_some''
     (\<lambda>(fd, off) w. case fs_Read os fd cap off w of
        (Inl e, w') \<Rightarrow> (Inl e, release_lease True False 0, w')
      | (Inr (n, d), w') \<Rightarrow>
          (Inr (delivered_bytes (n, d)), release_lease True True (if 0 < n then off + n else off), w'))"

definition file_write_some :: "'w uv_file_ops \<Rightarrow> string \<Rightarrow> File \<times> 'w \<Rightarrow> nat result \<times> File \<times> 'w" where
  "file_write_some os buf = leased True ''write_some''
     (\<lambda>(fd, off) w. case fs_Write os fd buf off w of
        (Inl e, w') \<Rightarrow> (Inl e, release_lease True False 0, w')
      | (Inr n, w') \<Rightarrow> (Inr (nat n), release_lease True True (if 0 < n then off + n else off), w'))"

text \<open>Each turn of the loop writes at least one byte.\<close>

function file_write_loop :: "'w uv_file_ops \<Rightarrow> int \<Rightarrow> string \<Rightarrow> int \<Rightarrow> 'w \<Rightarrow> int result \<times> 'w" where
  "file_write_loop os fd buf off w =
     (if buf = [] then (Inr off, w)
      else case fs_Write os fd buf off w of
        (Inl e, w') \<Rightarrow> (Inl e, w')
      | (Inr n, w') \<Rightarrow>
          if n \<le> 0 then (Inl (RuntimeError ''corouv::io::File write stalled''), w')
          else file_write_loop os fd (drop (nat n) buf) (off + n) w')"
  by pat_completeness auto
termination
  by (relation "measure (\<lambda>(os, fd, buf, off, w). length buf)") auto

declare file_write_loop.simps [simp del]

definition file_write_all :: "'w uv_file_ops \<Rightarrow> string \<Rightarrow> File \<times> 'w \<Rightarrow> unit result \<times> File \<times> 'w" where
  "file_write_all os buf = leased True ''write_all''
     (\<lambda>(fd, off) w. case file_write_loop os fd buf off w of
        (Inl e, w') \<Rightarrow> (Inl e, release_lease True False 0, w')
      | (Inr off', w') \<Rightarrow> (Inr (), release_lease True True off', w'))"

text \<open>A file may grow while it is read, so this loop has fuel.\<close>

fun file_read_loop ::
  "nat \<Rightarrow> 'w uv_file_ops \<Rightarrow> nat \<Rightarrow> int \<Rightarrow> string \<Rightarrow> int \<Rightarrow> 'w \<Rightarrow> (string \<times> int) result \<times> 'w" where
  "file_read_loop 0 os max_bytes fd out off w = (Inl OutOfFuel, w)"
| "file_read_loop (Suc fuel) os max_bytes fd out off w =
     (case fs_Read os fd 4096 off w of
        (Inl e, w') \<Rightarrow> (Inl e, w')
      | (Inr (n, d), w') \<Rightarrow>
          if n = 0 then (Inr (out, off), w')
          else if n < 0 then (Inl (RuntimeError ''corouv::io::File read failed''), w')
          else if max_bytes < sz_add (length out) (nat n)
          then (Inl (RuntimeError ''corouv::io::File read_until_eof exceeded max_bytes''), w')
          else file_read_loop fuel os max_bytes fd (out @ take (nat n) d) (off + n) w')"

definition file_read_until_eof :: "nat \<Rightarrow> 'w uv_file_ops \<Rightarrow> nat \<Rightarrow> File \<times> 'w \<Rightarrow> string result \<times> File \<times> 'w" where
  "file_read_until_eof fuel os max_bytes = leased True ''read_until_eof''
     (\<lambda>(fd, off) w. case file_read_loop fuel os max_bytes fd [] off w of
        (Inl e, w') \<Rightarrow> (Inl e, release_lease True False 0, w')
      | (Inr (out, off'), w') \<Rightarrow> (Inr out, release_lease True True off', w'))"

definition file_read_all :: "nat \<Rightarrow> 'w uv_file_ops \<Rightarrow> nat \<Rightarrow> File \<times> 'w \<Rightarrow> string result \<times> File \<times> 'w" where
  "file_read_all fuel os max_bytes fw = file_read_until_eof fuel os max_bytes fw"

definition file_sync :: "'w uv_file_ops \<Rightarrow> File \<times> 'w \<Rightarrow> unit result \<times> File \<times> 'w" where
  "file_sync os = leased False ''sync''
     (\<lambda>(fd, _) w. case fs_Fsync os fd w of (r, w') \<Rightarrow> (r, release_lease False False 0, w'))"

definition file_datasync :: "'w uv_file_ops \<Rightarrow> File \<times> 'w \<Rightarrow> unit result \<times> File \<times> 'w" where
  "file_datasync os = leased False ''datasync''
     (\<lambda>(fd, _) w. case fs_Fdatasync os fd w of (r, w') \<Rightarrow> (r, release_lease False False 0, w'))"

definition file_close :: "'w uv_file_ops \<Rightarrow> File \<times> 'w \<Rightarrow> unit result \<times> File \<times> 'w" where
  "file_close os fw =
     (case fw of
        (None, w) \<Rightarrow> (Inr (), None, w)
      | (Some s, w) \<Rightarrow>
          (case close_begin s of
             (Inl e, s') \<Rightarrow> (Inl e, Some s', w)
           | (Inr None, s') \<Rightarrow> (Inr (), Some s', w)
           | (Inr (Some fd), s') \<Rightarrow>
               (case fs_Close os fd w of
                  (Inl e, w') \<Rightarrow> (Inl e, Some (close_end False s'), w')
                | (Inr _, w') \<Rightarrow> (Inr (), Some (close_end True s'), w'))))"

text \<open>The destructor of the state closes what is still open, without waiting.\<close>

definition file_close_sync :: "'w uv_file_ops \<Rightarrow> FileState \<times> 'w \<Rightarrow> FileState \<times> 'w" where
  "file_close_sync os sw =
     (case sw of (s, w) \<Rightarrow>
        if fl_file s = invalid_file then (s, w)
        else (s\<lparr>fl_file := invalid_file, fl_closing := False, fl_sequential_busy := False, fl_inflight := 0\<rparr>,
              snd (uv_fs_close os (fl_file s) w)))"

section \<open>Interleaved operations\<close>

text \<open>
  The requests in flight carry whether they are sequential and the lease they
  were issued with; the descriptors being closed are listed apart.
\<close>

record file_sys =
  fy_state :: FileState
  fy_ops :: "(bool \<times> int \<times> int) list"
  fy_closes :: "int list"

inductive file_step :: "file_sys \<Rightarrow> file_sys \<Rightarrow> bool" where
  op_begin: "acquire_lease q op (fy_state y) = (Inr lease, s') \<Longrightarrow>
    file_step y (y\<lparr>fy_state := s', fy_ops := (q, lease) # fy_ops y\<rparr>)"
| op_lost: "acquire_lease False op (fy_state y) = (Inr lease, s') \<Longrightarrow> to_offset offset op = Inl e \<Longrightarrow>
    file_step y (y\<lparr>fy_state := s'\<rparr>)"
| op_end: "fy_ops y = a @ (q, lease) # b \<Longrightarrow> (u \<longrightarrow> q) \<Longrightarrow>
    file_step y (y\<lparr>fy_state := release_lease q u n (fy_state y), fy_ops := a @ b\<rparr>)"
| close_start: "close_begin (fy_state y) = (Inr (Some fd), s') \<Longrightarrow>
    file_step y (y\<lparr>fy_state := s', fy_closes := fd # fy_closes y\<rparr>)"
| close_done: "fy_closes y = fd # c \<Longrightarrow>
    file_step y (y\<lparr>fy_state := close_end ok (fy_state y), fy_closes := c\<rparr>)"
| seek_to: "seek_locked v (fy_state y) = (Inr (), s') \<Longrightarrow> file_step y (y\<lparr>fy_state := s'\<rparr>)"

inductive_cases file_stepE: "file_step y y'"

definition fresh_file :: "file_sys \<Rightarrow> bool" where
  "fresh_file y \<longleftrightarrow> fl_file (fy_state y) \<noteq> invalid_file \<and> fl_inflight (fy_state y) = 0 \<and>
     \<not> fl_sequential_busy (fy_state y) \<and> \<not> fl_closing (fy_state y) \<and> fy_ops y = [] \<and> fy_closes y = []"

definition file_good :: "file_sys \<Rightarrow> bool" where
  "file_good y \<longleftrightarrow>
     (let s = fy_state y in
        (\<not> is_open_unlocked s \<longrightarrow> fy_ops y = []) \<and>
        (\<forall>x \<in> set (fy_ops y). fst (snd x) = fl_file s \<and> (fst x \<longrightarrow> snd (snd x) = fl_offset s)) \<and>
        length (filter fst (fy_ops y)) = (if fl_sequential_busy s then 1 else 0) \<and>
        length (fy_ops y) \<le> fl_inflight s \<and>
        fy_closes y = (if fl_closing s then [fl_file s] else []) \<and>
        (fl_closing s \<longrightarrow> fl_file s \<noteq> invalid_file))"

lemma acquire_lease_Inr:
  "acquire_lease q op s = (Inr lease, s') \<Longrightarrow>
   is_open_unlocked s \<and> \<not> (q \<and> fl_sequential_busy s) \<and> lease = (fl_file s, fl_offset s) \<and>
   s' = s\<lparr>fl_sequential_busy := q \<or> fl_sequential_busy s, fl_inflight := fl_inflight s + 1\<rparr>"
  by (auto simp: acquire_lease_def ensure_open_unlocked_def is_open_unlocked_def split: if_splits)

lemma close_begin_Some:
  "close_begin s = (Inr (Some fd), s') \<Longrightarrow>
   fl_file s \<noteq> invalid_file \<and> \<not> fl_closing s \<and> fl_inflight s = 0 \<and> \<not> fl_sequential_busy s \<and> fd = fl_file s \<and>
   s' = s\<lparr>fl_closing := True\<rparr>"
  by (auto simp: close_begin_def split: if_splits)

lemma seek_locked_Inr:
  "seek_locked v s = (Inr (), s') \<Longrightarrow>
   is_open_unlocked s \<and> \<not> fl_sequential_busy s \<and> s' = s\<lparr>fl_offset := v\<rparr>"
  by (auto simp: seek_locked_def ensure_open_unlocked_def is_open_unlocked_def split: if_splits)

lemma release_lease_fields [simp]:
  "fl_file (release_lease q u n s) = fl_file s"
  "fl_closing (release_lease q u n s) = fl_closing s"
  "fl_inflight (release_lease q u n s) = fl_inflight s - 1"
  "fl_sequential_busy (release_lease q u n s) = (\<not> q \<and> fl_sequential_busy s)"
  "fl_offset (release_lease q u n s) = (if u then n else fl_offset s)"
  by (simp_all add: release_lease_def Let_def)

lemma file_good_end:
  assumes "file_good y" "fy_ops y = a @ (q, lease) # b" "u \<longrightarrow> q"
  shows "file_good (y\<lparr>fy_state := release_lease q u n (fy_state y), fy_ops := a @ b\<rparr>)"
proof -
  let ?s = "fy_state y"
  have g: "is_open_unlocked ?s" "\<forall>x \<in> set (a @ b). fst (snd x) = fl_file ?s \<and> (fst x \<longrightarrow> snd (snd x) = fl_offset ?s)"
    "length (filter fst (a @ (q, lease) # b)) = (if fl_sequential_busy ?s then 1 else 0)"
    "length (a @ (q, lease) # b) \<le> fl_inflight ?s" "fy_closes y = []"
    using assms(1,2) by (auto simp: file_good_def Let_def is_open_unlocked_def)
  have none: "\<forall>x \<in> set (a @ b). \<not> fst x" if q
    using g(3) that by (auto simp: filter_empty_conv split: if_splits)
  have count: "length (filter fst (a @ b)) = (if \<not> q \<and> fl_sequential_busy ?s then 1 else 0)"
    using g(3) by (simp split: if_splits)
  have "\<forall>x \<in> set (a @ b). fst x \<longrightarrow> snd (snd x) = (if u then n else fl_offset ?s)"
    using none g(2) assms(3) by simp
  then show ?thesis
    using g(1,2,4,5) count by (simp add: file_good_def Let_def is_open_unlocked_def)
qed

lemma file_good_begin:
  assumes "file_good y" "acquire_lease q op (fy_state y) = (Inr lease, s')"
  shows "file_good (y\<lparr>fy_state := s', fy_ops := (q, lease) # fy_ops y\<rparr>)" "q \<or> file_good (y\<lparr>fy_state := s'\<rparr>)"
proof -
  from acquire_lease_Inr[OF assms(2)] have l: "is_open_unlocked (fy_state y)" "\<not> (q \<and> fl_sequential_busy (fy_state y))"
    "lease = (fl_file (fy_state y), fl_offset (fy_state y))" and
    s': "s' = fy_state y\<lparr>fl_sequential_busy := q \<or> fl_sequential_busy (fy_state y), fl_inflight := fl_inflight (fy_state y) + 1\<rparr>"
    by simp_all
  show "file_good (y\<lparr>fy_state := s', fy_ops := (q, lease) # fy_ops y\<rparr>)"
    using assms(1) l unfolding s' by (cases q) (simp_all add: file_good_def Let_def is_open_unlocked_def)
  show "q \<or> file_good (y\<lparr>fy_state := s'\<rparr>)"
    using assms(1) l unfolding s' by (cases q) (simp_all add: file_good_def Let_def is_open_unlocked_def)
qed

lemma file_good_close:
  assumes "file_good y"
  shows "close_begin (fy_state y) = (Inr (Some fd), s') \<Longrightarrow>
      file_good (y\<lparr>fy_state := s', fy_closes := fd # fy_closes y\<rparr>)"
    and "fy_closes y = fd # c \<Longrightarrow> file_good (y\<lparr>fy_state := close_end ok (fy_state y), fy_closes := c\<rparr>)"
proof -
  assume "close_begin (fy_state y) = (Inr (Some fd), s')"
  from close_begin_Some[OF this] have c: "fl_file (fy_state y) \<noteq> invalid_file" "\<not> fl_closing (fy_state y)"
    "fl_inflight (fy_state y) = 0" "\<not> fl_sequential_busy (fy_state y)" "fd = fl_file (fy_state y)" and s': "s' = fy_state y\<lparr>fl_closing := True\<rparr>"
    by simp_all
  show "file_good (y\<lparr>fy_state := s', fy_closes := fd # fy_closes y\<rparr>)"
    using assms c unfolding s' by (simp add: file_good_def Let_def is_open_unlocked_def)
next
  assume "fy_closes y = fd # c"
  then show "file_good (y\<lparr>fy_state := close_end ok (fy_state y), fy_closes := c\<rparr>)"
    using assms by (cases "fl_closing (fy_state y)"; cases ok)
      (simp_all add: file_good_def Let_def is_open_unlocked_def close_end_def)
qed

lemma file_good_seek:
  assumes "file_good y" "seek_locked v (fy_state y) = (Inr (), s')"
  shows "file_good (y\<lparr>fy_state := s'\<rparr>)"
proof -
  from seek_locked_Inr[OF assms(2)] have k: "is_open_unlocked (fy_state y)" "\<not> fl_sequential_busy (fy_state y)"
    and s': "s' = fy_state y\<lparr>fl_offset := v\<rparr>" by simp_all
  have "\<forall>x \<in> set (fy_ops y). \<not> fst x"
    using assms(1) k(2) by (simp add: file_good_def Let_def filter_empty_conv)
  then show ?thesis using assms(1) k unfolding s' by (simp add: file_good_def Let_def is_open_unlocked_def)
qed

lemma file_good_step: "file_good y \<Longrightarrow> file_step y y' \<Longrightarrow> file_good y'"
  by (erule file_stepE) (auto dest: file_good_begin file_good_end file_good_close file_good_seek simp del: release_lease_fields)

interpretation file_run: invariant_system fresh_file file_step file_good
proof unfold_locales
  show "fresh_file s \<Longrightarrow> file_good s" for s by (simp add: fresh_file_def file_good_def Let_def)
qed (rule file_good_step)

text \<open>
  C23: however the operations on a file interleave, a request is in flight only
  on the open descriptor, never while close runs or after it; close is issued
  at most once at a time and on the file's own descriptor; and at most one
  sequential operation is in flight, whose offset nobody changes.
\<close>

theorem file_requests_exclusive:
  assumes "reachable fresh_file file_step y"
  shows "(fy_ops y \<noteq> [] \<longrightarrow> fl_file (fy_state y) \<noteq> invalid_file \<and> fy_closes y = []) \<and>
    (\<forall>q fd off. (q, fd, off) \<in> set (fy_ops y) \<longrightarrow>
       fd = fl_file (fy_state y) \<and> (q \<longrightarrow> off = fl_offset (fy_state y))) \<and>
    length (filter fst (fy_ops y)) \<le> 1 \<and>
    (fy_closes y = [] \<or> fy_closes y = [fl_file (fy_state y)])"
  using file_run.reachable_good[OF assms]
  by (auto simp: file_good_def Let_def is_open_unlocked_def split: if_splits)

definition sample_file :: FileState where
  "sample_file = \<lparr>fl_file = 3, fl_path = ''f'', fl_offset = 0, fl_inflight = 0, fl_sequential_busy = False,
     fl_closing = False\<rparr>"

definition sample_sys :: "FileState \<Rightarrow> (bool \<times> int \<times> int) list \<Rightarrow> file_sys" where
  "sample_sys s ops = \<lparr>fy_state = s, fy_ops = ops, fy_closes = []\<rparr>"

theorem file_requests_exclusive_witness:
  "fy_ops (sample_sys (sample_file\<lparr>fl_sequential_busy := True, fl_inflight := 1\<rparr>) [(True, 3, 0)]) \<noteq> [] \<and>
   length (filter fst (fy_ops (sample_sys (sample_file\<lparr>fl_sequential_busy := True, fl_inflight := 1\<rparr>) [(True, 3, 0)]))) \<le> 1"
proof -
  let ?y = "sample_sys sample_file []"
  have "fresh_file ?y" by (simp add: fresh_file_def sample_sys_def sample_file_def invalid_file_def)
  then have r: "reachable fresh_file file_step ?y" by (rule reachable.start)
  have "acquire_lease True ''read_some'' (fy_state ?y) =
      (Inr (3, 0), sample_file\<lparr>fl_sequential_busy := True, fl_inflight := 1\<rparr>)"
    by (simp add: acquire_lease_def ensure_open_unlocked_def sample_sys_def sample_file_def invalid_file_def)
  from file_step.op_begin[OF this]
  have "file_step ?y (sample_sys (sample_file\<lparr>fl_sequential_busy := True, fl_inflight := 1\<rparr>) [(True, 3, 0)])"
    by (simp add: sample_sys_def)
  with r have "reachable fresh_file file_step (sample_sys (sample_file\<lparr>fl_sequential_busy := True, fl_inflight := 1\<rparr>) [(True, 3, 0)])"
    by (rule reachable.next_state)
  from file_requests_exclusive[OF this] show ?thesis by (simp add: sample_sys_def)
qed

section \<open>A lease that is never given back\<close>

definition lease_lost :: "file_sys \<Rightarrow> bool" where
  "lease_lost y \<longleftrightarrow> is_open_unlocked (fy_state y) \<and> fy_closes y = [] \<and> length (fy_ops y) < fl_inflight (fy_state y)"

lemma lease_lost_begin:
  assumes "lease_lost y" "acquire_lease q op (fy_state y) = (Inr lease, s')"
  shows "lease_lost (y\<lparr>fy_state := s', fy_ops := (q, lease) # fy_ops y\<rparr>)" "lease_lost (y\<lparr>fy_state := s'\<rparr>)"
proof -
  from acquire_lease_Inr[OF assms(2)] have s': "s' = fy_state y\<lparr>fl_sequential_busy := q \<or> fl_sequential_busy (fy_state y),
      fl_inflight := fl_inflight (fy_state y) + 1\<rparr>" by simp
  show "lease_lost (y\<lparr>fy_state := s', fy_ops := (q, lease) # fy_ops y\<rparr>)" "lease_lost (y\<lparr>fy_state := s'\<rparr>)"
    using assms(1) unfolding s' by (simp_all add: lease_lost_def is_open_unlocked_def)
qed

lemma lease_lost_seek:
  assumes "lease_lost y" "seek_locked v (fy_state y) = (Inr (), s')"
  shows "lease_lost (y\<lparr>fy_state := s'\<rparr>)"
proof -
  from seek_locked_Inr[OF assms(2)] have s': "s' = fy_state y\<lparr>fl_offset := v\<rparr>" by simp
  show ?thesis using assms(1) unfolding s' by (simp add: lease_lost_def is_open_unlocked_def)
qed

lemma lease_lost_end:
  "lease_lost y \<Longrightarrow> fy_ops y = a @ (q, lease) # b \<Longrightarrow>
   lease_lost (y\<lparr>fy_state := release_lease q u n (fy_state y), fy_ops := a @ b\<rparr>)"
  by (auto simp: lease_lost_def is_open_unlocked_def)

lemma lease_lost_no_close:
  assumes "lease_lost y"
  shows "close_begin (fy_state y) \<noteq> (Inr (Some fd), s')" "fy_closes y \<noteq> fd # c"
  using assms close_begin_Some[of "fy_state y" fd s'] by (auto simp: lease_lost_def)

lemma lease_lost_step: "lease_lost y \<Longrightarrow> file_step y y' \<Longrightarrow> lease_lost y'"
  by (erule file_stepE)
    (simp_all add: lease_lost_begin lease_lost_seek lease_lost_end lease_lost_no_close del: release_lease_fields)

interpretation file_stuck: invariant_system lease_lost file_step lease_lost
  by unfold_locales (assumption, rule lease_lost_step)

text \<open>
  C39: read_at with an offset that does not fit in int64_t throws after it took
  its lease and never gives it back: from then on, whatever else happens to
  the file, close throws that operations are in flight.
\<close>

theorem read_at_blocks_close:
  assumes "is_open_unlocked s" "length ops \<le> fl_inflight s" "2 ^ 63 \<le> offset"
    and "read_at os offset cap (Some s, w) = (r, Some s', w')"
    and "file_step\<^sup>*\<^sup>* \<lparr>fy_state = s', fy_ops = ops, fy_closes = []\<rparr> y"
  shows "r = Inl (OutOfRange ''corouv::io::File::read_at offset exceeds int64_t'') \<and>
    fst (close_begin (fy_state y)) = Inl (LogicError ''corouv::io::File::close requires no operations in flight'')"
proof -
  have "to_offset offset ''read_at'' = Inl (OutOfRange ''corouv::io::File::read_at offset exceeds int64_t'')"
    using assms(3) by (simp add: to_offset_def)
  with assms(1,4) have r: "r = Inl (OutOfRange ''corouv::io::File::read_at offset exceeds int64_t'')"
    and s': "s' = s\<lparr>fl_inflight := fl_inflight s + 1\<rparr>"
    by (auto simp: read_at_def leased_def require_state_def acquire_lease_def ensure_open_unlocked_def is_open_unlocked_def)
  then have "lease_lost \<lparr>fy_state = s', fy_ops = ops, fy_closes = []\<rparr>"
    using assms(1,2) by (simp add: lease_lost_def is_open_unlocked_def)
  with assms(5) have "lease_lost y" by (rule file_stuck.run_good)
  then show ?thesis using r by (auto simp: lease_lost_def is_open_unlocked_def close_begin_def file_error_def)
qed

section \<open>What is written is read back\<close>

text \<open>
  What the operating system promises of a regular file: a read delivers some
  of the bytes at its offset, none only at the end, and changes nothing; a
  write at an offset inside the file or at its end replaces or appends some
  of the bytes it is given, at least one; no request transfers 2 GiB.
\<close>

definition splice :: "nat \<Rightarrow> string \<Rightarrow> string \<Rightarrow> string" where
  "splice p d c = take p c @ d @ drop (p + length d) c"

definition file_contract :: "'w uv_file_ops \<Rightarrow> int \<Rightarrow> ('w \<Rightarrow> string) \<Rightarrow> bool" where
  "file_contract os fd content \<longleftrightarrow>
     (\<forall>w cap p. 0 < cap \<longrightarrow>
        (\<exists>k w'. uv_fs_read os fd cap (int p) w = (int k, take k (drop p (content w)), w') \<and> content w' = content w \<and>
           k \<le> cap \<and> k \<le> length (content w) - p \<and> (k = 0 \<longrightarrow> length (content w) \<le> p) \<and> k < 2 ^ 31)) \<and>
     (\<forall>w d p. d \<noteq> [] \<longrightarrow> p \<le> length (content w) \<longrightarrow>
        (\<exists>k w'. uv_fs_write os fd d (int p) w = (int k, w') \<and> content w' = splice p (take k d) (content w) \<and>
           0 < k \<and> k \<le> length d \<and> k < 2 ^ 31))"

lemma fs_check_small: "k < 2 ^ 31 \<Longrightarrow> fs_check what (int k) x = Inr x"
  by (simp add: fs_check_def normalize_uv_fs_rc_def)

lemma splice_splice:
  assumes "p \<le> length c" "k \<le> length d"
  shows "splice (p + k) (drop k d) (splice p (take k d) c) = splice p d c"
proof -
  have "take (p + k) (splice p (take k d) c) = take p c @ take k d"
    using assms by (simp add: splice_def min_def)
  moreover have "drop (p + length d) (splice p (take k d) c) = drop (p + length d) c"
    using assms by (simp add: splice_def min_def add.commute)
  ultimately show ?thesis using assms by (simp add: splice_def)
qed

lemma length_splice: "p \<le> length c \<Longrightarrow> length (splice p d c) = max (length c) (p + length d)"
  by (simp add: splice_def)

lemma file_write_loop_writes:
  assumes "file_contract os fd content" "p \<le> length (content w)"
  shows "\<exists>w'. file_write_loop os fd d (int p) w = (Inr (int (p + length d)), w') \<and>
    content w' = splice p d (content w)"
  using assms(2)
proof (induction "length d" arbitrary: d p w rule: less_induct)
  case less
  show ?case
  proof (cases "d = []")
    case True
    then show ?thesis by (simp add: file_write_loop.simps splice_def)
  next
    case False
    let ?d = "take max_u32 d"
    have "?d \<noteq> []" using False by (simp add: max_u32_def)
    then obtain k w1 where k: "uv_fs_write os fd ?d (int p) w = (int k, w1)"
      "content w1 = splice p (take k ?d) (content w)" "0 < k" "k \<le> length ?d" "k < 2 ^ 31"
      using assms(1) less.prems unfolding file_contract_def by meson
    have le: "k \<le> length d" and c1: "content w1 = splice p (take k d) (content w)"
      using k(2,4) by (simp_all add: min_def split: if_splits)
    have "length (drop k d) < length d" "p + k \<le> length (content w1)"
      using k(3) le False less.prems c1 by (simp_all add: length_splice)
    from less.hyps[OF this] obtain w' where
      "file_write_loop os fd (drop k d) (int (p + k)) w1 = (Inr (int (p + k + length (drop k d))), w')"
      "content w' = splice (p + k) (drop k d) (content w1)" by blast
    moreover have "fs_Write os fd d (int p) w = (Inr (int k), w1)"
      using k(1,5) by (simp add: fs_Write_def fs_check_small)
    ultimately show ?thesis
      using False k(3) le c1 splice_splice[OF less.prems le]
      by (subst file_write_loop.simps) (simp add: algebra_simps)
  qed
qed

lemma file_read_loop_reads:
  assumes "file_contract os fd content" "length (content w) - p < fuel" "p \<le> length (content w)"
    and "length out + (length (content w) - p) \<le> max_bytes" "max_bytes \<le> size_max"
  shows "\<exists>w'. file_read_loop fuel os max_bytes fd out (int p) w =
      (Inr (out @ drop p (content w), int (length (content w))), w') \<and> content w' = content w"
  using assms(2-4)
proof (induction fuel arbitrary: out p w)
  case (Suc fuel)
  obtain k w1 where k: "uv_fs_read os fd 4096 (int p) w = (int k, take k (drop p (content w)), w1)"
    "content w1 = content w" "k \<le> length (content w) - p" "k = 0 \<longrightarrow> length (content w) \<le> p" "k < 2 ^ 31"
    using assms(1) unfolding file_contract_def by (metis zero_less_numeral)
  have r: "fs_Read os fd 4096 (int p) w = (Inr (int k, take k (drop p (content w))), w1)"
    using k(1,5) by (simp add: fs_Read_def max_u32_def fs_check_small)
  show ?case
  proof (cases "k = 0")
    case True
    with k r Suc.prems show ?thesis by simp
  next
    case False
    have "sz_add (length out) k = length out + k"
      using k(3) Suc.prems(3) assms(5) by (intro sz_add_exact) (simp add: size_max_def)
    moreover have "length (content w1) - (p + k) < fuel" "p + k \<le> length (content w1)"
      "length (out @ take k (drop p (content w))) + (length (content w1) - (p + k)) \<le> max_bytes"
      using False k(2,3) Suc.prems by simp_all
    note ih = Suc.IH[OF this]
    moreover have "take k (drop p (content w)) @ drop (p + k) (content w) = drop p (content w)"
      by (metis append_take_drop_id drop_drop add.commute)
    ultimately show ?thesis using False r k(2,3) Suc.prems(3) by (auto simp: add.commute)
  qed
qed simp

text \<open>
  C24: on a file of which the operating system keeps the contract of regular
  files, write_all at the current position, seek back and read_until_eof
  return what was written followed by what the file held after it, however
  short the single transfers are; a turn of the read loop per byte is enough.
\<close>

theorem file_write_then_read:
  assumes "file_contract os (fl_file s) content" "is_open_unlocked s" "\<not> fl_sequential_busy s"
    and "fl_offset s = int p" "p \<le> length (content w)" "p < 2 ^ 63"
    and "length d + (length (content w) - p) \<le> max_bytes" "max_bytes \<le> size_max" "max_bytes < fuel"
  shows "\<exists>f1 w1 f2 f3 w2. file_write_all os d (Some s, w) = (Inr (), f1, w1) \<and>
    content w1 = splice p d (content w) \<and> position f1 = Inr (int (p + length d)) \<and>
    seek p f1 = (Inr (), f2) \<and>
    file_read_until_eof fuel os max_bytes (f2, w1) = (Inr (d @ drop (p + length d) (content w)), f3, w2) \<and>
    content w2 = content w1"
proof -
  obtain w1 where w1: "file_write_loop os (fl_file s) d (int p) w = (Inr (int (p + length d)), w1)"
    "content w1 = splice p d (content w)" using file_write_loop_writes[OF assms(1,5)] by blast
  have "length (content w1) - p \<le> max_bytes" "p \<le> length (content w1)" "drop p (content w1) = d @ drop (p + length d) (content w)"
    using assms(5,7) w1(2) by (simp_all add: length_splice max_def splice_def)
  with file_read_loop_reads[OF assms(1), of w1 p fuel "[]" max_bytes] assms(8,9) obtain w2 where
    "file_read_loop fuel os max_bytes (fl_file s) [] (int p) w1 =
       (Inr (d @ drop (p + length d) (content w), int (length (content w1))), w2)" "content w2 = content w1" by auto
  with w1 assms(2-4,6) show ?thesis
    by (auto simp: file_write_all_def file_read_until_eof_def leased_def require_state_def acquire_lease_def
        ensure_open_unlocked_def is_open_unlocked_def position_def seek_def seek_locked_def to_offset_def
        release_lease_def Let_def)
qed

text \<open>A file whose requests transfer at most two bytes.\<close>

definition sample_os :: "string uv_file_ops" where
  "sample_os = \<lparr>uv_fs_open = (\<lambda>path flags mode w. (3, w)),
     uv_fs_read = (\<lambda>fd cap off w. let d = take (min cap 2) (drop (nat off) w) in (int (length d), d, w)),
     uv_fs_write = (\<lambda>fd d off w. (int (length (take 2 d)), splice (nat off) (take 2 d) w)),
     uv_fs_fstat = (\<lambda>fd w. (0, int (length w), w)), uv_fs_fsync = (\<lambda>fd w. (0, w)),
     uv_fs_fdatasync = (\<lambda>fd w. (0, w)), uv_fs_close = (\<lambda>fd w. (0, w))\<rparr>"

lemma sample_os_contract: "file_contract sample_os fd (\<lambda>w. w)"
  unfolding file_contract_def
proof (intro conjI allI impI)
  fix w :: string and cap p :: nat assume "0 < cap"
  then show "\<exists>k w'. uv_fs_read sample_os fd cap (int p) w = (int k, take k (drop p w), w') \<and> w' = w \<and>
      k \<le> cap \<and> k \<le> length w - p \<and> (k = 0 \<longrightarrow> length w \<le> p) \<and> k < 2 ^ 31"
    by (intro exI[of _ "min (min cap 2) (length w - p)"] exI[of _ w]) (auto simp: sample_os_def Let_def min_def)
next
  fix w d :: string and p :: nat assume "d \<noteq> []" "p \<le> length w"
  then show "\<exists>k w'. uv_fs_write sample_os fd d (int p) w = (int k, w') \<and> w' = splice p (take k d) w \<and>
      0 < k \<and> k \<le> length d \<and> k < 2 ^ 31"
    by (intro exI[of _ "min 2 (length d)"] exI[of _ "splice p (take 2 d) w"]) (auto simp: sample_os_def min_def)
qed

theorem file_write_then_read_witness:
  "\<exists>f1 w1 f2 f3 w2. file_write_all sample_os ''xyz'' (Some sample_file, ''abcde'') = (Inr (), f1, w1) \<and>
    w1 = ''xyzde'' \<and> position f1 = Inr 3 \<and> seek 0 f1 = (Inr (), f2) \<and>
    file_read_until_eof 9 sample_os 8 (f2, w1) = (Inr ''xyzde'', f3, w2) \<and> w2 = w1"
  using file_write_then_read[OF sample_os_contract, of sample_file 0 "''abcde''" "''xyz''" 8 9]
  by (simp add: sample_file_def is_open_unlocked_def invalid_file_def size_max_def splice_def)

theorem read_at_blocks_close_witness:
  "fst (close_begin (sample_file\<lparr>fl_inflight := 1\<rparr>)) =
     Inl (LogicError ''corouv::io::File::close requires no operations in flight'')"
proof -
  have "read_at sample_os (2 ^ 63) 10 (Some sample_file, []) =
      (Inl (OutOfRange ''corouv::io::File::read_at offset exceeds int64_t''), Some (sample_file\<lparr>fl_inflight := 1\<rparr>), [])"
    by (simp add: read_at_def leased_def require_state_def acquire_lease_def ensure_open_unlocked_def to_offset_def
        sample_file_def invalid_file_def)
  from read_at_blocks_close[OF _ _ _ this rtranclp.rtrancl_refl, of "[]"] show ?thesis
    by (simp add: is_open_unlocked_def sample_file_def invalid_file_def)
qed

end
