(* ===== verification/File_System.thy ===== *)
theory File_System
  imports File_Io "HOL-Library.Sublist"
begin

unbundle bit_operations_syntax

text \<open>
  The file system operations of filesystem.h that are more than one request:
  the normalisation of paths, create_directories, directories and their
  reading, and remove_all.  The operating system is a parameter, as for
  files.  The file watcher is left out.
\<close>

section \<open>Paths\<close>

definition is_path_separator :: "char \<Rightarrow> bool" where
  "is_path_separator ch \<longleftrightarrow> ch = CHR ''/'' \<or> ch = CHR 0x5C"

record NormalizedPath =
  np_prefix :: string
  np_absolute :: bool
  np_parts :: "string list"

definition has_drive :: "string \<Rightarrow> bool" where
  "has_drive path \<longleftrightarrow>
     2 \<le> length path \<and> (is_upper (path ! 0) \<or> is_lower (path ! 0)) \<and> path ! 1 = CHR '':''"

text \<open>One component of the path, added to the parts so far.\<close>

definition add_part :: "bool \<Rightarrow> string \<Rightarrow> string list \<Rightarrow> string list" where
  "add_part absolute part parts =
     (if part = [] \<or> part = ''.'' then parts
      else if part = ''..'' then
        (if parts \<noteq> [] \<and> last parts \<noteq> ''..'' then butlast parts
         else if \<not> absolute then parts @ [part] else parts)
      else parts @ [part])"

lemma separator_progress:
  assumes "dropWhile P (dropWhile (\<lambda>c. \<not> P c) xs) \<noteq> []"
  shows "length (dropWhile P (dropWhile (\<lambda>c. \<not> P c) xs)) < length xs"
proof (cases xs)
  case (Cons x ys)
  show ?thesis
  proof (cases "P x")
    case True
    with Cons show ?thesis using length_dropWhile_le[of P ys] by simp
  next
    case False
    have "length (dropWhile P (dropWhile (\<lambda>c. \<not> P c) ys)) \<le> length ys"
      using length_dropWhile_le[of P "dropWhile (\<lambda>c. \<not> P c) ys"] length_dropWhile_le[of "\<lambda>c. \<not> P c" ys] by linarith
    with Cons False show ?thesis by simp
  qed
qed (use assms in simp)

function parts_loop :: "bool \<Rightarrow> string \<Rightarrow> string list \<Rightarrow> string list" where
  "parts_loop absolute path parts =
     (let part = takeWhile (\<lambda>c. \<not> is_path_separator c) path;
          rest = dropWhile is_path_separator (dropWhile (\<lambda>c. \<not> is_path_separator c) path);
          parts' = add_part absolute part parts
      in if rest = [] then parts' else parts_loop absolute rest parts')"
  by pat_completeness auto
termination
  by (relation "measure (\<lambda>(absolute, path, parts). length path)") (simp_all only: wf_measure in_measure split_conv, rule separator_progress)

declare parts_loop.simps [simp del]

definition normalize_path :: "string \<Rightarrow> NormalizedPath" where
  "normalize_path path =
     (let prefix = (if has_drive path then take 2 path else []);
          rest = drop (length prefix) path;
          absolute = (rest \<noteq> [] \<and> is_path_separator (hd rest))
      in \<lparr>np_prefix = prefix, np_absolute = absolute,
          np_parts = parts_loop absolute (dropWhile is_path_separator rest) []\<rparr>)"

text \<open>One part appended to a path under construction.\<close>

definition append_part :: "bool \<Rightarrow> string \<Rightarrow> string \<Rightarrow> string" where
  "append_part first part out =
     (if \<not> first \<and> out \<noteq> [] \<and> last out \<noteq> CHR ''/'' then out @ ''/'' else out) @ part"

definition path_root :: "NormalizedPath \<Rightarrow> string" where
  "path_root n = np_prefix n @ (if np_absolute n then ''/'' else [])"

definition normalized_to_string :: "NormalizedPath \<Rightarrow> string" where
  "normalized_to_string n =
     (let out = (case np_parts n of [] \<Rightarrow> path_root n
        | p # ps \<Rightarrow> fold (append_part False) ps (append_part True p (path_root n)))
      in if out = [] then (if np_absolute n then ''/'' else ''.'') else out)"

definition join_path :: "string \<Rightarrow> string \<Rightarrow> string" where
  "join_path base name =
     (if base = [] \<or> base = ''.'' then name
      else (if last base \<noteq> CHR ''/'' then base @ ''/'' else base) @ name)"

section \<open>Requests\<close>

record dir_entry =
  de_name :: string
  de_type :: int

record 'w uv_fs_ops =
  uv_fs_access :: "string \<Rightarrow> 'w \<Rightarrow> int \<times> 'w"
  uv_fs_mkdir :: "string \<Rightarrow> int \<Rightarrow> 'w \<Rightarrow> int \<times> 'w"
  uv_fs_stat :: "string \<Rightarrow> 'w \<Rightarrow> int \<times> nat \<times> 'w"
  uv_fs_unlink :: "string \<Rightarrow> 'w \<Rightarrow> int \<times> 'w"
  uv_fs_rmdir :: "string \<Rightarrow> 'w \<Rightarrow> int \<times> 'w"
  uv_fs_opendir :: "string \<Rightarrow> 'w \<Rightarrow> int \<times> nat \<times> 'w"
  uv_fs_readdir :: "nat \<Rightarrow> nat \<Rightarrow> 'w \<Rightarrow> int \<times> dir_entry list \<times> 'w"
  uv_fs_closedir :: "nat \<Rightarrow> 'w \<Rightarrow> int \<times> 'w"

definition fs_Mkdir :: "'w uv_fs_ops \<Rightarrow> string \<Rightarrow> int \<Rightarrow> 'w \<Rightarrow> unit result \<times> 'w" where
  "fs_Mkdir os path mode w = (case uv_fs_mkdir os path mode w of (r, w') \<Rightarrow> (fs_check ''uv_fs_mkdir'' r (), w'))"

definition fs_Stat :: "'w uv_fs_ops \<Rightarrow> string \<Rightarrow> 'w \<Rightarrow> nat result \<times> 'w" where
  "fs_Stat os path w = (case uv_fs_stat os path w of (r, st_mode, w') \<Rightarrow> (fs_check ''uv_fs_stat'' r st_mode, w'))"

definition fs_Unlink :: "'w uv_fs_ops \<Rightarrow> string \<Rightarrow> 'w \<Rightarrow> unit result \<times> 'w" where
  "fs_Unlink os path w = (case uv_fs_unlink os path w of (r, w') \<Rightarrow> (fs_check ''uv_fs_unlink'' r (), w'))"

definition fs_Rmdir :: "'w uv_fs_ops \<Rightarrow> string \<Rightarrow> 'w \<Rightarrow> unit result \<times> 'w" where
  "fs_Rmdir os path w = (case uv_fs_rmdir os path w of (r, w') \<Rightarrow> (fs_check ''uv_fs_rmdir'' r (), w'))"

definition fs_Opendir :: "'w uv_fs_ops \<Rightarrow> string \<Rightarrow> 'w \<Rightarrow> nat result \<times> 'w" where
  "fs_Opendir os path w = (case uv_fs_opendir os path w of (r, h, w') \<Rightarrow> (fs_check ''uv_fs_opendir'' r h, w'))"

definition fs_Readdir :: "'w uv_fs_ops \<Rightarrow> nat \<Rightarrow> nat \<Rightarrow> 'w \<Rightarrow> dir_entry list result \<times> 'w" where
  "fs_Readdir os h max_entries w =
     (case uv_fs_readdir os h (if max_entries = 0 then 1 else max_entries) w of
        (r, es, w') \<Rightarrow> (fs_check ''uv_fs_readdir'' r (take (nat r) es), w'))"

definition fs_Closedir :: "'w uv_fs_ops \<Rightarrow> nat \<Rightarrow> 'w \<Rightarrow> unit result \<times> 'w" where
  "fs_Closedir os h w = (case uv_fs_closedir os h w of (r, w') \<Rightarrow> (fs_check ''uv_fs_closedir'' r (), w'))"

definition fs_exists :: "'w uv_fs_ops \<Rightarrow> string \<Rightarrow> 'w \<Rightarrow> bool \<times> 'w" where
  "fs_exists os path w = (case uv_fs_access os path w of (r, w') \<Rightarrow> (0 \<le> normalize_uv_fs_rc r, w'))"

text \<open>S_IFMT and S_IFDIR.\<close>

definition is_directory :: "nat \<Rightarrow> bool" where
  "is_directory st_mode \<longleftrightarrow> st_mode AND 61440 = 16384"

section \<open>Directories\<close>

record DirState =
  dr_dir :: "nat option"
  dr_path :: string
  dr_read_inflight :: bool
  dr_closing :: bool

type_synonym Directory = "DirState option"

definition dir_error :: "string \<Rightarrow> exn" where
  "dir_error msg = LogicError (''corouv::io::Directory'' @ msg)"

definition dir_is_open :: "DirState \<Rightarrow> bool" where
  "dir_is_open s \<longleftrightarrow> dr_dir s \<noteq> None \<and> \<not> dr_closing s"

definition dir_acquire :: "string \<Rightarrow> DirState \<Rightarrow> nat result \<times> DirState" where
  "dir_acquire op s =
     (if \<not> dir_is_open s then (Inl (dir_error ('' cannot '' @ op @ '' on a closed directory'')), s)
      else if dr_read_inflight s
      then (Inl (dir_error ('' does not support concurrent '' @ op @ '' operations'')), s)
      else (Inr (the (dr_dir s)), s\<lparr>dr_read_inflight := True\<rparr>))"

definition dir_release :: "DirState \<Rightarrow> DirState" where
  "dir_release s = s\<lparr>dr_read_inflight := False\<rparr>"

definition dir_close_begin :: "DirState \<Rightarrow> nat option result \<times> DirState" where
  "dir_close_begin s =
     (if \<not> dir_is_open s then (Inr None, s)
      else if dr_closing s then (Inl (dir_error ''::close already in progress''), s)
      else if dr_read_inflight s then (Inl (dir_error ''::close requires no read in flight''), s)
      else (Inr (dr_dir s), s\<lparr>dr_closing := True\<rparr>))"

definition dir_close_end :: "bool \<Rightarrow> DirState \<Rightarrow> DirState" where
  "dir_close_end ok s = (if ok then s\<lparr>dr_dir := None, dr_closing := False\<rparr> else s\<lparr>dr_closing := False\<rparr>)"

definition open_directory :: "'w uv_fs_ops \<Rightarrow> string \<Rightarrow> 'w \<Rightarrow> Directory result \<times> 'w" where
  "open_directory os path w =
     (case fs_Opendir os path w of (r, w') \<Rightarrow>
        (map_result (\<lambda>h. Some \<lparr>dr_dir = Some h, dr_path = path, dr_read_inflight = False, dr_closing = False\<rparr>) r, w'))"

definition dir_read_some :: "'w uv_fs_ops \<Rightarrow> nat \<Rightarrow> Directory \<times> 'w \<Rightarrow> dir_entry list result \<times> Directory \<times> 'w" where
  "dir_read_some os max_entries dw =
     (case dw of
        (None, w) \<Rightarrow> (Inl (dir_error '' cannot read_some on an empty directory''), None, w)
      | (Some s, w) \<Rightarrow>
          (case dir_acquire ''read_some'' s of
             (Inl e, s') \<Rightarrow> (Inl e, Some s', w)
           | (Inr h, s') \<Rightarrow>
               (case fs_Readdir os h max_entries w of (r, w') \<Rightarrow> (r, Some (dir_release s'), w'))))"

definition dir_read_one :: "'w uv_fs_ops \<Rightarrow> Directory \<times> 'w \<Rightarrow> dir_entry option result \<times> Directory \<times> 'w" where
  "dir_read_one os dw =
     (case dir_read_some os 1 dw of
        (r, dw') \<Rightarrow> (map_result (\<lambda>batch. if batch = [] then None else Some (hd batch)) r, dw'))"

fun dir_read_all ::
  "nat \<Rightarrow> 'w uv_fs_ops \<Rightarrow> nat \<Rightarrow> dir_entry list \<Rightarrow> Directory \<times> 'w \<Rightarrow> dir_entry list result \<times> Directory \<times> 'w" where
  "dir_read_all 0 os batch_size out dw = (Inl OutOfFuel, dw)"
| "dir_read_all (Suc fuel) os batch_size out dw =
     (case dir_read_some os batch_size dw of
        (Inl e, dw') \<Rightarrow> (Inl e, dw')
      | (Inr batch, dw') \<Rightarrow> if batch = [] then (Inr out, dw') else dir_read_all fuel os batch_size (out @ batch) dw')"

definition dir_close :: "'w uv_fs_ops \<Rightarrow> Directory \<times> 'w \<Rightarrow> unit result \<times> Directory \<times> 'w" where
  "dir_close os dw =
     (case dw of
        (None, w) \<Rightarrow> (Inr (), None, w)
      | (Some s, w) \<Rightarrow>
          (case dir_close_begin s of
             (Inl e, s') \<Rightarrow> (Inl e, Some s', w)
           | (Inr None, s') \<Rightarrow> (Inr (), Some s', w)
           | (Inr (Some h), s') \<Rightarrow>
               (case fs_Closedir os h w of
                  (Inl e, w') \<Rightarrow> (Inl e, Some (dir_close_end False s'), w')
                | (Inr _, w') \<Rightarrow> (Inr (), Some (dir_close_end True s'), w'))))"

text \<open>The destructor of the state closes a directory that is still open.\<close>

definition dir_close_sync :: "'w uv_fs_ops \<Rightarrow> DirState \<times> 'w \<Rightarrow> DirState \<times> 'w" where
  "dir_close_sync os sw =
     (case sw of (s, w) \<Rightarrow>
        (case dr_dir s of
           None \<Rightarrow> (s, w)
         | Some h \<Rightarrow> (s\<lparr>dr_dir := None, dr_read_inflight := False, dr_closing := False\<rparr>, snd (uv_fs_closedir os h w))))"

text \<open>Leaving the scope of a directory after an exception destroys it.\<close>

definition drop_directory :: "'w uv_fs_ops \<Rightarrow> Directory \<times> 'w \<Rightarrow> 'w" where
  "drop_directory os dw = (case dw of (None, w) \<Rightarrow> w | (Some s, w) \<Rightarrow> snd (dir_close_sync os (s, w)))"

definition read_directory :: "nat \<Rightarrow> 'w uv_fs_ops \<Rightarrow> nat \<Rightarrow> string \<Rightarrow> 'w \<Rightarrow> dir_entry list result \<times> 'w" where
  "read_directory fuel os batch_size path w =
     (case open_directory os path w of
        (Inl e, w1) \<Rightarrow> (Inl e, w1)
      | (Inr d, w1) \<Rightarrow>
          (case dir_read_all fuel os batch_size [] (d, w1) of
             (Inl e, dw) \<Rightarrow> (Inl e, drop_directory os dw)
           | (Inr entries, dw) \<Rightarrow>
               (case dir_close os dw of
                  (Inl e, dw') \<Rightarrow> (Inl e, drop_directory os dw')
                | (Inr _, dw') \<Rightarrow> (Inr entries, drop_directory os dw'))))"

section \<open>Creating and removing trees\<close>

definition create_one :: "'w uv_fs_ops \<Rightarrow> int \<Rightarrow> string \<Rightarrow> 'w \<Rightarrow> unit result \<times> 'w" where
  "create_one os mode current w =
     (case fs_exists os current w of
        (True, w1) \<Rightarrow> (Inr (), w1)
      | (False, w1) \<Rightarrow>
          (case fs_Mkdir os current mode w1 of
             (Inr _, w2) \<Rightarrow> (Inr (), w2)
           | (Inl failure, w2) \<Rightarrow>
               (case fs_exists os current w2 of (there, w3) \<Rightarrow> (if there then Inr () else Inl failure, w3))))"

fun create_loop :: "'w uv_fs_ops \<Rightarrow> int \<Rightarrow> bool \<Rightarrow> string \<Rightarrow> string list \<Rightarrow> 'w \<Rightarrow> unit result \<times> 'w" where
  "create_loop os mode first current [] w = (Inr (), w)"
| "create_loop os mode first current (part # parts) w =
     (let current' = append_part first part current
      in case create_one os mode current' w of
           (Inl e, w') \<Rightarrow> (Inl e, w')
         | (Inr _, w') \<Rightarrow> create_loop os mode False current' parts w')"

definition create_directories :: "'w uv_fs_ops \<Rightarrow> string \<Rightarrow> int \<Rightarrow> 'w \<Rightarrow> unit result \<times> 'w" where
  "create_directories os path mode w =
     (let n = normalize_path path
      in if np_parts n = [] then (Inr (), w) else create_loop os mode True (path_root n) (np_parts n) w)"

fun each_entry :: "(dir_entry \<Rightarrow> 'w \<Rightarrow> unit result \<times> 'w) \<Rightarrow> dir_entry list \<Rightarrow> 'w \<Rightarrow> unit result \<times> 'w" where
  "each_entry f [] w = (Inr (), w)"
| "each_entry f (e # es) w = (case f e w of (Inl x, w') \<Rightarrow> (Inl x, w') | (Inr _, w') \<Rightarrow> each_entry f es w')"

text \<open>
  The fuel bounds the depth of the recursion and the turns of the reading
  loop.  Opening, reading and closing the directory are those of
  read_directory with its default batch.
\<close>

primrec remove_all :: "nat \<Rightarrow> 'w uv_fs_ops \<Rightarrow> string \<Rightarrow> 'w \<Rightarrow> unit result \<times> 'w" where
  "remove_all 0 os path w = (Inl OutOfFuel, w)"
| "remove_all (Suc fuel) os path w =
     (case fs_exists os path w of
        (False, w1) \<Rightarrow> (Inr (), w1)
      | (True, w1) \<Rightarrow>
          (case fs_Stat os path w1 of
             (Inl e, w2) \<Rightarrow> (Inl e, w2)
           | (Inr st, w2) \<Rightarrow>
               if \<not> is_directory st then fs_Unlink os path w2
               else (case read_directory fuel os 32 path w2 of
                       (Inl e, w3) \<Rightarrow> (Inl e, w3)
                     | (Inr entries, w3) \<Rightarrow>
                         (case each_entry (\<lambda>e. remove_all fuel os (join_path path (de_name e))) entries w3 of
                            (Inl e, w4) \<Rightarrow> (Inl e, w4)
                          | (Inr _, w4) \<Rightarrow> fs_Rmdir os path w4))))"

section \<open>What a normalised path means\<close>

text \<open>
  The components of a path between its separators, empty ones included, and
  the directory that following components one by one leads to.
\<close>

fun segments :: "string \<Rightarrow> string list" where
  "segments [] = [[]]"
| "segments (c # cs) =
     (if is_path_separator c then [] # segments cs else (c # hd (segments cs)) # tl (segments cs))"

definition step_dir :: "string \<Rightarrow> string list \<Rightarrow> string list" where
  "step_dir part dir =
     (if part = [] \<or> part = ''.'' then dir else if part = ''..'' then butlast dir else dir @ [part])"

definition walk :: "string list \<Rightarrow> string list \<Rightarrow> string list" where
  "walk parts dir = fold step_dir parts dir"

definition plain_part :: "string \<Rightarrow> bool" where
  "plain_part p \<longleftrightarrow> p \<noteq> [] \<and> p \<noteq> ''.'' \<and> p \<noteq> ''..''"

definition canonical :: "bool \<Rightarrow> string list \<Rightarrow> bool" where
  "canonical absolute parts \<longleftrightarrow>
     list_all plain_part (dropWhile (\<lambda>p. p = ''..'') parts) \<and>
     (if absolute then list_all plain_part parts else True)"

lemma segments_not_Nil [simp]: "segments cs \<noteq> []"
  by (cases cs) auto

lemma segments_unfold:
  "segments cs = takeWhile (\<lambda>c. \<not> is_path_separator c) cs #
     (case dropWhile (\<lambda>c. \<not> is_path_separator c) cs of [] \<Rightarrow> [] | _ # r \<Rightarrow> segments r)"
  by (induction cs) auto

lemma fold_skip_separators:
  assumes "f [] = id"
  shows "fold f (segments (dropWhile is_path_separator cs)) = fold f (segments cs)"
  by (induction cs) (simp_all add: assms)

lemma parts_loop_unfold:
  "parts_loop absolute path parts =
     (case dropWhile (\<lambda>c. \<not> is_path_separator c) path of
        [] \<Rightarrow> add_part absolute (takeWhile (\<lambda>c. \<not> is_path_separator c) path) parts
      | _ # r \<Rightarrow>
          if dropWhile is_path_separator r = []
          then add_part absolute (takeWhile (\<lambda>c. \<not> is_path_separator c) path) parts
          else parts_loop absolute (dropWhile is_path_separator r)
                 (add_part absolute (takeWhile (\<lambda>c. \<not> is_path_separator c) path) parts))"
proof (cases "dropWhile (\<lambda>c. \<not> is_path_separator c) path")
  case Nil
  show ?thesis unfolding parts_loop.simps[of absolute path parts] Let_def Nil by simp
next
  case (Cons c r)
  have "is_path_separator c"
    using hd_dropWhile[of "\<lambda>c. \<not> is_path_separator c" path] unfolding Cons by simp
  then show ?thesis unfolding parts_loop.simps[of absolute path parts] Let_def Cons by simp
qed

lemma parts_loop_fold: "parts_loop absolute path parts = fold (add_part absolute) (segments path) parts"
proof (induction "length path" arbitrary: path parts rule: less_induct)
  case less
  let ?part = "takeWhile (\<lambda>c. \<not> is_path_separator c) path"
  have nil: "add_part absolute [] = id" by (simp add: add_part_def fun_eq_iff)
  show ?case
  proof (cases "dropWhile (\<lambda>c. \<not> is_path_separator c) path")
    case Nil
    show ?thesis
      unfolding parts_loop_unfold[of absolute path parts] segments_unfold[of path] Nil by simp
  next
    case (Cons c r)
    have "length (dropWhile is_path_separator r) < length path"
      using length_dropWhile_le[of is_path_separator r] length_dropWhile_le[of "\<lambda>c. \<not> is_path_separator c" path]
      unfolding Cons by simp
    note ih = less.hyps[OF this, of "add_part absolute ?part parts"]
    show ?thesis
      unfolding parts_loop_unfold[of absolute path parts] segments_unfold[of path] Cons list.case ih fold_simps
      using fold_skip_separators[of "add_part absolute" r, OF nil] nil by (cases "dropWhile is_path_separator r = []") (auto simp: fun_eq_iff)
  qed
qed

lemma plain_part_simps [simp]: "\<not> plain_part ''..''" "\<not> plain_part []" "\<not> plain_part ''.''"
  by (simp_all add: plain_part_def)

lemma takeWhile_replicate: "takeWhile (\<lambda>p. p = x) xs = replicate (length (takeWhile (\<lambda>p. p = x) xs)) x"
  by (induction xs) auto

lemma dropWhile_replicate: "qs = [] \<or> hd qs \<noteq> x \<Longrightarrow> dropWhile (\<lambda>p. p = x) (replicate k x @ qs) = qs"
  by (induction k) (cases qs; simp)+

lemma canonical_iff:
  "canonical absolute parts \<longleftrightarrow>
   (\<exists>k qs. parts = replicate k ''..'' @ qs \<and> list_all plain_part qs \<and> (absolute \<longrightarrow> k = 0))"
proof
  assume c: "canonical absolute parts"
  let ?t = "takeWhile (\<lambda>p. p = ''..'') parts" and ?d = "dropWhile (\<lambda>p. p = ''..'') parts"
  have "parts = replicate (length ?t) ''..'' @ ?d"
    unfolding takeWhile_replicate[of "''..''" parts, symmetric] by (simp only: takeWhile_dropWhile_id)
  moreover have "absolute \<longrightarrow> length ?t = 0"
  proof (cases parts)
    case (Cons p ps)
    with c show ?thesis by (cases absolute; cases "p = ''..''") (simp_all add: canonical_def)
  qed simp
  moreover have "list_all plain_part ?d" using c by (simp only: canonical_def)
  ultimately show "\<exists>k qs. parts = replicate k ''..'' @ qs \<and> list_all plain_part qs \<and> (absolute \<longrightarrow> k = 0)"
    by blast
next
  assume "\<exists>k qs. parts = replicate k ''..'' @ qs \<and> list_all plain_part qs \<and> (absolute \<longrightarrow> k = 0)"
  then obtain k qs where p: "parts = replicate k ''..'' @ qs" "list_all plain_part qs" "absolute \<longrightarrow> k = 0" by blast
  have "qs = [] \<or> hd qs \<noteq> ''..''" using p(2) by (cases qs) (auto simp: plain_part_def)
  then have "dropWhile (\<lambda>p. p = ''..'') parts = qs" unfolding p(1) by (rule dropWhile_replicate)
  with p show "canonical absolute parts" by (simp add: canonical_def)
qed

lemma add_part_canonical: "canonical absolute parts \<Longrightarrow> canonical absolute (add_part absolute part parts)"
proof -
  assume "canonical absolute parts"
  then obtain k qs where p: "parts = replicate k ''..'' @ qs" "list_all plain_part qs" "absolute \<longrightarrow> k = 0"
    unfolding canonical_iff by blast
  consider "part = [] \<or> part = ''.''" | "part = ''..''" "qs = []" | "part = ''..''" "qs \<noteq> []" | "plain_part part"
    by (auto simp: plain_part_def)
  then show ?thesis
  proof cases
    case 1
    with p show ?thesis unfolding canonical_iff add_part_def by auto
  next
    case 2
    then have "add_part absolute part parts = (if absolute then [] else replicate (Suc k) ''..'')"
      using p by (cases k) (auto simp: add_part_def replicate_append_same)
    then show ?thesis unfolding canonical_iff by (auto intro: exI[of _ "Suc k"] exI[of _ "[]"])
  next
    case 3
    then have "last qs \<noteq> ''..''" using p(2) last_in_set[of qs] by (auto simp: list_all_iff plain_part_def)
    then have "add_part absolute part parts = replicate k ''..'' @ butlast qs"
      using 3 p(1) by (simp add: add_part_def butlast_append)
    moreover have "list_all plain_part (butlast qs)" using p(2) by (auto simp: list_all_iff dest: in_set_butlastD)
    ultimately show ?thesis using p(3) unfolding canonical_iff by blast
  next
    case 4
    then have "add_part absolute part parts = replicate k ''..'' @ (qs @ [part])" using p(1) by (auto simp: add_part_def plain_part_def)
    moreover have "list_all plain_part (qs @ [part])" using p(2) 4 by simp
    ultimately show ?thesis using p(3) unfolding canonical_iff by blast
  qed
qed

lemma walk_add_part:
  assumes "canonical absolute parts" "absolute \<longrightarrow> dir = []"
  shows "walk (add_part absolute part parts) dir = step_dir part (walk parts dir)"
proof -
  obtain k qs where p: "parts = replicate k ''..'' @ qs" "list_all plain_part qs" "absolute \<longrightarrow> k = 0"
    using assms(1) unfolding canonical_iff by blast
  show ?thesis
  proof (cases "part = ''..''")
    case False
    then show ?thesis by (auto simp: add_part_def walk_def step_dir_def)
  next
    case up: True
    show ?thesis
    proof (cases qs rule: rev_cases)
      case Nil
      have "add_part absolute part parts = (if absolute then [] else parts @ [''..''])"
        using p(1,3) Nil up by (cases k) (simp_all add: add_part_def)
      then show ?thesis using p(1,3) Nil assms(2) up by (auto simp: walk_def step_dir_def)
    next
      case (snoc rs q)
      with p(2) have "plain_part q" by simp
      then show ?thesis using p(1) snoc up by (auto simp: add_part_def walk_def step_dir_def butlast_append plain_part_def)
    qed
  qed
qed

lemma walk_fold_add_part:
  assumes "canonical absolute parts" "absolute \<longrightarrow> dir = []"
  shows "canonical absolute (fold (add_part absolute) ss parts) \<and>
    walk (fold (add_part absolute) ss parts) dir = walk ss (walk parts dir)"
  using assms(1)
proof (induction ss arbitrary: parts)
  case (Cons t ss)
  have "canonical absolute (add_part absolute t parts)" by (rule add_part_canonical[OF Cons.prems])
  from Cons.IH[OF this] show ?case
    using walk_add_part[OF Cons.prems assms(2), of t] by (simp add: walk_def)
qed (simp add: walk_def)

lemma normalize_path_parts:
  "np_parts (normalize_path path) =
   fold (add_part (np_absolute (normalize_path path)))
     (segments (dropWhile is_path_separator (drop (length (np_prefix (normalize_path path))) path))) []"
  by (simp add: normalize_path_def Let_def parts_loop_fold)

lemma canonical_Nil: "canonical a []"
  by (simp add: canonical_def)

lemma normalize_path_canonical:
  "canonical (np_absolute (normalize_path path)) (np_parts (normalize_path path))"
  unfolding normalize_path_parts[of path]
  by (rule walk_fold_add_part[OF canonical_Nil, where dir = "[]", THEN conjunct1]) simp

text \<open>
  C26: the parts of a normalised path lead to the same directory as the
  components the path was written with, from every starting directory (from
  the root for an absolute path), and they are canonical: no empty component
  and no dot, the dot-dots only in front, and none in an absolute path.
\<close>

theorem normalize_path_walk:
  "let n = normalize_path path; start = (if np_absolute n then [] else cwd)
   in walk (np_parts n) start = walk (segments (drop (length (np_prefix n)) path)) start \<and>
      canonical (np_absolute n) (np_parts n)"
proof -
  let ?n = "normalize_path path" and ?rest = "drop (length (np_prefix (normalize_path path))) path"
  let ?start = "if np_absolute ?n then [] else cwd"
  have "step_dir [] = id" by (simp add: step_dir_def fun_eq_iff)
  then have "walk (segments (dropWhile is_path_separator ?rest)) ?start = walk (segments ?rest) ?start"
    by (simp add: walk_def fold_skip_separators)
  moreover have "walk (np_parts ?n) ?start = walk (segments (dropWhile is_path_separator ?rest)) ?start"
    unfolding normalize_path_parts[of path]
    using walk_fold_add_part[OF canonical_Nil, of "np_absolute ?n" ?start "segments (dropWhile is_path_separator ?rest)"]
    by (simp add: walk_def)
  ultimately show ?thesis by (simp add: Let_def normalize_path_canonical)
qed

section \<open>Trees of files and directories\<close>

text \<open>
  What the operating system promises of a tree without links, as a map from
  lists of names to kinds: access and stat answer from the map, mkdir adds a
  directory below an existing one, unlink removes a file, rmdir an empty
  directory, and reading a directory lists the names it holds, some at a
  time.  The root is always there.  The contract holds of the paths in D,
  which the operating system is given under the names nm.
\<close>

datatype kind = FileK | DirK

definition valid_name :: "string \<Rightarrow> bool" where
  "valid_name n \<longleftrightarrow> plain_part n \<and> list_all (\<lambda>c. \<not> is_path_separator c) n"

definition path_of :: "string list \<Rightarrow> string" where
  "path_of ns = concat (map (\<lambda>n. CHR ''/'' # n) ns)"

type_synonym tree = "string list \<Rightarrow> kind option"

definition tree_ok :: "tree \<Rightarrow> bool" where
  "tree_ok t \<longleftrightarrow> finite (dom t) \<and>
     (\<forall>ns n. t (ns @ [n]) \<noteq> None \<longrightarrow> valid_name n \<and> (ns \<noteq> [] \<longrightarrow> t ns = Some DirK))"

definition tree_paths :: "string list set" where
  "tree_paths = {ns. ns \<noteq> [] \<and> list_all valid_name ns}"

definition fs_contract ::
  "'w uv_fs_ops \<Rightarrow> (string list \<Rightarrow> string) \<Rightarrow> string list set \<Rightarrow> ('w \<Rightarrow> tree) \<Rightarrow>
   ('w \<Rightarrow> nat \<Rightarrow> dir_entry list) \<Rightarrow> bool" where
  "fs_contract os nm D view pending \<longleftrightarrow>
     (\<forall>w. \<forall>ns \<in> D.
        (\<exists>r w'. uv_fs_access os (nm ns) w = (r, w') \<and> view w' = view w \<and>
           r = (if view w ns = None then - 2 else 0)) \<and>
        (view w ns = None \<longrightarrow> (butlast ns = [] \<or> view w (butlast ns) = Some DirK) \<longrightarrow>
           (\<forall>mode. \<exists>w'. uv_fs_mkdir os (nm ns) mode w = (0, w') \<and> view w' = (view w)(ns \<mapsto> DirK))) \<and>
        (view w ns \<noteq> None \<longrightarrow>
           (\<exists>m w'. uv_fs_stat os (nm ns) w = (0, m, w') \<and> view w' = view w \<and>
              is_directory m = (view w ns = Some DirK))) \<and>
        (view w ns = Some FileK \<longrightarrow>
           (\<exists>w'. uv_fs_unlink os (nm ns) w = (0, w') \<and> view w' = (view w)(ns := None))) \<and>
        (view w ns = Some DirK \<longrightarrow> (\<forall>n. view w (ns @ [n]) = None) \<longrightarrow>
           (\<exists>w'. uv_fs_rmdir os (nm ns) w = (0, w') \<and> view w' = (view w)(ns := None))) \<and>
        (view w ns = Some DirK \<longrightarrow>
           (\<exists>h w'. uv_fs_opendir os (nm ns) w = (0, h, w') \<and> view w' = view w \<and>
              distinct (map de_name (pending w' h)) \<and>
              de_name ` set (pending w' h) = {n. view w (ns @ [n]) \<noteq> None}))) \<and>
     (\<forall>w h cap. 0 < cap \<longrightarrow>
        (\<exists>k w'. uv_fs_readdir os h cap w = (int k, take k (pending w h), w') \<and> view w' = view w \<and>
           pending w' h = drop k (pending w h) \<and> k \<le> length (pending w h) \<and>
           (k = 0 \<longrightarrow> pending w h = []) \<and> k < 2 ^ 31)) \<and>
     (\<forall>w h. \<exists>w'. uv_fs_closedir os h w = (0, w') \<and> view w' = view w)"

lemma fs_contract_access:
  assumes "fs_contract os nm D view pending" "ns \<in> D"
  shows "\<exists>w'. fs_exists os (nm ns) w = (view w ns \<noteq> None, w') \<and> view w' = view w"
proof -
  obtain r w' where "uv_fs_access os (nm ns) w = (r, w')" "view w' = view w" "r = (if view w ns = None then - 2 else 0)"
    using assms unfolding fs_contract_def by meson
  then show ?thesis by (auto simp: fs_exists_def normalize_uv_fs_rc_def)
qed

lemma fs_contract_mkdir:
  assumes "fs_contract os nm D view pending" "ns \<in> D" "view w ns = None"
    and "butlast ns = [] \<or> view w (butlast ns) = Some DirK"
  shows "\<exists>w'. fs_Mkdir os (nm ns) mode w = (Inr (), w') \<and> view w' = (view w)(ns \<mapsto> DirK)"
proof -
  obtain w' where "uv_fs_mkdir os (nm ns) mode w = (0, w')" "view w' = (view w)(ns \<mapsto> DirK)"
    using assms unfolding fs_contract_def by meson
  then show ?thesis by (auto simp: fs_Mkdir_def fs_check_def normalize_uv_fs_rc_def)
qed

lemma fs_contract_stat:
  assumes "fs_contract os nm D view pending" "ns \<in> D" "view w ns \<noteq> None"
  shows "\<exists>m w'. fs_Stat os (nm ns) w = (Inr m, w') \<and> view w' = view w \<and> is_directory m = (view w ns = Some DirK)"
proof -
  obtain m w' where "uv_fs_stat os (nm ns) w = (0, m, w')" "view w' = view w" "is_directory m = (view w ns = Some DirK)"
    using assms unfolding fs_contract_def by meson
  then show ?thesis by (auto simp: fs_Stat_def fs_check_def normalize_uv_fs_rc_def)
qed

lemma fs_contract_unlink:
  assumes "fs_contract os nm D view pending" "ns \<in> D" "view w ns = Some FileK"
  shows "\<exists>w'. fs_Unlink os (nm ns) w = (Inr (), w') \<and> view w' = (view w)(ns := None)"
proof -
  obtain w' where "uv_fs_unlink os (nm ns) w = (0, w')" "view w' = (view w)(ns := None)"
    using assms unfolding fs_contract_def by meson
  then show ?thesis by (auto simp: fs_Unlink_def fs_check_def normalize_uv_fs_rc_def)
qed

lemma fs_contract_rmdir:
  assumes "fs_contract os nm D view pending" "ns \<in> D" "view w ns = Some DirK"
    and "\<forall>n. view w (ns @ [n]) = None"
  shows "\<exists>w'. fs_Rmdir os (nm ns) w = (Inr (), w') \<and> view w' = (view w)(ns := None)"
proof -
  obtain w' where "uv_fs_rmdir os (nm ns) w = (0, w')" "view w' = (view w)(ns := None)"
    using assms unfolding fs_contract_def by meson
  then show ?thesis by (auto simp: fs_Rmdir_def fs_check_def normalize_uv_fs_rc_def)
qed

lemma fs_contract_opendir:
  assumes "fs_contract os nm D view pending" "ns \<in> D" "view w ns = Some DirK"
  shows "\<exists>h w'. fs_Opendir os (nm ns) w = (Inr h, w') \<and> view w' = view w \<and>
    distinct (map de_name (pending w' h)) \<and> de_name ` set (pending w' h) = {n. view w (ns @ [n]) \<noteq> None}"
proof -
  obtain h w' where "uv_fs_opendir os (nm ns) w = (0, h, w')" "view w' = view w"
    "distinct (map de_name (pending w' h))" "de_name ` set (pending w' h) = {n. view w (ns @ [n]) \<noteq> None}"
    using assms unfolding fs_contract_def by meson
  then show ?thesis by (auto simp: fs_Opendir_def fs_check_def normalize_uv_fs_rc_def)
qed

lemma fs_contract_readdir:
  assumes "fs_contract os nm D view pending"
  shows "\<exists>k w'. fs_Readdir os h max_entries w = (Inr (take k (pending w h)), w') \<and> view w' = view w \<and>
    pending w' h = drop k (pending w h) \<and> k \<le> length (pending w h) \<and> (k = 0 \<longrightarrow> pending w h = [])"
proof -
  let ?cap = "if max_entries = 0 then 1 else max_entries"
  have cap: "0 < ?cap" by simp
  have rd: "\<forall>w h cap. 0 < cap \<longrightarrow>
        (\<exists>k w'. uv_fs_readdir os h cap w = (int k, take k (pending w h), w') \<and> view w' = view w \<and>
           pending w' h = drop k (pending w h) \<and> k \<le> length (pending w h) \<and>
           (k = 0 \<longrightarrow> pending w h = []) \<and> k < 2 ^ 31)"
    using assms unfolding fs_contract_def by (elim conjE)
  obtain k w' where "uv_fs_readdir os h ?cap w = (int k, take k (pending w h), w')" "view w' = view w"
    "pending w' h = drop k (pending w h)" "k \<le> length (pending w h)" "k = 0 \<longrightarrow> pending w h = []" "k < 2 ^ 31"
    using rd[rule_format, OF cap, of h w] by blast
  then show ?thesis by (auto simp: fs_Readdir_def fs_check_small)
qed

lemma fs_contract_closedir:
  assumes "fs_contract os nm D view pending"
  shows "\<exists>w'. fs_Closedir os h w = (Inr (), w') \<and> view w' = view w"
proof -
  obtain w' where "uv_fs_closedir os h w = (0, w')" "view w' = view w"
    using assms unfolding fs_contract_def by meson
  then show ?thesis by (auto simp: fs_Closedir_def fs_check_def normalize_uv_fs_rc_def)
qed

lemma dir_read_all_lists:
  assumes "fs_contract os nm D view pending" "dir_is_open s" "dr_dir s = Some h" "\<not> dr_read_inflight s"
    and "length (pending w h) < fuel"
  shows "\<exists>w'. dir_read_all fuel os batch_size out (Some s, w) = (Inr (out @ pending w h), Some s, w') \<and> view w' = view w"
  using assms(5)
proof (induction fuel arbitrary: out w)
  case (Suc fuel)
  obtain k w1 where k: "fs_Readdir os h batch_size w = (Inr (take k (pending w h)), w1)" "view w1 = view w"
    "pending w1 h = drop k (pending w h)" "k \<le> length (pending w h)" "k = 0 \<longrightarrow> pending w h = []"
    using fs_contract_readdir[OF assms(1)] by blast
  have "(s\<lparr>dr_read_inflight := True\<rparr>)\<lparr>dr_read_inflight := False\<rparr> = s" using assms(4) by simp
  then have r: "dir_read_some os batch_size (Some s, w) = (Inr (take k (pending w h)), Some s, w1)"
    using assms(2-4) k(1) by (simp add: dir_read_some_def dir_acquire_def dir_release_def)
  show ?case
  proof (cases "take k (pending w h) = []")
    case True
    then have "pending w h = []" using k(4,5) by auto
    with r k(2) show ?thesis by simp
  next
    case False
    then have "length (pending w1 h) < fuel" using Suc.prems k(3,4) by (cases k) auto
    from Suc.IH[OF this, of "out @ take k (pending w h)"] show ?thesis using r False k(2,3) by auto
  qed
qed simp

lemma read_directory_opened:
  assumes "fs_contract os nm D view pending" "fs_Opendir os path w = (Inr h, w1)" "distinct (map de_name (pending w1 h))"
    and "card (de_name ` set (pending w1 h)) < fuel"
  shows "\<exists>w'. read_directory fuel os batch_size path w = (Inr (pending w1 h), w') \<and> view w' = view w1"
proof -
  have len: "length (pending w1 h) < fuel" using distinct_card[OF assms(3)] assms(4) by simp
  let ?s = "\<lparr>dr_dir = Some h, dr_path = path, dr_read_inflight = False, dr_closing = False\<rparr>"
  obtain w2 where r: "dir_read_all fuel os batch_size [] (Some ?s, w1) = (Inr (pending w1 h), Some ?s, w2)" "view w2 = view w1"
    using dir_read_all_lists[OF assms(1) _ _ _ len, of ?s batch_size "[]"] by (auto simp: dir_is_open_def)
  obtain w3 where "fs_Closedir os h w2 = (Inr (), w3)" "view w3 = view w2" using fs_contract_closedir[OF assms(1)] by blast
  then show ?thesis using assms(2) r
    by (auto simp: read_directory_def open_directory_def dir_close_def dir_close_begin_def dir_close_end_def
        dir_is_open_def drop_directory_def dir_close_sync_def)
qed

lemma read_directory_lists:
  assumes "fs_contract os nm D view pending" "ns \<in> D" "view w ns = Some DirK"
    and "card {n. view w (ns @ [n]) \<noteq> None} < fuel"
  shows "\<exists>es w'. read_directory fuel os batch_size (nm ns) w = (Inr es, w') \<and> view w' = view w \<and>
    de_name ` set es = {n. view w (ns @ [n]) \<noteq> None}"
proof -
  obtain h w1 where o: "fs_Opendir os (nm ns) w = (Inr h, w1)" "view w1 = view w"
    "distinct (map de_name (pending w1 h))" "de_name ` set (pending w1 h) = {n. view w (ns @ [n]) \<noteq> None}"
    using fs_contract_opendir[OF assms(1-3)] by blast
  then obtain w' where "read_directory fuel os batch_size (nm ns) w = (Inr (pending w1 h), w')" "view w' = view w1"
    using read_directory_opened[OF assms(1) o(1,3), of fuel batch_size] assms(4) by auto
  with o(2,4) show ?thesis by metis
qed

lemma path_of_snoc: "path_of (ns @ [n]) = path_of ns @ CHR ''/'' # n"
  by (simp add: path_of_def)

lemma path_of_last:
  assumes "ns \<noteq> []" "list_all valid_name ns"
  shows "path_of ns \<noteq> [] \<and> hd (path_of ns) = CHR ''/'' \<and> last (path_of ns) \<noteq> CHR ''/''"
proof -
  obtain ms n where ns: "ns = ms @ [n]" using assms(1) by (cases ns rule: rev_cases) auto
  have n: "n \<noteq> []" "CHR ''/'' \<notin> set n"
    using assms(2) ns by (auto simp: valid_name_def plain_part_def list_all_iff is_path_separator_def)
  then have "last n \<noteq> CHR ''/''" using last_in_set by metis
  moreover have "hd (path_of ns) = CHR ''/''" using assms(1) by (cases ns) (simp_all add: path_of_def)
  ultimately show ?thesis using n(1) by (simp add: ns path_of_snoc)
qed

lemma path_of_extend:
  assumes "ns \<noteq> []" "list_all valid_name ns"
  shows "append_part False n (path_of ns) = path_of (ns @ [n])" "join_path (path_of ns) n = path_of (ns @ [n])"
  using path_of_last[OF assms] by (auto simp: append_part_def join_path_def path_of_snoc)

section \<open>create_directories makes the whole path\<close>

lemma create_loop_creates:
  assumes "fs_contract os path_of tree_paths view pending" "list_all valid_name (ds @ ps)" "ds = [] \<or> view w ds = Some DirK"
    and "\<forall>q. strict_prefix ds q \<and> prefix q (ds @ ps) \<longrightarrow> view w q \<noteq> Some FileK"
  shows "\<exists>w'. create_loop os mode (ds = []) (if ds = [] then ''/'' else path_of ds) ps w = (Inr (), w') \<and>
    view w' = (\<lambda>q. if strict_prefix ds q \<and> prefix q (ds @ ps) then Some DirK else view w q)"
  using assms(2-4)
proof (induction ps arbitrary: ds w)
  case Nil
  have "\<not> (strict_prefix ds q \<and> prefix q ds)" for q by (auto simp: strict_prefix_def dest: prefix_order.antisym)
  then show ?case by (auto simp: fun_eq_iff)
next
  case (Cons p ps)
  let ?d = "ds @ [p]"
  have v: "?d \<in> tree_paths" "list_all valid_name (?d @ ps)" using Cons.prems(1) by (simp_all add: tree_paths_def)
  have cur: "append_part (ds = []) p (if ds = [] then ''/'' else path_of ds) = path_of ?d"
    using path_of_extend(1)[of ds p] Cons.prems(1) by (auto simp: append_part_def path_of_def)
  have notfile: "view w ?d \<noteq> Some FileK" using Cons.prems(3) by (simp add: strict_prefix_def prefix_def)
  obtain w1 where w1: "fs_exists os (path_of ?d) w = (view w ?d \<noteq> None, w1)" "view w1 = view w"
    using fs_contract_access[OF assms(1) v(1)] by blast
  have "\<exists>w2. create_one os mode (path_of ?d) w = (Inr (), w2) \<and> view w2 = (view w)(?d \<mapsto> DirK)"
  proof (cases "view w ?d")
    case None
    then obtain w2 where "fs_Mkdir os (path_of ?d) mode w1 = (Inr (), w2)" "view w2 = (view w1)(?d \<mapsto> DirK)"
      using fs_contract_mkdir[OF assms(1) v(1), of w1 mode] Cons.prems(2) w1(2) by auto
    with None w1 show ?thesis by (auto simp: create_one_def)
  next
    case (Some k)
    then have "view w ?d = Some DirK" using notfile by (cases k) auto
    with w1 show ?thesis by (auto simp: create_one_def)
  qed
  then obtain w2 where w2: "create_one os mode (path_of ?d) w = (Inr (), w2)" "view w2 = (view w)(?d \<mapsto> DirK)" by blast
  have "\<forall>q. strict_prefix ?d q \<and> prefix q (?d @ ps) \<longrightarrow> view w2 q \<noteq> Some FileK"
    using Cons.prems(3) w2(2) by (auto simp: strict_prefix_def dest: append_prefixD)
  then obtain w' where w': "create_loop os mode False (path_of ?d) ps w2 = (Inr (), w')"
    "view w' = (\<lambda>q. if strict_prefix ?d q \<and> prefix q (?d @ ps) then Some DirK else view w2 q)"
    using Cons.IH[OF v(2), of w2] w2(2) by auto
  have "(strict_prefix ?d q \<and> prefix q (?d @ ps) \<or> q = ?d) = (strict_prefix ds q \<and> prefix q (ds @ p # ps))" for q
    by (auto simp: strict_prefix_def prefix_def append_eq_append_conv2 Cons_eq_append_conv)
  then have "view w' = (\<lambda>q. if strict_prefix ds q \<and> prefix q (ds @ p # ps) then Some DirK else view w q)"
    unfolding w'(2) w2(2) by (auto simp: fun_eq_iff)
  then show ?case using w' w2 by (simp add: Let_def cur)
qed

lemma segments_plain: "s \<in> set (segments cs) \<Longrightarrow> \<forall>c \<in> set s. \<not> is_path_separator c"
proof (induction cs arbitrary: s)
  case (Cons c cs)
  have "\<forall>c \<in> set (hd (segments cs)). \<not> is_path_separator c" using Cons.IH[of "hd (segments cs)"] by simp
  moreover have "set (tl (segments cs)) \<subseteq> set (segments cs)" by (simp add: list.set_sel(2) subsetI)
  ultimately show ?case using Cons by (auto split: if_splits)
qed simp

lemma fold_add_part_set: "set (fold (add_part a) ss ps) \<subseteq> set ps \<union> set ss"
proof (induction ss arbitrary: ps)
  case (Cons s ss)
  have "set (add_part a s ps) \<subseteq> insert s (set ps)"
    by (auto simp: add_part_def dest: in_set_butlastD)
  with Cons.IH[of "add_part a s ps"] show ?case by auto
qed simp

lemma absolute_parts_valid:
  assumes "np_absolute (normalize_path path)"
  shows "list_all valid_name (np_parts (normalize_path path))"
proof -
  let ?n = "normalize_path path"
  have "canonical True (np_parts ?n)" using normalize_path_canonical[of path] assms by simp
  then have "list_all plain_part (np_parts ?n)" by (simp add: canonical_def)
  moreover have "\<forall>s \<in> set (np_parts ?n). \<forall>c \<in> set s. \<not> is_path_separator c"
    unfolding normalize_path_parts[of path] using fold_add_part_set segments_plain by fastforce
  ultimately show ?thesis by (simp add: list_all_iff valid_name_def)
qed

text \<open>In a tree without links, create_directories with an absolute path
  none of whose steps is a file succeeds, and the tree it leaves has every
  directory of the normalised path and is unchanged elsewhere.\<close>

theorem create_directories_creates:
  assumes "fs_contract os path_of tree_paths view pending" "np_absolute (normalize_path path)" "np_prefix (normalize_path path) = []"
    and "\<forall>q. q \<noteq> [] \<and> prefix q (np_parts (normalize_path path)) \<longrightarrow> view w q \<noteq> Some FileK"
  shows "\<exists>w'. create_directories os path mode w = (Inr (), w') \<and>
    view w' = (\<lambda>q. if q \<noteq> [] \<and> prefix q (np_parts (normalize_path path)) then Some DirK else view w q)"
proof -
  let ?n = "normalize_path path"
  have ne: "strict_prefix [] q = (q \<noteq> [])" for q :: "string list" by (auto simp: strict_prefix_def)
  show ?thesis
    using create_loop_creates[OF assms(1), of "[]" "np_parts ?n" w mode] absolute_parts_valid[OF assms(2)] assms(2-4)
    by (auto simp: create_directories_def Let_def path_root_def ne)
qed

section \<open>remove_all removes exactly the subtree\<close>

definition below :: "tree \<Rightarrow> string list \<Rightarrow> string list set" where
  "below t ns = {q \<in> dom t. prefix ns q}"

definition without :: "tree \<Rightarrow> string list set \<Rightarrow> tree" where
  "without t roots = (\<lambda>q. if \<exists>r \<in> roots. prefix r q then None else t q)"

lemma tree_ok_parent:
  assumes "tree_ok t" "t (ns @ zs) \<noteq> None" "ns \<noteq> []" "zs \<noteq> []"
  shows "t ns = Some DirK"
  using assms(2,4)
proof (induction zs rule: rev_induct)
  case (snoc z zs)
  have "t (ns @ zs) = Some DirK" using assms(1,3) snoc.prems(1) by (auto simp: tree_ok_def simp flip: append_assoc)
  then show ?case using snoc.IH by (cases "zs = []") auto
qed simp

lemma below_absent:
  assumes "tree_ok t" "ns \<noteq> []" "t ns = None"
  shows "below t ns = {}" "without t {ns} = t"
proof -
  have none: "t q = None" if pre: "prefix ns q" for q
  proof (rule ccontr)
    assume "t q \<noteq> None"
    moreover obtain zs where "q = ns @ zs" using pre by (auto simp: prefix_def)
    ultimately show False using tree_ok_parent[OF assms(1), of ns zs] assms(2,3) by (cases "zs = []") auto
  qed
  then show "below t ns = {}" by (auto simp: below_def)
  show "without t {ns} = t" using none by (auto simp: without_def fun_eq_iff)
qed

lemma tree_ok_without:
  assumes "tree_ok t" "[] \<notin> roots"
  shows "tree_ok (without t roots)"
  unfolding tree_ok_def
proof (intro conjI allI impI)
  have "dom (without t roots) \<subseteq> dom t" by (auto simp: without_def split: if_splits)
  then show "finite (dom (without t roots))" using assms(1) by (auto simp: tree_ok_def intro: finite_subset)
next
  fix ns n assume a: "without t roots (ns @ [n]) \<noteq> None"
  then have t: "t (ns @ [n]) \<noteq> None" and p: "\<not> (\<exists>r \<in> roots. prefix r (ns @ [n]))"
    by (auto simp: without_def split: if_splits)
  show "valid_name n" using assms(1) t by (simp add: tree_ok_def)
  assume "ns \<noteq> []"
  then have "t ns = Some DirK" using assms(1) t by (simp add: tree_ok_def)
  moreover have "\<not> (\<exists>r \<in> roots. prefix r ns)" using p by (meson prefix_prefix)
  ultimately show "without t roots ns = Some DirK" by (simp add: without_def)
qed

lemma below_without: "below (without t roots) ns \<subseteq> below t ns"
  by (auto simp: below_def without_def split: if_splits)

lemma finite_below: "tree_ok t \<Longrightarrow> finite (below t ns)"
  by (auto simp: tree_ok_def below_def intro: finite_subset[of _ "dom t"])

lemma below_child:
  assumes "tree_ok t" "t ns \<noteq> None"
  shows "card (below t (ns @ [n])) < card (below t ns)"
proof (rule psubset_card_mono[OF finite_below[OF assms(1)]])
  have "ns \<in> below t ns" "ns \<notin> below t (ns @ [n])" using assms(2) by (auto simp: below_def dom_def)
  moreover have "below t (ns @ [n]) \<subseteq> below t ns" by (auto simp: below_def dest: append_prefixD)
  ultimately show "below t (ns @ [n]) \<subset> below t ns" by blast
qed

lemma children_fewer:
  assumes "tree_ok t" "t ns \<noteq> None"
  shows "card {n. t (ns @ [n]) \<noteq> None} < card (below t ns)"
proof -
  let ?c = "{n. t (ns @ [n]) \<noteq> None}"
  have "(\<lambda>n. ns @ [n]) ` ?c \<subset> below t ns" using assms(2) by (auto simp: below_def dom_def psubset_eq)
  then have "card ((\<lambda>n. ns @ [n]) ` ?c) < card (below t ns)"
    by (rule psubset_card_mono[OF finite_below[OF assms(1)]])
  moreover have "card ((\<lambda>n. ns @ [n]) ` ?c) = card ?c" by (rule card_image) (simp add: inj_on_def)
  ultimately show ?thesis by simp
qed

lemma each_entry_removes:
  assumes sub: "\<And>n w. n \<in> de_name ` set es \<Longrightarrow> tree_ok (view w) \<Longrightarrow> card (below (view w) (ns @ [n])) < fuel \<Longrightarrow>
      \<exists>w'. f n w = (Inr (), w') \<and> view w' = without (view w) {ns @ [n]}"
    and "tree_ok (view w)" "\<forall>n \<in> de_name ` set es. card (below (view w) (ns @ [n])) < fuel"
  shows "\<exists>w'. each_entry (\<lambda>e. f (de_name e)) es w = (Inr (), w') \<and>
    view w' = without (view w) ((\<lambda>n. ns @ [n]) ` de_name ` set es)"
  using assms
proof (induction es arbitrary: w)
  case Nil
  then show ?case by (simp add: without_def)
next
  case (Cons e es)
  obtain w1 where w1: "f (de_name e) w = (Inr (), w1)" "view w1 = without (view w) {ns @ [de_name e]}"
    using Cons.prems(1)[of "de_name e" w] Cons.prems(2,3) by auto
  have ok: "tree_ok (view w1)" unfolding w1(2) by (rule tree_ok_without[OF Cons.prems(2)]) simp
  have "card (below (view w1) (ns @ [n])) \<le> card (below (view w) (ns @ [n]))" for n
    unfolding w1(2) by (rule card_mono[OF finite_below[OF Cons.prems(2)] below_without])
  then have "\<forall>n \<in> de_name ` set es. card (below (view w1) (ns @ [n])) < fuel"
    using Cons.prems(3) by (auto intro: le_less_trans)
  from Cons.IH[OF _ ok this] obtain w' where w': "each_entry (\<lambda>e. f (de_name e)) es w1 = (Inr (), w')"
    "view w' = without (view w1) ((\<lambda>n. ns @ [n]) ` de_name ` set es)"
    using Cons.prems(1) by auto
  have "view w' = without (view w) ((\<lambda>n. ns @ [n]) ` de_name ` set (e # es))"
    unfolding w'(2) w1(2) by (auto simp: without_def fun_eq_iff)
  then show ?case using w1(1) w'(1) by auto
qed

lemma without_absent_children:
  assumes "tree_ok t"
  shows "without t ((\<lambda>n. ns @ [n]) ` {n. t (ns @ [n]) \<noteq> None}) = without t {ns @ [n] | n. True}"
proof (rule ext)
  fix q
  have "t q = None" if "prefix (ns @ [n]) q" "t (ns @ [n]) = None" for n
    using below_absent(1)[OF assms _ that(2)] that(1) by (auto simp: below_def)
  then show "without t ((\<lambda>n. ns @ [n]) ` {n. t (ns @ [n]) \<noteq> None}) q = without t {ns @ [n] | n. True} q"
    by (auto simp: without_def)
qed

lemma without_children:
  assumes "tree_ok t" "ns \<noteq> []" "t ns \<noteq> None"
  shows "(without t ((\<lambda>n. ns @ [n]) ` {n. t (ns @ [n]) \<noteq> None}))(ns := None) = without t {ns}"
proof (rule ext)
  fix q
  show "((without t ((\<lambda>n. ns @ [n]) ` {n. t (ns @ [n]) \<noteq> None}))(ns := None)) q = without t {ns} q"
  proof (cases "prefix ns q \<and> q \<noteq> ns")
    case True
    then obtain z zs where q: "q = ns @ z # zs" by (auto simp: prefix_def) (metis append_Nil2 list.exhaust)
    have "t q = None" if "t (ns @ [z]) = None"
      using below_absent(1)[OF assms(1) _ that] q by (auto simp: below_def prefix_def)
    then show ?thesis using q by (auto simp: without_def prefix_def)
  next
    case False
    then show ?thesis by (auto simp: without_def dest: append_prefixD)
  qed
qed

text \<open>
  The names below a directory: D holds with a path the paths of its entries,
  and join_path builds their names.
\<close>

definition names_below :: "(string list \<Rightarrow> string) \<Rightarrow> string list set \<Rightarrow> bool" where
  "names_below nm D \<longleftrightarrow> (\<forall>ns \<in> D. ns \<noteq> [] \<and>
     (\<forall>n. valid_name n \<longrightarrow> ns @ [n] \<in> D \<and> join_path (nm ns) n = nm (ns @ [n])))"

lemma names_below_tree: "names_below path_of tree_paths"
  by (auto simp: names_below_def tree_paths_def path_of_extend)

lemma remove_entries:
  assumes "tree_ok (view w)" "view w ns \<noteq> None" "card (below (view w) ns) \<le> fuel"
    and "de_name ` set es = {n. view w (ns @ [n]) \<noteq> None}"
    and "\<And>n v. valid_name n \<Longrightarrow> tree_ok (view v) \<Longrightarrow> card (below (view v) (ns @ [n])) < fuel \<Longrightarrow>
      \<exists>w'. f n v = (Inr (), w') \<and> view w' = without (view v) {ns @ [n]}"
  shows "\<exists>w'. each_entry (\<lambda>e. f (de_name e)) es w = (Inr (), w') \<and>
    view w' = without (view w) ((\<lambda>n. ns @ [n]) ` {n. view w (ns @ [n]) \<noteq> None})"
proof -
  have "valid_name n" if "n \<in> de_name ` set es" for n using assms(1,4) that by (auto simp: tree_ok_def)
  moreover have "\<forall>n \<in> de_name ` set es. card (below (view w) (ns @ [n])) < fuel"
    using below_child[OF assms(1,2)] assms(3) by (auto intro: less_le_trans)
  ultimately show ?thesis
    using each_entry_removes[of es view ns fuel f w] assms(1,4,5) by auto
qed

lemma remove_file_here:
  assumes "fs_contract os nm D view pending" "ns \<in> D" "ns \<noteq> []" "tree_ok (view w)" "view w ns = Some FileK"
  shows "\<exists>w'. fs_Unlink os (nm ns) w = (Inr (), w') \<and> view w' = without (view w) {ns}"
proof -
  obtain w' where "fs_Unlink os (nm ns) w = (Inr (), w')" "view w' = (view w)(ns := None)"
    using fs_contract_unlink[OF assms(1,2,5)] by blast
  moreover have "view w (ns @ [n]) = None" for n
    using tree_ok_parent[OF assms(4), of ns "[n]"] assms(3,5) by (cases "view w (ns @ [n])") auto
  ultimately show ?thesis
    using without_children[OF assms(4,3)] assms(5) by (simp add: without_def)
qed

lemma remove_directory_here:
  assumes "fs_contract os nm D view pending" "ns \<in> D" "ns \<noteq> []" "tree_ok (view w)" "view w ns = Some DirK"
    and "view w' = without (view w) ((\<lambda>n. ns @ [n]) ` {n. view w (ns @ [n]) \<noteq> None})"
  shows "\<exists>w''. fs_Rmdir os (nm ns) w' = (Inr (), w'') \<and> view w'' = without (view w) {ns}"
proof -
  have "view w' ns = Some DirK" "\<forall>n. view w' (ns @ [n]) = None"
    using assms(5) unfolding assms(6) by (auto simp: without_def)
  from fs_contract_rmdir[OF assms(1,2) this] without_children[OF assms(4,3)] assms(5,6) show ?thesis by auto
qed

lemma remove_all_below:
  assumes "fs_contract os nm D view pending" "names_below nm D" "ns \<in> D" "tree_ok (view w)"
    and "card (below (view w) ns) < fuel"
  shows "\<exists>w'. remove_all fuel os (nm ns) w = (Inr (), w') \<and> view w' = without (view w) {ns}"
  using assms(3-5)
proof (induction fuel arbitrary: ns w)
  case (Suc fuel)
  have ne: "ns \<noteq> []" and join: "valid_name n \<Longrightarrow> ns @ [n] \<in> D \<and> join_path (nm ns) n = nm (ns @ [n])" for n
    using assms(2) Suc.prems(1) by (auto simp: names_below_def)
  obtain w1 where w1: "fs_exists os (nm ns) w = (view w ns \<noteq> None, w1)" "view w1 = view w"
    using fs_contract_access[OF assms(1) Suc.prems(1)] by blast
  show ?case
  proof (cases "view w ns")
    case None
    then show ?thesis using w1 below_absent(2)[OF Suc.prems(2) ne None] by simp
  next
    case (Some k)
    then obtain m w2 where m: "fs_Stat os (nm ns) w1 = (Inr m, w2)" "view w2 = view w" "is_directory m = (k = DirK)"
      using fs_contract_stat[OF assms(1) Suc.prems(1), of w1] w1(2) by auto
    show ?thesis
    proof (cases k)
      case FileK
      then show ?thesis
        using remove_file_here[OF assms(1) Suc.prems(1) ne, of w2] Suc.prems(2) w1 m Some by auto
    next
      case DirK
      have "card {n. view w2 (ns @ [n]) \<noteq> None} < fuel"
        using children_fewer[OF Suc.prems(2), of ns] Suc.prems(3) m(2) Some by simp
      then obtain es w3 where r: "read_directory fuel os 32 (nm ns) w2 = (Inr es, w3)" "view w3 = view w"
        "de_name ` set es = {n. view w (ns @ [n]) \<noteq> None}"
        using read_directory_lists[OF assms(1) Suc.prems(1), of w2 fuel 32] m(2) Some DirK by auto
      have "\<exists>w'. remove_all fuel os (join_path (nm ns) n) v = (Inr (), w') \<and> view w' = without (view v) {ns @ [n]}"
        if "valid_name n" "tree_ok (view v)" "card (below (view v) (ns @ [n])) < fuel" for n v
        using Suc.IH[of "ns @ [n]" v] that join by simp
      then obtain w4 where w4: "each_entry (\<lambda>e. remove_all fuel os (join_path (nm ns) (de_name e))) es w3 = (Inr (), w4)"
        "view w4 = without (view w3) ((\<lambda>n. ns @ [n]) ` {n. view w3 (ns @ [n]) \<noteq> None})"
        using remove_entries[of view w3 ns fuel es "\<lambda>n. remove_all fuel os (join_path (nm ns) n)"]
          Suc.prems(2,3) r(2,3) Some by auto
      from remove_directory_here[OF assms(1) Suc.prems(1) ne _ _ w4(2)] show ?thesis
        using Suc.prems(2) w1 m r w4(1) Some DirK by auto
    qed
  qed
qed simp

text \<open>
  C25: in a tree without links, remove_all with fuel for the entries below a
  path succeeds, removes everything at and below the path and leaves the rest
  of the tree as it was; a path that is not there is no error.
\<close>

theorem remove_all_removes:
  assumes "fs_contract os path_of tree_paths view pending" "ns \<in> tree_paths" "tree_ok (view w)"
    and "card (below (view w) ns) < fuel"
  shows "\<exists>w'. remove_all fuel os (path_of ns) w = (Inr (), w') \<and> view w' = without (view w) {ns}"
  using assms by (intro remove_all_below[OF assms(1) names_below_tree])

section \<open>remove_all follows links\<close>

text \<open>
  The path l is a symbolic link to the directory d: access, stat and opendir
  follow it, the paths below l name the entries below d, and rmdir refuses
  the link itself (ENOTDIR).
\<close>

definition via_link :: "string list \<Rightarrow> string list \<Rightarrow> string list \<Rightarrow> string" where
  "via_link l d ns = path_of (l @ drop (length d) ns)"

definition inside :: "string list \<Rightarrow> string list set" where
  "inside d = {ns. \<exists>zs. ns = d @ zs \<and> zs \<noteq> [] \<and> list_all valid_name zs}"

definition link_contract ::
  "'w uv_fs_ops \<Rightarrow> string list \<Rightarrow> string list \<Rightarrow> ('w \<Rightarrow> tree) \<Rightarrow> ('w \<Rightarrow> nat \<Rightarrow> dir_entry list) \<Rightarrow> bool" where
  "link_contract os l d view pending \<longleftrightarrow>
     fs_contract os (via_link l d) (inside d) view pending \<and>
     (\<forall>w. view w d = Some DirK \<longrightarrow>
        (\<exists>w'. uv_fs_access os (path_of l) w = (0, w') \<and> view w' = view w) \<and>
        (\<exists>m w'. uv_fs_stat os (path_of l) w = (0, m, w') \<and> view w' = view w \<and> is_directory m) \<and>
        (\<exists>h w'. uv_fs_opendir os (path_of l) w = (0, h, w') \<and> view w' = view w \<and>
           distinct (map de_name (pending w' h)) \<and> de_name ` set (pending w' h) = {n. view w (d @ [n]) \<noteq> None})) \<and>
     (\<forall>w. uv_fs_rmdir os (path_of l) w = (- 20, w))"

lemma names_below_link:
  assumes "l \<noteq> []" "list_all valid_name l"
  shows "names_below (via_link l d) (inside d)"
  unfolding names_below_def
proof (intro ballI conjI allI impI)
  fix ns n assume "ns \<in> inside d"
  then obtain zs where zs: "ns = d @ zs" "zs \<noteq> []" "list_all valid_name zs" by (auto simp: inside_def)
  then show "ns \<noteq> []" by simp
  assume n: "valid_name n"
  then show "ns @ [n] \<in> inside d" using zs unfolding inside_def by (auto intro!: exI[of _ "zs @ [n]"])
  show "join_path (via_link l d ns) n = via_link l d (ns @ [n])"
    using path_of_extend(2)[of "l @ zs" n] assms zs by (simp add: via_link_def)
qed

lemma link_contract_follows:
  assumes "link_contract os l d view pending" "view w d = Some DirK"
  shows "\<exists>w'. fs_exists os (path_of l) w = (True, w') \<and> view w' = view w"
    and "\<exists>m w'. fs_Stat os (path_of l) w = (Inr m, w') \<and> view w' = view w \<and> is_directory m"
    and "\<exists>h w'. fs_Opendir os (path_of l) w = (Inr h, w') \<and> view w' = view w \<and>
      distinct (map de_name (pending w' h)) \<and> de_name ` set (pending w' h) = {n. view w (d @ [n]) \<noteq> None}"
proof -
  have follows: "(\<exists>w'. uv_fs_access os (path_of l) w = (0, w') \<and> view w' = view w) \<and>
      (\<exists>m w'. uv_fs_stat os (path_of l) w = (0, m, w') \<and> view w' = view w \<and> is_directory m) \<and>
      (\<exists>h w'. uv_fs_opendir os (path_of l) w = (0, h, w') \<and> view w' = view w \<and>
         distinct (map de_name (pending w' h)) \<and> de_name ` set (pending w' h) = {n. view w (d @ [n]) \<noteq> None})"
    using assms unfolding link_contract_def by (elim conjE allE[of _ w] impE) (assumption | intro conjI)+
  then show "\<exists>w'. fs_exists os (path_of l) w = (True, w') \<and> view w' = view w"
    by (auto simp: fs_exists_def normalize_uv_fs_rc_def)
  from follows show "\<exists>m w'. fs_Stat os (path_of l) w = (Inr m, w') \<and> view w' = view w \<and> is_directory m"
    by (auto simp: fs_Stat_def fs_check_def normalize_uv_fs_rc_def)
  from follows show "\<exists>h w'. fs_Opendir os (path_of l) w = (Inr h, w') \<and> view w' = view w \<and>
      distinct (map de_name (pending w' h)) \<and> de_name ` set (pending w' h) = {n. view w (d @ [n]) \<noteq> None}"
    by (auto simp: fs_Opendir_def fs_check_def normalize_uv_fs_rc_def)
qed

text \<open>
  C38: remove_all on a symbolic link to a directory follows the link: it
  removes everything the directory holds, wherever that is, and then throws
  because the link is no directory.
\<close>

theorem remove_all_empties_link_target:
  assumes "link_contract os l d view pending" "l \<in> tree_paths" "tree_ok (view w)" "view w d = Some DirK"
    and "card (below (view w) d) < fuel"
  shows "\<exists>w'. remove_all fuel os (path_of l) w = (Inl (UvError (UV_CODE (- 20)) ''uv_fs_rmdir''), w') \<and>
    view w' = without (view w) {d @ [n] | n. True}"
proof -
  have con: "fs_contract os (via_link l d) (inside d) view pending" using assms(1) by (simp add: link_contract_def)
  have l: "l \<noteq> []" "list_all valid_name l" using assms(2) by (simp_all add: tree_paths_def)
  obtain f where f: "fuel = Suc f" using assms(5) by (cases fuel) auto
  obtain w1 where w1: "fs_exists os (path_of l) w = (True, w1)" "view w1 = view w"
    using link_contract_follows(1)[OF assms(1,4)] by blast
  obtain m w2 where m: "fs_Stat os (path_of l) w1 = (Inr m, w2)" "view w2 = view w" "is_directory m"
    using link_contract_follows(2)[OF assms(1), of w1] assms(4) w1(2) by auto
  obtain h w3 where o: "fs_Opendir os (path_of l) w2 = (Inr h, w3)" "view w3 = view w"
    "distinct (map de_name (pending w3 h))" "de_name ` set (pending w3 h) = {n. view w (d @ [n]) \<noteq> None}"
    using link_contract_follows(3)[OF assms(1), of w2] assms(4) m(2) by auto
  have "card {n. view w (d @ [n]) \<noteq> None} < f"
    using children_fewer[OF assms(3), of d] assms(4,5) f by simp
  then obtain w4 where r: "read_directory f os 32 (path_of l) w2 = (Inr (pending w3 h), w4)" "view w4 = view w"
    using read_directory_opened[OF con o(1,3), of f 32] o(2,4) by auto
  have "\<exists>w'. remove_all f os (join_path (path_of l) n) v = (Inr (), w') \<and> view w' = without (view v) {d @ [n]}"
    if "valid_name n" "tree_ok (view v)" "card (below (view v) (d @ [n])) < f" for n v
    using remove_all_below[OF con names_below_link[OF l], of "d @ [n]" v f] that path_of_extend(2)[OF l, of n]
    by (simp add: via_link_def inside_def)
  then obtain w5 where w5: "each_entry (\<lambda>e. remove_all f os (join_path (path_of l) (de_name e))) (pending w3 h) w4 = (Inr (), w5)"
    "view w5 = without (view w4) ((\<lambda>n. d @ [n]) ` {n. view w4 (d @ [n]) \<noteq> None})"
    using remove_entries[of view w4 d f "pending w3 h" "\<lambda>n. remove_all f os (join_path (path_of l) n)"]
      assms(3,4,5) f r(2) o(4) by auto
  have "fs_Rmdir os (path_of l) w5 = (Inl (UvError (UV_CODE (- 20)) ''uv_fs_rmdir''), w5)"
    using assms(1) by (simp add: link_contract_def fs_Rmdir_def fs_check_def normalize_uv_fs_rc_def)
  moreover have "view w5 = without (view w) {d @ [n] | n. True}"
    unfolding w5(2) r(2) using without_absent_children[OF assms(3)] by simp
  ultimately show ?thesis using w1 m r w5 f by simp
qed

section \<open>Closing a directory twice\<close>

text \<open>Close tests for a close in progress after a test that already holds
  then, so it never throws what it means to throw: a second close returns at
  once, although the directory is not closed yet.\<close>

theorem second_close_returns:
  "fst (dir_close_begin s) \<noteq> Inl (LogicError ''corouv::io::Directory::close already in progress'') \<and>
   dir_close os (Some (s\<lparr>dr_dir := Some h, dr_closing := True\<rparr>), w) =
     (Inr (), Some (s\<lparr>dr_dir := Some h, dr_closing := True\<rparr>), w)"
  by (simp add: dir_close_def dir_close_begin_def dir_is_open_def dir_error_def)

section \<open>A small operating system\<close>

text \<open>
  A tree as an association list and one directory stream, read two entries at
  a time; rs resolves links in a path and lk tells which paths are links.
\<close>

definition children :: "(string list \<times> kind) list \<Rightarrow> string list \<Rightarrow> string list" where
  "children al ns = remdups (map last (filter (\<lambda>q. q \<noteq> [] \<and> butlast q = ns) (map fst al)))"

definition raw_path :: "string \<Rightarrow> string list" where
  "raw_path p = tl (segments p)"

definition tree_os ::
  "(string list \<Rightarrow> string list) \<Rightarrow> (string list \<Rightarrow> bool) \<Rightarrow> ((string list \<times> kind) list \<times> dir_entry list) uv_fs_ops" where
  "tree_os rs lk = \<lparr>
     uv_fs_access = (\<lambda>p w. (if map_of (fst w) (rs (raw_path p)) = None then - 2 else 0, w)),
     uv_fs_mkdir = (\<lambda>p mode w. let q = rs (raw_path p) in
       if map_of (fst w) q \<noteq> None then (- 17, w)
       else if butlast q = [] \<or> map_of (fst w) (butlast q) = Some DirK then (0, ((q, DirK) # fst w, snd w)) else (- 2, w)),
     uv_fs_stat = (\<lambda>p w. case map_of (fst w) (rs (raw_path p)) of
       None \<Rightarrow> (- 2, 0, w) | Some DirK \<Rightarrow> (0, 16384, w) | Some FileK \<Rightarrow> (0, 32768, w)),
     uv_fs_unlink = (\<lambda>p w. let q = rs (raw_path p) in
       if lk (raw_path p) \<or> map_of (fst w) q \<noteq> Some FileK then (- 1, w)
       else (0, (filter (\<lambda>(k, _). k \<noteq> q) (fst w), snd w))),
     uv_fs_rmdir = (\<lambda>p w. let q = rs (raw_path p) in
       if lk (raw_path p) then (- 20, w)
       else if map_of (fst w) q \<noteq> Some DirK \<or> children (fst w) q \<noteq> [] then (- 39, w)
       else (0, (filter (\<lambda>(k, _). k \<noteq> q) (fst w), snd w))),
     uv_fs_opendir = (\<lambda>p w. (0, 0,
       (fst w, map (\<lambda>n. \<lparr>de_name = n, de_type = 0\<rparr>) (children (fst w) (rs (raw_path p)))))),
     uv_fs_readdir = (\<lambda>h cap w. let k = min (min cap 2) (length (snd w)) in
       (int k, take k (snd w), (fst w, drop k (snd w)))),
     uv_fs_closedir = (\<lambda>h w. (0, w))\<rparr>"

lemma segments_step: "list_all (\<lambda>c. \<not> is_path_separator c) n \<Longrightarrow> segments (n @ CHR ''/'' # cs) = n # segments cs"
  by (induction n) (simp_all add: is_path_separator_def)

lemma segments_path_of:
  "list_all (\<lambda>c. \<not> is_path_separator c) n \<Longrightarrow> list_all valid_name ns \<Longrightarrow> segments (n @ path_of ns) = n # ns"
proof (induction ns arbitrary: n)
  case Nil
  then show ?case by (induction n) (simp_all add: path_of_def)
next
  case (Cons m ms)
  then show ?case using segments_step[of n "m @ path_of ms"] by (simp add: path_of_def valid_name_def)
qed

lemma raw_path_of: "list_all valid_name ns \<Longrightarrow> raw_path (path_of ns) = ns"
  using segments_path_of[of "[]" ns] by (simp add: raw_path_def)

lemma set_children: "set (children al ns) = {n. map_of al (ns @ [n]) \<noteq> None}"
proof -
  have "set (children al ns) = last ` {q \<in> fst ` set al. q \<noteq> [] \<and> butlast q = ns}"
    by (simp add: children_def)
  also have "{q \<in> fst ` set al. q \<noteq> [] \<and> butlast q = ns} = (\<lambda>n. ns @ [n]) ` {n. ns @ [n] \<in> fst ` set al}"
  proof (rule set_eqI)
    fix q show "q \<in> {q \<in> fst ` set al. q \<noteq> [] \<and> butlast q = ns} \<longleftrightarrow> q \<in> (\<lambda>n. ns @ [n]) ` {n. ns @ [n] \<in> fst ` set al}"
      by (cases q rule: rev_cases) auto
  qed
  also have "last ` (\<lambda>n. ns @ [n]) ` {n. ns @ [n] \<in> fst ` set al} = {n. ns @ [n] \<in> fst ` set al}"
    by (simp add: image_image)
  finally show ?thesis by (simp only: map_of_eq_None_iff not_not)
qed

lemma map_of_filter_key: "map_of (filter (\<lambda>(k, _). k \<noteq> q) al) = (map_of al)(q := None)"
  by (induction al) (auto simp: fun_eq_iff)

definition tree_view :: "(string list \<times> kind) list \<times> dir_entry list \<Rightarrow> tree" where
  "tree_view w = map_of (fst w)"

definition tree_pending :: "(string list \<times> kind) list \<times> dir_entry list \<Rightarrow> nat \<Rightarrow> dir_entry list" where
  "tree_pending w h = snd w"

lemma tree_os_contract:
  assumes "\<And>ns. ns \<in> D \<Longrightarrow> rs (raw_path (nm ns)) = ns \<and> \<not> lk (raw_path (nm ns))"
  shows "fs_contract (tree_os rs lk) nm D tree_view tree_pending"
  unfolding fs_contract_def
proof (intro conjI allI ballI impI)
  fix w :: "(string list \<times> kind) list \<times> dir_entry list" and ns assume D: "ns \<in> D"
  note nm = assms[OF D]
  show "\<exists>r w'. uv_fs_access (tree_os rs lk) (nm ns) w = (r, w') \<and> tree_view w' = tree_view w \<and>
      r = (if tree_view w ns = None then - 2 else 0)"
    using nm by (auto simp: tree_os_def tree_view_def)
  show "\<exists>w'. uv_fs_mkdir (tree_os rs lk) (nm ns) mode w = (0, w') \<and> tree_view w' = (tree_view w)(ns \<mapsto> DirK)"
    if "tree_view w ns = None" "butlast ns = [] \<or> tree_view w (butlast ns) = Some DirK" for mode
    using nm that by (simp add: tree_os_def tree_view_def Let_def)
  show "\<exists>m w'. uv_fs_stat (tree_os rs lk) (nm ns) w = (0, m, w') \<and> tree_view w' = tree_view w \<and>
      is_directory m = (tree_view w ns = Some DirK)" if "tree_view w ns \<noteq> None"
    using nm that by (cases w; cases "tree_view w ns") (auto simp: tree_os_def tree_view_def is_directory_def split: kind.splits)
  show "\<exists>w'. uv_fs_unlink (tree_os rs lk) (nm ns) w = (0, w') \<and> tree_view w' = (tree_view w)(ns := None)"
    if "tree_view w ns = Some FileK"
    using nm that by (simp add: tree_os_def tree_view_def Let_def map_of_filter_key)
  show "\<exists>w'. uv_fs_rmdir (tree_os rs lk) (nm ns) w = (0, w') \<and> tree_view w' = (tree_view w)(ns := None)"
    if "tree_view w ns = Some DirK" "\<forall>n. tree_view w (ns @ [n]) = None"
  proof -
    have "set (children (fst w) ns) = {}" unfolding set_children using that(2) by (simp add: tree_view_def)
    then show ?thesis using nm that by (simp add: tree_os_def tree_view_def Let_def map_of_filter_key)
  qed
  show "\<exists>h w'. uv_fs_opendir (tree_os rs lk) (nm ns) w = (0, h, w') \<and> tree_view w' = tree_view w \<and>
      distinct (map de_name (tree_pending w' h)) \<and>
      de_name ` set (tree_pending w' h) = {n. tree_view w (ns @ [n]) \<noteq> None}"
    using nm set_children[of "fst w" ns]
    by (simp add: tree_os_def tree_view_def tree_pending_def comp_def image_image children_def)
next
  fix w :: "(string list \<times> kind) list \<times> dir_entry list" and h cap :: nat assume "0 < cap"
  then show "\<exists>k w'. uv_fs_readdir (tree_os rs lk) h cap w = (int k, take k (tree_pending w h), w') \<and>
      tree_view w' = tree_view w \<and> tree_pending w' h = drop k (tree_pending w h) \<and>
      k \<le> length (tree_pending w h) \<and> (k = 0 \<longrightarrow> tree_pending w h = []) \<and> k < 2 ^ 31"
    by (intro exI[of _ "min (min cap 2) (length (snd w))"] exI[of _ "(fst w, drop (min (min cap 2) (length (snd w))) (snd w))"])
      (auto simp: tree_os_def tree_view_def tree_pending_def Let_def min_def)
qed (simp add: tree_os_def)

definition sample_tree :: "(string list \<times> kind) list" where
  "sample_tree = [([''a''], DirK), ([''a'', ''f''], FileK), ([''b''], DirK)]"

lemma sample_tree_ok: "tree_ok (tree_view (sample_tree, es))"
  by (auto simp: tree_ok_def tree_view_def sample_tree_def valid_name_def plain_part_def is_path_separator_def
      finite_dom_map_of append_eq_Cons_conv split: if_splits)

lemma sample_below: "card (below (tree_view (sample_tree, es)) ns) < 4"
proof -
  have "below (tree_view (sample_tree, es)) ns \<subseteq> {[''a''], [''a'', ''f''], [''b'']}"
    by (auto simp: below_def tree_view_def sample_tree_def split: if_splits)
  from card_mono[OF _ this] show ?thesis by (simp add: card_insert_if)
qed

lemma sample_contract: "fs_contract (tree_os id (\<lambda>_. False)) path_of tree_paths tree_view tree_pending"
  by (rule tree_os_contract) (simp add: tree_paths_def raw_path_of)

lemma sample_names: "valid_name ''a''" "valid_name ''l''" "valid_name ''f''"
  by (simp_all add: valid_name_def plain_part_def is_path_separator_def)

theorem remove_all_removes_witness:
  "\<exists>w'. remove_all 4 (tree_os id (\<lambda>_. False)) (path_of [''a'']) (sample_tree, []) = (Inr (), w') \<and>
     tree_view w' = without (tree_view (sample_tree, [])) {[''a'']}"
  by (rule remove_all_removes[OF sample_contract _ sample_tree_ok sample_below]) (simp add: tree_paths_def sample_names)

theorem create_directories_creates_witness:
  "\<exists>w'. create_directories (tree_os id (\<lambda>_. False)) ''/a/./y'' 493 (sample_tree, []) = (Inr (), w') \<and>
     tree_view w' [''a'', ''y''] = Some DirK"
proof -
  have n: "normalize_path ''/a/./y'' = \<lparr>np_prefix = [], np_absolute = True, np_parts = [''a'', ''y'']\<rparr>"
    by code_simp
  have "\<forall>q. q \<noteq> [] \<and> prefix q [''a'', ''y''] \<longrightarrow> tree_view (sample_tree, []) q \<noteq> Some FileK"
    by (auto simp: tree_view_def sample_tree_def prefix_Cons)
  then show ?thesis
    using create_directories_creates[OF sample_contract, of "''/a/./y''" "(sample_tree, [])" 493] by (auto simp: n)
qed

definition sample_link :: "string list \<Rightarrow> string list" where
  "sample_link q = (if q \<noteq> [] \<and> hd q = ''l'' then ''a'' # tl q else q)"

lemma sample_link_contract:
  "link_contract (tree_os sample_link (\<lambda>q. q = [''l''])) [''l''] [''a''] tree_view tree_pending"
  unfolding link_contract_def
proof (intro conjI allI impI)
  show "fs_contract (tree_os sample_link (\<lambda>q. q = [''l''])) (via_link [''l''] [''a'']) (inside [''a'']) tree_view tree_pending"
    using raw_path_of[of "''l'' # _"] sample_names(2)
    by (intro tree_os_contract) (auto simp: inside_def via_link_def sample_link_def)
next
  fix w :: "(string list \<times> kind) list \<times> dir_entry list" assume d: "tree_view w [''a''] = Some DirK"
  have l: "sample_link (raw_path (path_of [''l''])) = [''a'']"
    using raw_path_of[of "[''l'']"] sample_names(2) by (simp add: sample_link_def)
  show "\<exists>w'. uv_fs_access (tree_os sample_link (\<lambda>q. q = [''l''])) (path_of [''l'']) w = (0, w') \<and> tree_view w' = tree_view w"
    using d l by (simp add: tree_os_def tree_view_def)
  show "\<exists>m w'. uv_fs_stat (tree_os sample_link (\<lambda>q. q = [''l''])) (path_of [''l'']) w = (0, m, w') \<and>
      tree_view w' = tree_view w \<and> is_directory m"
    using d l by (simp add: tree_os_def tree_view_def is_directory_def)
  show "\<exists>h w'. uv_fs_opendir (tree_os sample_link (\<lambda>q. q = [''l''])) (path_of [''l'']) w = (0, h, w') \<and>
      tree_view w' = tree_view w \<and> distinct (map de_name (tree_pending w' h)) \<and>
      de_name ` set (tree_pending w' h) = {n. tree_view w ([''a''] @ [n]) \<noteq> None}"
    using l set_children[of "fst w" "[''a'']"]
    by (simp add: tree_os_def tree_view_def tree_pending_def comp_def image_image children_def)
next
  fix w show "uv_fs_rmdir (tree_os sample_link (\<lambda>q. q = [''l''])) (path_of [''l'']) w = (- 20, w)"
    using raw_path_of[of "[''l'']"] sample_names(2) by (simp add: tree_os_def Let_def)
qed

theorem remove_all_empties_link_target_witness:
  "\<exists>w'. remove_all 4 (tree_os sample_link (\<lambda>q. q = [''l''])) (path_of [''l'']) (sample_tree, []) =
       (Inl (UvError (UV_CODE (- 20)) ''uv_fs_rmdir''), w') \<and>
     tree_view w' = without (tree_view (sample_tree, [])) {[''a''] @ [n] | n. True}"
  by (rule remove_all_empties_link_target[OF sample_link_contract _ sample_tree_ok _ sample_below])
    (simp_all add: tree_paths_def sample_names tree_view_def sample_tree_def)

end
