(* ===== verification/Udp_Socket.thy ===== *)
theory Udp_Socket
  imports Http_Url Tcp_Listener
begin

unbundle bit_operations_syntax

text \<open>
  The UDP socket of net.cpp: the queue of received datagrams, recv, recv_some
  with its direct delivery into the caller's buffer, sending, cancellation and
  close.  As for the listener, libuv's callbacks and the critical sections of
  the coroutines are steps, and a woken coroutine runs in a later step.  The
  buffer a task passes to recv_some is part of the state.
\<close>

section \<open>The state\<close>

record Datagram =
  dg_peer :: Endpoint
  dg_payload :: string
  dg_flags :: nat

record DatagramInfo =
  di_peer :: Endpoint
  di_size :: nat
  di_flags :: nat

definition UV_UDP_PARTIAL :: nat where
  "UV_UDP_PARTIAL = 2"

definition no_endpoint :: Endpoint where
  "no_endpoint = \<lparr>ep_host = [], ep_port = 0\<rparr>"

definition no_datagram_info :: DatagramInfo where
  "no_datagram_info = \<lparr>di_peer = no_endpoint, di_size = 0, di_flags = 0\<rparr>"

record udp =
  up_pending :: "Datagram list"
  up_recv_waiter :: "task option"
  up_some_waiter :: "task option"
  up_some_capacity :: nat
  up_some_result :: DatagramInfo
  up_error :: "uv_err option"
  up_started :: bool
  up_initialized :: bool
  up_peer :: Endpoint
  up_closing :: bool
  up_closed :: bool
  up_buffer :: "task \<Rightarrow> string"

definition up_open :: "udp \<Rightarrow> bool" where
  "up_open s \<longleftrightarrow> up_initialized s \<and> \<not> up_closing s \<and> \<not> up_closed s"

section \<open>libuv's callbacks\<close>

text \<open>memcpy into a buffer: the bytes behind the copy stay.\<close>

definition copy_into :: "string \<Rightarrow> string \<Rightarrow> string" where
  "copy_into d buf = d @ drop (length d) buf"

definition partial_flag :: "bool \<Rightarrow> nat \<Rightarrow> nat" where
  "partial_flag truncated flags = (if truncated then flags OR UV_UDP_PARTIAL else flags)"

definition deliver_direct :: "task \<Rightarrow> string \<Rightarrow> Endpoint option \<Rightarrow> nat \<Rightarrow> udp \<Rightarrow> udp" where
  "deliver_direct t d addr flags s =
     (let copy = min (length d) (up_some_capacity s)
      in s\<lparr>up_buffer := (up_buffer s)(t := copy_into (take copy d) (up_buffer s t)),
           up_some_result := \<lparr>di_peer = (case addr of Some p \<Rightarrow> p | None \<Rightarrow> up_peer s), di_size = copy,
             di_flags = partial_flag (up_some_capacity s < length d) flags\<rparr>,
           up_some_waiter := None, up_some_capacity := 0\<rparr>)"

text \<open>recv_cb: the woken coroutines, that of recv before that of recv_some.\<close>

definition wakes :: "task option \<Rightarrow> task option \<Rightarrow> task list" where
  "wakes a b = (case a of None \<Rightarrow> [] | Some t \<Rightarrow> [t]) @ (case b of None \<Rightarrow> [] | Some t \<Rightarrow> [t])"

definition recv_cb :: "int \<Rightarrow> string \<Rightarrow> Endpoint option \<Rightarrow> nat \<Rightarrow> udp \<Rightarrow> task list \<times> udp" where
  "recv_cb nread buf addr flags s =
     (if 0 < nread then
        (let d = take (nat nread) buf
         in case up_some_waiter s of
              Some t \<Rightarrow> (wakes (up_recv_waiter s) (Some t), (deliver_direct t d addr flags s)\<lparr>up_recv_waiter := None\<rparr>)
            | None \<Rightarrow>
                (wakes (up_recv_waiter s) None,
                 s\<lparr>up_pending := up_pending s @ [\<lparr>dg_peer = (case addr of Some p \<Rightarrow> p | None \<Rightarrow> up_peer s),
                     dg_payload = d, dg_flags = flags\<rparr>], up_recv_waiter := None\<rparr>))
      else if nread < 0 then
        (wakes (up_recv_waiter s) (up_some_waiter s),
         s\<lparr>up_error := Some (UV_CODE nread), up_started := False, up_some_waiter := None, up_some_capacity := 0,
           up_recv_waiter := None\<rparr>)
      else ([], s))"

definition up_close_on_loop :: "udp \<Rightarrow> task list \<times> udp" where
  "up_close_on_loop s =
     (if \<not> up_initialized s then ([], s\<lparr>up_closed := True\<rparr>)
      else if up_closing s then ([], s)
      else (wakes (up_recv_waiter s) (up_some_waiter s),
            s\<lparr>up_closing := True, up_started := False,
              up_error := (if up_pending s = [] \<and> up_error s = None then Some UV_ECANCELED else up_error s),
              up_recv_waiter := None, up_some_waiter := None, up_some_capacity := 0\<rparr>))"

definition up_on_close :: "udp \<Rightarrow> udp" where
  "up_on_close s = s\<lparr>up_closed := True\<rparr>"

definition cancel_recv_waiter :: "task \<Rightarrow> udp \<Rightarrow> task list \<times> udp" where
  "cancel_recv_waiter t s =
     (if up_recv_waiter s = Some t then ([t], s\<lparr>up_recv_waiter := None\<rparr>) else ([], s))"

definition cancel_recv_some_waiter :: "task \<Rightarrow> udp \<Rightarrow> task list \<times> udp" where
  "cancel_recv_some_waiter t s =
     (if up_some_waiter s = Some t then ([t], s\<lparr>up_some_waiter := None, up_some_capacity := 0\<rparr>) else ([], s))"

section \<open>recv and recv_some\<close>

text \<open>What uv_udp_recv_start returns is an argument.\<close>

definition start_receiving_on_loop :: "uv_err option \<Rightarrow> udp \<Rightarrow> uv_err option \<times> udp" where
  "start_receiving_on_loop start_rc s =
     (if \<not> up_open s \<or> up_started s \<or> up_error s \<noteq> None then (None, s)
      else case start_rc of
             None \<Rightarrow> (None, s\<lparr>up_started := True\<rparr>)
           | Some e \<Rightarrow> (Some e, s))"

definition recv_register :: "uv_err option \<Rightarrow> task \<Rightarrow> udp \<Rightarrow> registration \<times> udp" where
  "recv_register start_rc t s =
     (if up_pending s \<noteq> [] \<or> \<not> up_open s \<or> up_error s \<noteq> None then (Ready, s)
      else if up_recv_waiter s \<noteq> None then (ConcurrentCall, s)
      else case start_receiving_on_loop start_rc (s\<lparr>up_recv_waiter := Some t\<rparr>) of
             (None, s') \<Rightarrow> (Suspended, s')
           | (Some e, s') \<Rightarrow> (StartFailed e, s'\<lparr>up_recv_waiter := None, up_error := Some e\<rparr>))"

definition udp_end :: "udp \<Rightarrow> exn" where
  "udp_end s =
     (case up_error s of
        Some e \<Rightarrow> if e \<noteq> UV_ECANCELED then UvError e ''uv_udp_recv''
                  else LogicError ''corouv::net::UdpSocket is closed''
      | None \<Rightarrow> LogicError ''corouv::net::UdpSocket is closed'')"

text \<open>The tests with which both await_resume begin.\<close>

definition resume_checks :: "string \<Rightarrow> registration \<Rightarrow> bool \<Rightarrow> exn option" where
  "resume_checks what reg canceled =
     (if reg = ConcurrentCall then Some (LogicError ''corouv::net::UdpSocket does not support concurrent recv calls'')
      else if canceled then Some (SignalException what)
      else case reg of StartFailed e \<Rightarrow> Some (UvError e ''uv_udp_recv_start'') | _ \<Rightarrow> None)"

definition recv_resume :: "registration \<Rightarrow> bool \<Rightarrow> udp \<Rightarrow> Datagram result \<times> udp" where
  "recv_resume reg canceled s =
     (case resume_checks ''corouv::net::UdpSocket recv canceled'' reg canceled of
        Some e \<Rightarrow> (Inl e, s)
      | None \<Rightarrow>
          (case up_pending s of
             d # rest \<Rightarrow> (Inr d, s\<lparr>up_pending := rest\<rparr>)
           | [] \<Rightarrow> (Inl (udp_end s), s)))"

definition recv_some_register :: "uv_err option \<Rightarrow> task \<Rightarrow> nat \<Rightarrow> udp \<Rightarrow> registration \<times> udp" where
  "recv_some_register start_rc t cap s =
     (if up_pending s \<noteq> [] \<or> \<not> up_open s \<or> up_error s \<noteq> None then (Ready, s)
      else if up_recv_waiter s \<noteq> None \<or> up_some_waiter s \<noteq> None then (ConcurrentCall, s)
      else case start_receiving_on_loop start_rc (s\<lparr>up_some_waiter := Some t, up_some_capacity := cap\<rparr>) of
             (None, s') \<Rightarrow> (Suspended, s')
           | (Some e, s') \<Rightarrow>
               (StartFailed e, s'\<lparr>up_some_waiter := None, up_some_capacity := 0, up_error := Some e\<rparr>))"

definition recv_some_resume ::
  "registration \<Rightarrow> bool \<Rightarrow> task \<Rightarrow> nat \<Rightarrow> udp \<Rightarrow> DatagramInfo result \<times> udp" where
  "recv_some_resume reg canceled t cap s =
     (case resume_checks ''corouv::net::UdpSocket recv_some canceled'' reg canceled of
        Some e \<Rightarrow> (Inl e, s)
      | None \<Rightarrow>
          (case up_pending s of
             d # rest \<Rightarrow>
               (let n = min cap (length (dg_payload d))
                in (Inr \<lparr>di_peer = dg_peer d, di_size = n,
                         di_flags = partial_flag (cap < length (dg_payload d)) (dg_flags d)\<rparr>,
                    s\<lparr>up_pending := rest,
                      up_buffer := (up_buffer s)(t := copy_into (take n (dg_payload d)) (up_buffer s t))\<rparr>))
           | [] \<Rightarrow>
               (let info = up_some_result s
                in if 0 < di_size info \<or> di_flags info \<noteq> 0 \<or> ep_host (di_peer info) \<noteq> [] \<or> ep_port (di_peer info) \<noteq> 0
                   then (Inr info, s\<lparr>up_some_result := no_datagram_info\<rparr>)
                   else (Inl (udp_end s), s))))"

section \<open>Sending\<close>

text \<open>
  The results of uv_udp_try_send and uv_udp_send and the status of on_send are
  arguments; the answer is that of await_resume.
\<close>

definition udp_send_await ::
  "uv_err + nat \<Rightarrow> uv_err option \<Rightarrow> uv_err option \<Rightarrow> string \<Rightarrow> udp \<Rightarrow> nat result" where
  "udp_send_await try_rc send_rc status buffer s =
     (if buffer = [] then Inr 0
      else if \<not> up_open s then Inl (UvError UV_ECANCELED ''uv_udp_send'')
      else case try_rc of
             Inr n \<Rightarrow> Inr n
           | Inl e \<Rightarrow>
               if \<not> (e = UV_EAGAIN \<or> e = UV_ENOSYS) then Inl (UvError e ''uv_udp_send'')
               else case send_rc of
                      Some e' \<Rightarrow> Inl (UvError e' ''uv_udp_send'')
                    | None \<Rightarrow>
                        (case status of Some e' \<Rightarrow> Inl (UvError e' ''uv_udp_send'') | None \<Rightarrow> Inr (length buffer)))"

definition udp_send ::
  "uv_err + nat \<Rightarrow> uv_err option \<Rightarrow> uv_err option \<Rightarrow> string \<Rightarrow> udp \<Rightarrow> nat result" where
  "udp_send try_rc send_rc status buffer s =
     (if \<not> up_open s then Inl (LogicError ''corouv::net::UdpSocket is closed'')
      else if ep_host (up_peer s) = []
      then Inl (LogicError ''corouv::net::UdpSocket::send requires a connected socket'')
      else udp_send_await try_rc send_rc status buffer s)"

section \<open>Receiving with recv\<close>

text \<open>
  A socket that is read with recv only: the coroutines scheduled to run, the
  datagrams libuv delivered and those recv returned, in order.
\<close>

record udp_sys =
  us_udp :: udp
  us_ready :: "(task \<times> registration) list"
  us_arrived :: "Datagram list"
  us_received :: "Datagram list"

definition arrived_datagram :: "int \<Rightarrow> string \<Rightarrow> Endpoint option \<Rightarrow> nat \<Rightarrow> udp \<Rightarrow> Datagram list" where
  "arrived_datagram nread buf addr flags s =
     (if 0 < nread
      then [\<lparr>dg_peer = (case addr of Some p \<Rightarrow> p | None \<Rightarrow> up_peer s), dg_payload = take (nat nread) buf, dg_flags = flags\<rparr>]
      else [])"

inductive udp_step :: "udp_sys \<Rightarrow> udp_sys \<Rightarrow> bool" where
  recv_call: "up_open (us_udp y) \<Longrightarrow> recv_register start_rc t (us_udp y) = (reg, s') \<Longrightarrow>
    udp_step y (y\<lparr>us_udp := s', us_ready := (if reg = Suspended then [] else [(t, reg)]) @ us_ready y\<rparr>)"
| recv_canceled: "udp_step y (y\<lparr>us_ready := (t, Ready) # us_ready y\<rparr>)"
| datagram: "\<not> up_closing (us_udp y) \<Longrightarrow> recv_cb nread buf addr flags (us_udp y) = (ts, s') \<Longrightarrow>
    udp_step y (y\<lparr>us_udp := s', us_ready := us_ready y @ map (\<lambda>t. (t, Suspended)) ts,
      us_arrived := us_arrived y @ arrived_datagram nread buf addr flags (us_udp y)\<rparr>)"
| recv_resumed: "us_ready y = a @ (t, reg) # b \<Longrightarrow> recv_resume reg canceled (us_udp y) = (r, s') \<Longrightarrow>
    udp_step y (y\<lparr>us_udp := s', us_ready := a @ b,
      us_received := us_received y @ (case r of Inr d \<Rightarrow> [d] | Inl _ \<Rightarrow> [])\<rparr>)"
| recv_cancel: "cancel_recv_waiter t (us_udp y) = (ts, s') \<Longrightarrow>
    udp_step y (y\<lparr>us_udp := s', us_ready := us_ready y @ map (\<lambda>t. (t, Suspended)) ts\<rparr>)"
| socket_close: "up_close_on_loop (us_udp y) = (ts, s') \<Longrightarrow>
    udp_step y (y\<lparr>us_udp := s', us_ready := us_ready y @ map (\<lambda>t. (t, Suspended)) ts\<rparr>)"
| socket_closed: "up_closing (us_udp y) \<Longrightarrow> udp_step y (y\<lparr>us_udp := up_on_close (us_udp y)\<rparr>)"

definition fresh_socket :: "udp_sys \<Rightarrow> bool" where
  "fresh_socket y \<longleftrightarrow> up_open (us_udp y) \<and> up_pending (us_udp y) = [] \<and> up_recv_waiter (us_udp y) = None \<and>
     up_some_waiter (us_udp y) = None \<and> up_error (us_udp y) = None \<and> us_ready y = [] \<and> us_arrived y = [] \<and>
     us_received y = []"

definition udp_good :: "udp_sys \<Rightarrow> bool" where
  "udp_good y \<longleftrightarrow> us_arrived y = us_received y @ up_pending (us_udp y) \<and> up_some_waiter (us_udp y) = None \<and>
     (up_recv_waiter (us_udp y) \<noteq> None \<longrightarrow>
        up_pending (us_udp y) = [] \<and> up_error (us_udp y) = None \<and> up_open (us_udp y))"

lemma recv_resume_cases:
  "recv_resume reg canceled s = (r, s') \<Longrightarrow>
   (\<exists>d. r = Inr d \<and> up_pending s = d # up_pending s' \<and> s' = s\<lparr>up_pending := tl (up_pending s)\<rparr>) \<or> (\<exists>e. r = Inl e) \<and> s' = s"
  by (auto simp: recv_resume_def split: option.splits list.splits)

lemma udp_good_resumed:
  assumes "udp_good y" "recv_resume reg canceled (us_udp y) = (r, s')"
  shows "udp_good (y\<lparr>us_udp := s', us_ready := q, us_received := us_received y @ (case r of Inr d \<Rightarrow> [d] | Inl _ \<Rightarrow> [])\<rparr>)"
  using recv_resume_cases[OF assms(2)]
proof (elim disjE exE conjE)
  fix d assume d: "r = Inr d" "up_pending (us_udp y) = d # up_pending s'"
    and s': "s' = us_udp y\<lparr>up_pending := tl (up_pending (us_udp y))\<rparr>"
  have "up_recv_waiter (us_udp y) = None" using assms(1) d(2) by (auto simp: udp_good_def)
  then have "up_recv_waiter s' = None" "up_some_waiter s' = None" using assms(1) by (subst s', simp add: udp_good_def)+
  then show ?thesis using assms(1) d by (simp add: udp_good_def)
next
  fix e assume "r = Inl e" "s' = us_udp y"
  then show ?thesis using assms(1) by (simp add: udp_good_def)
qed

lemma udp_good_call:
  assumes "udp_good y" "recv_register start_rc t (us_udp y) = (reg, s')"
  shows "udp_good (y\<lparr>us_udp := s', us_ready := q\<rparr>)"
proof (cases "up_pending (us_udp y) \<noteq> [] \<or> \<not> up_open (us_udp y) \<or> up_error (us_udp y) \<noteq> None \<or> up_recv_waiter (us_udp y) \<noteq> None")
  case True
  then have "s' = us_udp y" using assms(2) by (auto simp: recv_register_def split: if_splits)
  then show ?thesis using assms(1) by (simp add: udp_good_def)
next
  case False
  then show ?thesis using assms
    by (cases start_rc; cases "up_started (us_udp y)")
      (auto simp: udp_good_def recv_register_def start_receiving_on_loop_def up_open_def)
qed

lemma udp_good_step:
  assumes "udp_good y" "udp_step y y'"
  shows "udp_good y'"
  using assms(2)
proof (cases rule: udp_step.cases)
  case (recv_call start_rc t reg s')
  show ?thesis unfolding recv_call(1) using assms(1) recv_call(3) by (rule udp_good_call)
next
  case (recv_canceled t)
  then show ?thesis using assms(1) by (simp add: udp_good_def)
next
  case (datagram nread buf addr flags ts s')
  then show ?thesis using assms(1)
    by (auto simp: udp_good_def recv_cb_def arrived_datagram_def Let_def split: if_splits)
next
  case (recv_resumed a t reg b canceled r s')
  show ?thesis unfolding recv_resumed(1) using assms(1) recv_resumed(3) by (rule udp_good_resumed)
next
  case (recv_cancel t ts s')
  then show ?thesis using assms(1) by (auto simp: udp_good_def cancel_recv_waiter_def split: if_splits)
next
  case (socket_close ts s')
  then show ?thesis using assms(1) by (auto simp: udp_good_def up_close_on_loop_def up_open_def split: if_splits)
next
  case socket_closed
  then show ?thesis using assms(1) by (auto simp: udp_good_def up_on_close_def up_open_def)
qed

interpretation udp_run: invariant_system fresh_socket udp_step udp_good
proof unfold_locales
  show "fresh_socket s \<Longrightarrow> udp_good s" for s by (simp add: fresh_socket_def udp_good_def)
qed (rule udp_good_step)

text \<open>
  C28: on a socket read with recv, however calls, datagrams, cancellations,
  errors and close interleave, the datagrams that are not empty are returned
  at most once, whole and in the order of their arrival, none is lost to a
  canceled call, and recv waits only while there is nothing to report.
\<close>

theorem udp_recv_in_order:
  assumes "reachable fresh_socket udp_step y"
  shows "us_arrived y = us_received y @ up_pending (us_udp y) \<and>
    (up_recv_waiter (us_udp y) \<noteq> None \<longrightarrow>
       up_pending (us_udp y) = [] \<and> up_error (us_udp y) = None \<and> up_open (us_udp y))"
  using udp_run.reachable_good[OF assms] by (simp add: udp_good_def)

definition sample_udp :: udp where
  "sample_udp = \<lparr>up_pending = [], up_recv_waiter = None, up_some_waiter = None, up_some_capacity = 0,
     up_some_result = no_datagram_info, up_error = None, up_started = False, up_initialized = True,
     up_peer = no_endpoint, up_closing = False, up_closed = False, up_buffer = (\<lambda>_. [])\<rparr>"

definition sample_peer :: Endpoint where
  "sample_peer = \<lparr>ep_host = ''127.0.0.1'', ep_port = 9\<rparr>"

definition sample_datagram :: Datagram where
  "sample_datagram = \<lparr>dg_peer = sample_peer, dg_payload = ''ab'', dg_flags = 0\<rparr>"

definition sample_udp_sys :: "Datagram list \<Rightarrow> udp_sys" where
  "sample_udp_sys ds = \<lparr>us_udp = sample_udp\<lparr>up_pending := ds\<rparr>, us_ready = [], us_arrived = ds, us_received = []\<rparr>"

theorem udp_recv_in_order_witness:
  "us_arrived (sample_udp_sys [sample_datagram]) = us_received (sample_udp_sys [sample_datagram]) @ [sample_datagram]"
proof -
  have r: "reachable fresh_socket udp_step (sample_udp_sys [])"
    by (rule reachable.start) (simp add: fresh_socket_def sample_udp_sys_def sample_udp_def up_open_def)
  have "recv_cb 2 ''ab'' (Some sample_peer) 0 (us_udp (sample_udp_sys [])) = ([], sample_udp\<lparr>up_pending := [sample_datagram]\<rparr>)"
    by (simp add: recv_cb_def sample_udp_sys_def sample_udp_def sample_datagram_def wakes_def numeral_2_eq_2)
  from udp_step.datagram[OF _ this]
  have "udp_step (sample_udp_sys []) (sample_udp_sys [sample_datagram])"
    by (simp add: sample_udp_sys_def sample_udp_def arrived_datagram_def sample_datagram_def numeral_2_eq_2)
  with r have "reachable fresh_socket udp_step (sample_udp_sys [sample_datagram])" by (rule reachable.next_state)
  from udp_recv_in_order[OF this] show ?thesis by (simp add: sample_udp_sys_def)
qed

section \<open>A datagram that overtakes another\<close>

text \<open>
  recv_some of task t waits, two datagrams arrive before t runs, and t runs;
  then task t' calls recv_some and the socket is closed.
\<close>

definition overtaking_run ::
  "task \<Rightarrow> task \<Rightarrow> nat \<Rightarrow> string \<Rightarrow> string \<Rightarrow> Endpoint \<Rightarrow> udp \<Rightarrow> DatagramInfo result \<times> udp \<times> DatagramInfo result \<times> udp" where
  "overtaking_run t t' cap d1 d2 peer s =
     (let (reg, s1) = recv_some_register None t cap s;
          (_, s2) = recv_cb (int (length d1)) d1 (Some peer) 0 s1;
          (_, s3) = recv_cb (int (length d2)) d2 (Some peer) 0 s2;
          (r, s4) = recv_some_resume reg False t cap s3;
          (reg', s5) = recv_some_register None t' cap s4;
          (_, s6) = up_close_on_loop s5;
          (r', s7) = recv_some_resume reg' False t' cap s6
      in (r, s4, r', s7))"

lemma recv_cb_direct:
  "up_some_waiter s = Some t \<Longrightarrow> d \<noteq> [] \<Longrightarrow> recv_cb (int (length d)) d addr flags s =
     (wakes (up_recv_waiter s) (Some t), (deliver_direct t d addr flags s)\<lparr>up_recv_waiter := None\<rparr>)"
  by (simp add: recv_cb_def)

lemma recv_cb_queued:
  "up_some_waiter s = None \<Longrightarrow> d \<noteq> [] \<Longrightarrow> recv_cb (int (length d)) d addr flags s =
     (wakes (up_recv_waiter s) None,
      s\<lparr>up_pending := up_pending s @ [\<lparr>dg_peer = (case addr of Some p \<Rightarrow> p | None \<Rightarrow> up_peer s), dg_payload = d,
          dg_flags = flags\<rparr>], up_recv_waiter := None\<rparr>)"
  by (simp add: recv_cb_def)

text \<open>An open socket without an error and without a waiting recv.\<close>

definition idle_socket :: "udp \<Rightarrow> bool" where
  "idle_socket s \<longleftrightarrow> up_open s \<and> up_error s = None \<and> up_recv_waiter s = None"

lemma recv_some_waits:
  assumes "up_open s" "up_error s = None" "up_pending s = []" "up_recv_waiter s = None" "up_some_waiter s = None"
  shows "\<exists>s'. recv_some_register None t cap s = (Suspended, s') \<and> idle_socket s' \<and> up_pending s' = [] \<and>
    up_some_waiter s' = Some t \<and> up_some_capacity s' = cap \<and> up_buffer s' = up_buffer s \<and>
    up_some_result s' = up_some_result s"
  using assms by (simp add: recv_some_register_def start_receiving_on_loop_def up_open_def idle_socket_def)



section \<open>recv beside recv_some\<close>

text \<open>
  recv does not look for a waiting recv_some: a datagram that is delivered to
  recv_some also wakes recv, which finds no datagram and reports an open
  socket as closed.
\<close>

lemma recv_reports_open_socket_closed:
  assumes "up_open s" "up_error s = None" "up_pending s = []" "up_recv_waiter s = None" "up_some_waiter s = Some t" "d \<noteq> []"
    and "recv_register None t' s = (reg, s1)" "recv_cb (int (length d)) d (Some peer) 0 s1 = (ts, s2)"
  shows "reg = Suspended" "ts = [t', t]" "up_open s2"
    "fst (recv_resume reg False s2) = Inl (LogicError ''corouv::net::UdpSocket is closed'')"
proof -
  have s1: "reg = Suspended" "up_some_waiter s1 = Some t" "up_recv_waiter s1 = Some t'" "up_pending s1 = []"
    "up_error s1 = None" "up_open s1"
    using assms(1-5,7) by (auto simp: recv_register_def start_receiving_on_loop_def up_open_def split: if_splits)
  have s2: "ts = [t', t]" "s2 = (deliver_direct t d (Some peer) 0 s1)\<lparr>up_recv_waiter := None\<rparr>"
    using assms(6,8) s1(2,3) by (auto simp: recv_cb_def wakes_def)
  show "reg = Suspended" "ts = [t', t]" by (rule s1(1), rule s2(1))
  show "up_open s2" "fst (recv_resume reg False s2) = Inl (LogicError ''corouv::net::UdpSocket is closed'')"
    using s1 unfolding s2(2)
    by (simp_all add: deliver_direct_def up_open_def recv_resume_def resume_checks_def udp_end_def Let_def)
qed

text \<open>A datagram without payload is dropped.\<close>

lemma empty_datagram_dropped: "recv_cb 0 buf addr flags s = ([], s)"
  by (simp add: recv_cb_def)

end
