(* ===== verification/Spec2Isabelle.thy ===== *)
theory Spec2Isabelle
  imports Web_Router Http_Server Async_Mutex Async_Queue Task_Group Uv_Executor Sql_Orm Codec_Stream File_System Udp_Socket
begin

text \<open>
  A verification development for corouv, a C++ library of coroutine-based
  asynchronous I/O over libuv.

  \<^bold>\<open>Parts and how they interact.\<close> An executor (src/uv_executor.cpp) runs functions
  on the loop thread; coroutines wait on semaphores, mutexes, queues, events
  and task groups (include/corouv/async_semaphore.h, async_mutex.h,
  async_queue.h, event.h, task_group.h), and hand blocking calls to libuv's
  thread pool (blocking.h). TCP streams, listeners and UDP sockets
  (src/net.cpp), codec streams with TLS (src/transport.cpp) and files
  (file.h, fs.h, filesystem.h) wrap libuv's callbacks. HTTP (src/http.cpp)
  reads and writes messages over a stream, with form and multipart bodies
  (src/multipart.cpp); the router of web.h is a handler of the HTTP server.
  The SQL layer (src/sql.cpp) connects through registered drivers, on the
  thread pool when a driver blocks, and sql/orm.h builds statements for it.

  \<^bold>\<open>Conventions.\<close> A function that may throw returns a result, exn + 'a; state is
  passed and returned, with an exception too. size_t is a nat below 2^64, with
  the wrap-around written out where the code can reach it. Code outside the
  repository (libuv, the operating system, picohttpparser, BearSSL, SQL
  drivers, request handlers) is an argument of the definitions, and what is
  relied on is a named predicate (parses_head, engine_contract, file_contract,
  fs_contract, link_contract) that the witnesses show satisfiable on a
  concrete instance. Concurrent components are inductive step relations: one
  step is one critical section, one access to an atomic flag, one callback or
  one run of a coroutine up to its next suspension, under sequential
  consistency. Transition holds their common induction as the locale
  invariant_system, interpreted once for each component.

  \<^bold>\<open>Theories.\<close>
    \<^item> Prelude: exceptions, character classes, string searches, numbers as
      text, size_t arithmetic.
    \<^item> Http_Headers, Percent, Http_Form: the header list as a map from
      case-insensitive names (locale header_map), framing and connection
      headers; the three percent decoders (locale pct_decoder); form values.
    \<^item> Tcp_Stream: TcpStream's reads and writes over libuv's callbacks; what a
      read returns is the front of what is to come (locales byte_source,
      clean_source, byte_sink).
    \<^item> Http_Body: the buffer cursor and the fixed, chunked and until-close
      readers and the chunked writer. Bodies written are read back however the
      network cuts them, limits are enforced, and reading ends.
    \<^item> Http_Url, Http_Connection: URLs, Connection, Server::handle_client,
      Client, fetch. Requests and responses written are read back; a pipeline
      of requests is answered in order; ambiguous framing is refused.
    \<^item> Http_Server: the accept loop of Server::serve over the listener and a
      task group. serve ends regularly only with its listener closed and every
      connection ended; a connection that is reset takes the server down.
    \<^item> Multipart: parser and serialiser, inverse to each other.
    \<^item> Web_Router: patterns, dispatch, middleware, mounts, server builder. A
      route matches as its pattern says, dispatch takes the first route that
      matches path and method, and acyclic mounts need bounded fuel.
    \<^item> Async_Semaphore, Async_Mutex, Async_Queue: permits are conserved and no
      wake-up is lost; the mutex is a refinement of the semaphore and excludes;
      the queue, over any permit_pool, is first in first out and bounded. A
      task canceled after its acquire took a free permit loses the permit.
    \<^item> Reset_Event, Task_Group, Uv_Executor: no lost wake-up; a group driven
      from the loop is drained exactly when no child is pending; functions run
      in the order they were posted. The theorems of kind error show the
      interleavings in which a coroutine is resumed twice or a group is
      announced drained with a child running.
    \<^item> Blocking: an await of blocking::run ends as run_work says, whatever the
      order of worker, loop and cancellation.
    \<^item> Sql_Url, Sql_Value, Sql_Connection, Sql_Orm: connection URLs, values and
      their JSON text, driver registry and Connection, statements. No driver
      is connected twice, used after it is closed or closed twice; the placeholders of a statement stand for
      the values it is sent with, for both placeholder_styles.
    \<^item> Codec_Stream: CodecStream with the passthrough and the BearSSL codecs
      (locale stream_codec); a TLS stream that is read to its end gives the data
      of the records received, in order.
    \<^item> File_Io, File_System: File with its leases and close, path
      normalisation, create_directories, directories, remove_all. Requests never
      overlap close, what is written is read back, a removed tree is gone.
    \<^item> Tcp_Listener, Udp_Socket: connections and datagrams are handed out in the
      order libuv delivered them; a recv_some can overtake queued datagrams.
    \<^item> This theory: the router as the handler of a server connection.

  \<^bold>\<open>Fuel.\<close> Loops whose end depends on a stream take fuel or a measure in bytes:
  handle_client uses one more than the bytes to come, since every turn consumes
  a request head; the body readers recurse on the bytes and callbacks left
  (chunked_read_ends). handle_context counts mount levels and
  mounts_bounded shows that the rank of the router is enough; a store with a
  cycle of mounts runs out, as the code does of stack. The loops of CodecStream
  count turns, and the lemmas on PassthroughCodec say which number is enough;
  remove_all takes fuel for the entries below its path (remove_all_removes).

  \<^bold>\<open>Not modelled.\<close>
    \<^item> SqliteDriver, PostgresDriver and MySqlDriver of src/sql.cpp: they load
      shared libraries that are not in the repository, and marshal pointers.
    \<^item> sql/model.h, sql/reflect.h and the code generators: macros and build
      scripts; a table's metadata is an argument of the statements.
    \<^item> Loading of keys and certificates in src/transport.cpp, and
      src/https.cpp, which composes the HTTP connection with a codec stream;
      the two are modelled apart.
    \<^item> Name resolution, poll.h, socket options and names, handle set-up: one
      libuv call each. io.h forwards each call to the wrapped object.
    \<^item> cancel.h, timeout.h, timer.h: compositions of async_simple's signals,
      outside the repository; a cancellation or a time-out is an event of the
      component it reaches.
    \<^item> runtime.h, loop.h, executor.h, sync_wait.h, task.h: ownership of the loop
      and the coroutine type of async_simple.
    \<^item> The client of web.h; the file watcher and the one-request operations of
      filesystem.h; the examples and scripts.
\<close>

section \<open>A server that serves a router\<close>

text \<open>How an exception leaves a handler, as the clauses of handle_client tell them apart: a signal, an
  http::Error, another std::exception with its text, anything else. The text of a libuv error is
  uv_strerror's.\<close>

definition thrown :: "(uv_err \<Rightarrow> string) \<Rightarrow> exn \<Rightarrow> handler_result" where
  "thrown uv_strerror e =
     (case e of
        SignalException _ \<Rightarrow> HandlerSignal
      | HttpError http_status what \<Rightarrow> HandlerError http_status what
      | InvalidArgument what \<Rightarrow> HandlerException what
      | RuntimeError what \<Rightarrow> HandlerException what
      | LogicError what \<Rightarrow> HandlerException what
      | OverflowError what \<Rightarrow> HandlerException what
      | OutOfRange what \<Rightarrow> HandlerException what
      | SqlError _ what \<Rightarrow> HandlerException what
      | UvError code what \<Rightarrow> HandlerException (what @ '': '' @ uv_strerror code)
      | TimeoutError \<Rightarrow> HandlerException ''corouv timeout''
      | OtherException \<Rightarrow> HandlerUnknown
      | OutOfFuel \<Rightarrow> HandlerUnknown)"

text \<open>The handler of Router::handler: the router's state is looked up at each request.\<close>

definition router_handler ::
  "(uv_err \<Rightarrow> string) \<Rightarrow> nat \<Rightarrow> 'w store \<Rightarrow> router \<Rightarrow> 'w \<Rightarrow> Request \<Rightarrow> handler_result \<times> 'w" where
  "router_handler uv_strerror fuel st r w request =
     (case router_handle fuel st r request w of
        (Inr response, w') \<Rightarrow> (Handled response, w')
      | (Inl e, w') \<Rightarrow> (thrown uv_strerror e, w'))"

text \<open>A request that a router without middleware and without a handler of its own for unknown paths
  cannot place.\<close>

definition unrouted :: "'w router_state \<Rightarrow> Request \<Rightarrow> bool" where
  "unrouted state request \<longleftrightarrow>
     rs_middlewares state = [] \<and> rs_not_found state = None \<and>
     (\<forall>rt \<in> set (rs_routes state). \<not> matches \<lparr>cx_request = request, cx_params = []\<rparr> rt)"

lemma unrouted_answer:
  assumes "unrouted (st r) q"
  shows "router_handler uv_strerror (Suc f) st r w q = (Handled not_found_response, w)"
proof -
  let ?ctx = "\<lparr>cx_request = q, cx_params = []\<rparr>"
  have "find (\<lambda>rt. matches ?ctx rt \<and> allows ?ctx rt) (rs_routes (st r)) = None"
    "offered ?ctx (rs_routes (st r)) = []"
    using assms by (auto simp: unrouted_def find_None_iff offered_def filter_empty_conv)
  then show ?thesis
    using assms
    by (simp add: router_handler_def router_handle_def chain_def dispatch_def select_route_find merge_methods_def
        unrouted_def)
qed

lemma unrouted_answers:
  assumes "unrouted (st r) q"
  shows "answers (router_handler uv_strerror (Suc f) st r) w [q] = (response_wire not_found_response (rq_method q), w)"
    and "\<not> keeps_open (router_handler uv_strerror (Suc f) st r) w [q]"
    and "proper_on (router_handler uv_strerror (Suc f) st r) [q]"
  by (simp_all add: unrouted_answer[where st = st and r = r, OF assms] handler_response_def Let_def not_found_response_def
      error_response_def proper_on_def default_response_def bad_version_def)

abbreviation received :: "(Request \<times> string) list \<Rightarrow> Request list" where
  "received ms \<equiv> map (\<lambda>(rq, host). received_request rq host) ms"

section \<open>Property\<close>


text \<open>A parser for two heads of the same length.\<close>

definition two_heads_parser :: "string \<Rightarrow> 'p \<Rightarrow> string \<Rightarrow> 'p \<Rightarrow> string \<Rightarrow> nat \<Rightarrow> nat \<Rightarrow> int \<times> 'p" where
  "two_heads_parser head p head' p' s n last_len =
     (if starts_with head s then (int (length head), p)
      else if starts_with head' s then (int (length head'), p')
      else if starts_with s head \<or> starts_with s head' then (-2, p) else (-1, p))"

lemma two_heads_parser_parses:
  assumes "length head = length head'" "head \<noteq> head'"
  shows "parses_head (two_heads_parser head p head' p') n head p" "parses_head (two_heads_parser head p head' p') n head' p'"
  using assms by (auto simp: parses_head_def two_heads_parser_def starts_with_take)

definition get_request :: "string \<Rightarrow> Request" where
  "get_request target =
     \<lparr>rq_method = ''GET'', rq_target = target, rq_headers = [], rq_body = [], rq_trailers = [], rq_version_minor = 1,
      rq_keep_alive = True, rq_chunked = False\<rparr>"

definition one_route :: "nat store" where
  "one_route =
     route_get ''/a'' (\<lambda>ctx n. (Inr default_response, Suc n)) 0 (\<lambda>_. new_state)"

lemma one_route_a: "router_handler e 1 one_route 0 n (received_request (get_request ''/a'') ''h'') = (Handled default_response, Suc n)"
proof -
  have "request_path (rq_target (received_request (get_request ''/a'') ''h'')) = ''/a''"
    "rq_method (received_request (get_request ''/a'') ''h'') = ''GET''"
    "iequals ''GET'' ''GET''"
    "match_route ''/a'' ''/a'' False \<noteq> None" by code_simp+
  then show ?thesis
    by (auto simp: router_handler_def router_handle_def one_route_def route_get_def route_def add_route_def new_state_def
        chain_def dispatch_def)
qed

lemma one_route_b: "unrouted (one_route 0) (received_request (get_request ''/b'') ''h'')"
proof -
  have "request_path (rq_target (received_request (get_request ''/b'') ''h'')) = ''/b''"
    "match_route ''/b'' ''/a'' False = None" by code_simp+
  then show ?thesis
    by (simp add: unrouted_def matches_def one_route_def route_get_def route_def add_route_def new_state_def)
qed

lemma get_request_head:
  "length (request_head (sent_request (get_request ''/a'') ''h'')) = length (request_head (sent_request (get_request ''/b'') ''h''))"
  "length (request_head (sent_request (get_request ''/b'') ''h'')) \<le> 200"
  "request_head (sent_request (get_request ''/a'') ''h'') \<noteq> request_head (sent_request (get_request ''/b'') ''h'')"
  by code_simp+

lemma get_request_fits:
  "request_fits sample_limits (get_request ''/a'') ''h''" "request_fits sample_limits (get_request ''/b'') ''h''"
proof -
  have "parse_expect (rq_headers (sent_request (get_request ''/a'') ''h'')) = Expect_None"
    "parse_expect (rq_headers (sent_request (get_request ''/b'') ''h'')) = Expect_None" by code_simp+
  then show "request_fits sample_limits (get_request ''/a'') ''h''" "request_fits sample_limits (get_request ''/b'') ''h''"
    using get_request_head by (simp_all add: request_fits_def sane_limits_def sample_limits_def get_request_def)
qed


end
